(* ===== verification/Spi_Base.thy ===== *)
theory Spi_Base
  imports Complex_Main "HOL-Library.Signed_Division" "HOL-Library.Code_Target_Numeral"
begin

text \<open>
  Shared vocabulary of the development: results of fallible Go functions as sums, Go's
  fixed-width signed integers as wrapped \<open>int\<close>, decimal renderings of natural numbers
  (\<open>big.Int.String\<close>, \<open>strconv\<close>), bit lengths, the three-way comparison convention, and the
  generic facts about lists and powers of ten the component theories share.
\<close>

named_theorems spi_simps \<open>equations of the model that are safe to rewrite with\<close>
named_theorems decimal_simps \<open>value-level equations of the decimal arithmetic\<close>

subsection \<open>Fallible results\<close>

text \<open>A Go function returning \<open>(T, error)\<close> returns \<open>Err e\<close> or \<open>Ok x\<close>.\<close>

abbreviation Err :: "'e \<Rightarrow> 'e + 'a" where "Err \<equiv> Inl"
abbreviation Ok :: "'a \<Rightarrow> 'e + 'a" where "Ok \<equiv> Inr"

fun is_ok :: "'e + 'a \<Rightarrow> bool" where
  "is_ok (Inl e) = False"
| "is_ok (Inr x) = True"

text \<open>
  A loop that converts each element and returns at the first error:
  \<open>for _, c := range xs { y, err := f(c); if err != nil { return err }; out = append(out, y) }\<close>.
\<close>

fun map_res :: "('a \<Rightarrow> 'e + 'b) \<Rightarrow> 'a list \<Rightarrow> 'e + 'b list" where
  "map_res f [] = Ok []"
| "map_res f (x # xs) =
     (case f x of Inl e \<Rightarrow> Err e
      | Inr y \<Rightarrow> (case map_res f xs of Inl e \<Rightarrow> Err e | Inr ys \<Rightarrow> Ok (y # ys)))"

lemma map_res_cong [fundef_cong]:
  "xs = ys \<Longrightarrow> (\<And>x. x \<in> set ys \<Longrightarrow> f x = g x) \<Longrightarrow> map_res f xs = map_res g ys"
  by (induction xs arbitrary: ys) (auto split: sum.splits)

lemma map_res_Ok_iff:
  "map_res f xs = Inr ys \<longleftrightarrow> list_all2 (\<lambda>x y. f x = Inr y) xs ys"
proof (induction xs arbitrary: ys)
  case Nil
  then show ?case by (cases ys) auto
next
  case (Cons x xs)
  show ?case
    by (cases "f x"; cases "map_res f xs") (auto simp: list_all2_Cons1 Cons.IH [symmetric])
qed

lemma map_res_Ok_length: "map_res f xs = Inr ys \<Longrightarrow> length ys = length xs"
  by (simp add: map_res_Ok_iff list_all2_lengthD)

lemma map_res_Err:
  "map_res f xs = Inl e \<Longrightarrow> \<exists>x \<in> set xs. f x = Inl e"
  by (induction xs) (auto split: sum.splits)

lemma map_res_ok_iff_all: "is_ok (map_res f xs) \<longleftrightarrow> (\<forall>x \<in> set xs. is_ok (f x))"
  by (induction xs) (auto split: sum.splits)

text \<open>A guard that returns an error: only the fall-through can succeed.\<close>

lemma if_Err_eq_Ok: "(if c then Err e else r) = Ok x \<longleftrightarrow> \<not> c \<and> r = Ok x"
  by simp

lemma option_Err_eq_Ok:
  "(case p of None \<Rightarrow> Err e | Some y \<Rightarrow> f y) = Ok x \<longleftrightarrow> (\<exists>y. p = Some y \<and> f y = Ok x)"
  by (cases p) simp_all

lemma sum_Err_eq_Ok:
  "(case p of Inl e \<Rightarrow> Err (g e) | Inr y \<Rightarrow> f y) = Ok x \<longleftrightarrow> (\<exists>y. p = Ok y \<and> f y = Ok x)"
  by (cases p) simp_all

lemmas guard_simps = if_Err_eq_Ok option_Err_eq_Ok sum_Err_eq_Ok

lemma is_okE: "is_ok r \<Longrightarrow> (\<And>x. r = Inr x \<Longrightarrow> P) \<Longrightarrow> P"
  by (cases r) auto

subsection \<open>Fixed-width signed integers\<close>

text \<open>Go's \<open>int32\<close> and \<open>int64\<close> arithmetic wraps in two's complement.\<close>

definition i32 :: "int \<Rightarrow> int" where "i32 x = signed_take_bit 31 x"
definition i64 :: "int \<Rightarrow> int" where "i64 x = signed_take_bit 63 x"

definition min_i32 :: int where "min_i32 = - 2147483648"
definition max_i32 :: int where "max_i32 = 2147483647"

definition in_i32 :: "int \<Rightarrow> bool" where "in_i32 x \<longleftrightarrow> min_i32 \<le> x \<and> x \<le> max_i32"

lemma in_i32_iff: "in_i32 x \<longleftrightarrow> - 2147483648 \<le> x \<and> x \<le> 2147483647"
  by (simp add: in_i32_def min_i32_def max_i32_def)

lemma i32_id: "in_i32 x \<Longrightarrow> i32 x = x"
  by (simp add: i32_def in_i32_iff signed_take_bit_int_eq_self_iff)

lemma i32_in_range: "in_i32 (i32 x)"
  using signed_take_bit_int_greater_eq_minus_exp [of 31 x]
    signed_take_bit_int_less_exp [of 31 x]
  by (simp add: i32_def in_i32_iff)

lemma i64_id: "- 9223372036854775808 \<le> x \<Longrightarrow> x \<le> 9223372036854775807 \<Longrightarrow> i64 x = x"
  by (simp add: i64_def signed_take_bit_int_eq_self_iff)

subsection \<open>Three-way comparison\<close>

text \<open>Go's comparison convention: negative, zero or positive.\<close>

definition cmp3 :: "'a::linorder \<Rightarrow> 'a \<Rightarrow> int" where
  "cmp3 a b = (if a < b then -1 else if a = b then 0 else 1)"

lemma cmp3_simps [simp]:
  "cmp3 a b < 0 \<longleftrightarrow> a < b"
  "cmp3 a b \<le> 0 \<longleftrightarrow> a \<le> b"
  "cmp3 a b = 0 \<longleftrightarrow> a = b"
  "0 = cmp3 a b \<longleftrightarrow> a = b"
  "0 < cmp3 a b \<longleftrightarrow> b < a"
  "0 \<le> cmp3 a b \<longleftrightarrow> b \<le> a"
  by (auto simp: cmp3_def)

lemma cmp3_self: "cmp3 a a = 0"
  by simp

lemma cmp3_swap: "cmp3 b a = - cmp3 a b"
  by (auto simp: cmp3_def)

subsection \<open>Decimal digits of natural numbers\<close>

definition digit_char :: "nat \<Rightarrow> char" where
  "digit_char n = char_of (48 + n)"

definition is_digit :: "char \<Rightarrow> bool" where
  "is_digit c \<longleftrightarrow> 48 \<le> (of_char c :: nat) \<and> (of_char c :: nat) \<le> 57"

definition digit_val :: "char \<Rightarrow> nat" where
  "digit_val c = of_char c - 48"

text \<open>\<open>dec_str n\<close> is the decimal rendering without leading zeros.\<close>

fun dec_str :: "nat \<Rightarrow> string" where
  "dec_str n = (if n < 10 then [digit_char n] else dec_str (n div 10) @ [digit_char (n mod 10)])"

declare dec_str.simps [simp del]

definition dec_val :: "string \<Rightarrow> nat" where
  "dec_val s = foldl (\<lambda>a c. 10 * a + digit_val c) 0 s"

lemma of_char_digit_char: "n < 10 \<Longrightarrow> (of_char (digit_char n) :: nat) = 48 + n"
  by (simp add: digit_char_def of_char_of)

lemma digit_val_char [simp]: "n < 10 \<Longrightarrow> digit_val (digit_char n) = n"
  by (simp add: digit_val_def of_char_digit_char)

lemma is_digit_char [simp]: "n < 10 \<Longrightarrow> is_digit (digit_char n)"
  by (simp add: is_digit_def of_char_digit_char)

lemma digit_char_inj: "m < 10 \<Longrightarrow> n < 10 \<Longrightarrow> digit_char m = digit_char n \<longleftrightarrow> m = n"
  by (metis digit_val_char)

lemma digit_val_lt: "is_digit c \<Longrightarrow> digit_val c < 10"
  by (auto simp: is_digit_def digit_val_def)

lemma dec_val_Nil [simp]: "dec_val [] = 0"
  by (simp add: dec_val_def)

lemma dec_val_snoc [simp]: "dec_val (s @ [c]) = 10 * dec_val s + digit_val c"
  by (simp add: dec_val_def)

lemma dec_val_append: "dec_val (s @ t) = dec_val s * 10 ^ length t + dec_val t"
proof (induction t rule: rev_induct)
  case (snoc c t)
  then show ?case
    by (simp only: append_assoc [symmetric] dec_val_snoc) (simp add: algebra_simps)
qed simp

lemma dec_val_lt: "\<forall>c \<in> set s. is_digit c \<Longrightarrow> dec_val s < 10 ^ length s"
proof (induction s rule: rev_induct)
  case (snoc c s)
  then show ?case using digit_val_lt [of c] by simp
qed simp

lemma dec_val_str [simp]: "dec_val (dec_str n) = n"
proof (induction n rule: dec_str.induct)
  case (1 n)
  then show ?case by (subst dec_str.simps) (auto simp: dec_val_def)
qed

lemma dec_str_digits: "\<forall>c \<in> set (dec_str n). is_digit c"
proof (induction n rule: dec_str.induct)
  case (1 n)
  then show ?case by (subst dec_str.simps) auto
qed

lemma dec_str_not_Nil [simp]: "dec_str n \<noteq> []"
  by (subst dec_str.simps) simp

lemma length_dec_str_pos [simp]: "0 < length (dec_str n)"
  by simp

lemma dec_str_inj: "dec_str m = dec_str n \<longleftrightarrow> m = n"
  by (metis dec_val_str)

lemma dec_str_lt: "n < 10 ^ length (dec_str n)"
  using dec_val_lt [OF dec_str_digits, of n] by simp

lemma dec_str_ge: "0 < n \<Longrightarrow> 10 ^ (length (dec_str n) - 1) \<le> n"
proof (induction n rule: dec_str.induct)
  case (1 n)
  show ?case
  proof (cases "n < 10")
    case True
    with 1 show ?thesis by (subst dec_str.simps) simp
  next
    case False
    let ?m = "n div 10"
    from False 1 have "10 ^ (length (dec_str ?m) - 1) \<le> ?m" by simp
    then have "10 * 10 ^ (length (dec_str ?m) - 1) \<le> n" by linarith
    moreover have "10 * (10::nat) ^ (length (dec_str ?m) - 1) = 10 ^ length (dec_str ?m)"
      by (metis length_dec_str_pos power_eq_if not_gr0)
    ultimately show ?thesis using False by (subst dec_str.simps) simp
  qed
qed

text \<open>The digit count is the unique \<open>k\<close> with \<open>10^(k-1) \<le> n < 10^k\<close>.\<close>

lemma length_dec_str_eqI:
  assumes "10 ^ k \<le> n" and "n < 10 ^ Suc k"
  shows "length (dec_str n) = Suc k"
proof -
  let ?l = "length (dec_str n)"
  from assms(1) have n: "0 < n" by (metis le_zero_eq not_gr0 power_eq_0_iff zero_neq_numeral)
  have "(10::nat) ^ k < 10 ^ ?l" using assms(1) dec_str_lt by (rule le_less_trans)
  then have "k < ?l" by (rule power_less_imp_less_exp [rotated]) simp
  moreover have "(10::nat) ^ (?l - 1) < 10 ^ Suc k" using dec_str_ge [OF n] assms(2) by (rule le_less_trans)
  then have "?l - 1 < Suc k" by (rule power_less_imp_less_exp [rotated]) simp
  ultimately show ?thesis by simp
qed

lemma length_dec_str_mult10:
  "0 < n \<Longrightarrow> length (dec_str (n * 10 ^ k)) = length (dec_str n) + k"
proof -
  assume n: "0 < n"
  let ?l = "length (dec_str n)"
  have l: "Suc (?l - 1) = ?l" using length_dec_str_pos [of n] by simp
  have "10 ^ (?l - 1 + k) \<le> n * 10 ^ k"
    using dec_str_ge [OF n] by (simp add: power_add)
  moreover have "n * 10 ^ k < 10 ^ Suc (?l - 1 + k)"
    using dec_str_lt [of n] l by (metis add_Suc mult_less_mono1 power_add zero_less_numeral zero_less_power)
  ultimately have "length (dec_str (n * 10 ^ k)) = Suc (?l - 1 + k)"
    by (rule length_dec_str_eqI)
  then show ?thesis using l by simp
qed

lemma length_dec_str_mono: "m \<le> n \<Longrightarrow> length (dec_str m) \<le> length (dec_str n)"
proof (cases "m = 0")
  case True
  then show ?thesis using length_dec_str_pos [of n] by (subst dec_str.simps) (simp add: Suc_leI)
next
  case False
  assume "m \<le> n"
  then have "10 ^ (length (dec_str m) - 1) < (10::nat) ^ length (dec_str n)"
    using dec_str_ge [of m] dec_str_lt [of n] False by linarith
  then have "length (dec_str m) - 1 < length (dec_str n)"
    by (rule power_less_imp_less_exp [rotated]) simp
  then show ?thesis by simp
qed

subsection \<open>Bit length\<close>

text \<open>\<open>big.Int.BitLen\<close> of the absolute value.\<close>

fun bit_len :: "nat \<Rightarrow> nat" where
  "bit_len n = (if n = 0 then 0 else Suc (bit_len (n div 2)))"

declare bit_len.simps [simp del]

lemma bit_len_0 [simp]: "bit_len 0 = 0"
  by (subst bit_len.simps) simp

lemma bit_len_pos: "0 < n \<Longrightarrow> 0 < bit_len n"
  by (subst bit_len.simps) simp

lemma bit_len_lt: "n < 2 ^ bit_len n"
proof (induction n rule: bit_len.induct)
  case (1 n)
  show ?case
  proof (cases "n = 0")
    case False
    with 1 have "n div 2 < 2 ^ bit_len (n div 2)" by simp
    then have "n < 2 * 2 ^ bit_len (n div 2)" by linarith
    then show ?thesis using False by (subst bit_len.simps) simp
  qed simp
qed

lemma bit_len_ge: "0 < n \<Longrightarrow> 2 ^ (bit_len n - 1) \<le> n"
proof (induction n rule: bit_len.induct)
  case (1 n)
  show ?case
  proof (cases "n div 2 = 0")
    case True
    with 1 have "n = 1" by linarith
    then show ?thesis by (subst bit_len.simps) simp
  next
    case False
    with 1 have "2 ^ (bit_len (n div 2) - 1) \<le> n div 2" by simp
    moreover have "2 * (2::nat) ^ (bit_len (n div 2) - 1) = 2 ^ bit_len (n div 2)"
      using bit_len_pos [of "n div 2"] False by (metis neq0_conv power_eq_if)
    ultimately have "2 ^ bit_len (n div 2) \<le> n" by linarith
    then show ?thesis using False by (subst bit_len.simps) simp
  qed
qed

subsection \<open>Lists\<close>

lemma filter_singleton_iff_distinct:
  "distinct xs \<Longrightarrow> x \<in> set xs \<Longrightarrow> filter (\<lambda>y. y = x) xs = [x]"
  by (induction xs) (auto simp: filter_empty_conv)

fun strip_prefix :: "string \<Rightarrow> string \<Rightarrow> string option" where
  "strip_prefix [] s = Some s"
| "strip_prefix (p # ps) [] = None"
| "strip_prefix (p # ps) (c # cs) = (if p = c then strip_prefix ps cs else None)"

lemma strip_prefix_Some_iff: "strip_prefix p s = Some t \<longleftrightarrow> s = p @ t"
  by (induction p s rule: strip_prefix.induct) auto

lemma strip_prefix_append [simp]: "strip_prefix p (p @ t) = Some t"
  by (simp add: strip_prefix_Some_iff)

end
