(* ===== verification/Data_Type.thy ===== *)
theory Data_Type
  imports Spi_Base
begin

text \<open>
  The primitive data types of the entity model (\<open>datatype.go\<close>) and the numeric widening
  lattice (\<open>numeric.go\<close>): names and their parser, the sorted type set with its collapse
  rule, assignability and the numeric collapse. Properties: the names round-trip, the lattice
  is a partial order with \<open>UnboundDecimal\<close> on top, the collapse is the least type every input
  widens to, and every sequence of \<open>Add\<close> calls keeps the set well formed and covering.
\<close>

subsection \<open>Data types and their names\<close>

datatype data_type =
    Integer | Long | BigInteger | UnboundInteger
  | Double | BigDecimal | UnboundDecimal
  | String | Character
  | LocalDate | LocalDateTime | LocalTime | ZonedDateTime | Year | YearMonth
  | UUIDType | TimeUUIDType
  | ByteArray
  | Boolean | Null

text \<open>The \<open>iota\<close> value of the constant, which \<open>TypeSet.Add\<close> sorts by.\<close>

fun dt_ord :: "data_type \<Rightarrow> nat" where
  "dt_ord Integer = 0"
| "dt_ord Long = 1"
| "dt_ord BigInteger = 2"
| "dt_ord UnboundInteger = 3"
| "dt_ord Double = 4"
| "dt_ord BigDecimal = 5"
| "dt_ord UnboundDecimal = 6"
| "dt_ord String = 7"
| "dt_ord Character = 8"
| "dt_ord LocalDate = 9"
| "dt_ord LocalDateTime = 10"
| "dt_ord LocalTime = 11"
| "dt_ord ZonedDateTime = 12"
| "dt_ord Year = 13"
| "dt_ord YearMonth = 14"
| "dt_ord UUIDType = 15"
| "dt_ord TimeUUIDType = 16"
| "dt_ord ByteArray = 17"
| "dt_ord Boolean = 18"
| "dt_ord Null = 19"

definition all_data_types :: "data_type list" where
  "all_data_types =
     [Integer, Long, BigInteger, UnboundInteger, Double, BigDecimal, UnboundDecimal,
      String, Character, LocalDate, LocalDateTime, LocalTime, ZonedDateTime, Year, YearMonth,
      UUIDType, TimeUUIDType, ByteArray, Boolean, Null]"

lemma all_data_types_complete: "d \<in> set all_data_types"
  by (cases d) (simp_all add: all_data_types_def)

lemma dt_ord_inj: "dt_ord a = dt_ord b \<Longrightarrow> a = b"
  by (cases a; cases b; simp)

instantiation data_type :: linorder
begin

definition less_eq_data_type :: "data_type \<Rightarrow> data_type \<Rightarrow> bool" where
  "a \<le> b \<longleftrightarrow> dt_ord a \<le> dt_ord b"

definition less_data_type :: "data_type \<Rightarrow> data_type \<Rightarrow> bool" where
  "a < b \<longleftrightarrow> dt_ord a < dt_ord b"

instance
  by standard (auto simp: less_eq_data_type_def less_data_type_def dest: dt_ord_inj)

end

fun data_type_name :: "data_type \<Rightarrow> string" where
  "data_type_name Integer = ''INTEGER''"
| "data_type_name Long = ''LONG''"
| "data_type_name BigInteger = ''BIG_INTEGER''"
| "data_type_name UnboundInteger = ''UNBOUND_INTEGER''"
| "data_type_name Double = ''DOUBLE''"
| "data_type_name BigDecimal = ''BIG_DECIMAL''"
| "data_type_name UnboundDecimal = ''UNBOUND_DECIMAL''"
| "data_type_name String = ''STRING''"
| "data_type_name Character = ''CHARACTER''"
| "data_type_name LocalDate = ''LOCAL_DATE''"
| "data_type_name LocalDateTime = ''LOCAL_DATE_TIME''"
| "data_type_name LocalTime = ''LOCAL_TIME''"
| "data_type_name ZonedDateTime = ''ZONED_DATE_TIME''"
| "data_type_name Year = ''YEAR''"
| "data_type_name YearMonth = ''YEAR_MONTH''"
| "data_type_name UUIDType = ''UUID_TYPE''"
| "data_type_name TimeUUIDType = ''TIME_UUID_TYPE''"
| "data_type_name ByteArray = ''BYTE_ARRAY''"
| "data_type_name Boolean = ''BOOLEAN''"
| "data_type_name Null = ''NULL''"

text \<open>\<open>dataTypeFromName\<close>: the inverse table the package's \<open>init\<close> builds.\<close>

definition data_type_from_name :: "string \<rightharpoonup> data_type" where
  "data_type_from_name = map_of (map (\<lambda>d. (data_type_name d, d)) all_data_types)"

definition ParseDataType :: "string \<Rightarrow> data_type option" where
  "ParseDataType name = data_type_from_name name"

lemma data_type_name_inj: "data_type_name a = data_type_name b \<Longrightarrow> a = b"
  by (cases a; cases b; simp)

lemma ParseDataType_name [simp]: "ParseDataType (data_type_name d) = Some d"
  by (cases d) (simp_all add: ParseDataType_def data_type_from_name_def all_data_types_def)

lemma ParseDataType_Some: "ParseDataType s = Some d \<Longrightarrow> s = data_type_name d"
  unfolding ParseDataType_def data_type_from_name_def
  by (drule map_of_SomeD) auto

subsection \<open>Numeric families and the widening lattice\<close>

fun NumericFamily :: "data_type \<Rightarrow> int" where
  "NumericFamily dt =
     (case dt of
        Integer \<Rightarrow> 1 | Long \<Rightarrow> 1 | BigInteger \<Rightarrow> 1 | UnboundInteger \<Rightarrow> 1
      | Double \<Rightarrow> 2 | BigDecimal \<Rightarrow> 2 | UnboundDecimal \<Rightarrow> 2
      | _ \<Rightarrow> 0)"

fun NumericRank :: "data_type \<Rightarrow> int" where
  "NumericRank dt =
     (case dt of
        Integer \<Rightarrow> 0 | Long \<Rightarrow> 1 | BigInteger \<Rightarrow> 2 | UnboundInteger \<Rightarrow> 3
      | Double \<Rightarrow> 0 | BigDecimal \<Rightarrow> 1 | UnboundDecimal \<Rightarrow> 2
      | _ \<Rightarrow> - 1)"

definition IsNumeric :: "data_type \<Rightarrow> bool" where
  "IsNumeric dt \<longleftrightarrow> NumericFamily dt \<noteq> 0"

text \<open>The adjacency table \<open>wideningLattice\<close>: where a source type may widen to.\<close>

fun wideningLattice :: "data_type \<Rightarrow> data_type list" where
  "wideningLattice Integer =
     [Long, Double, BigInteger, BigDecimal, UnboundInteger, UnboundDecimal]"
| "wideningLattice Long = [BigInteger, BigDecimal, UnboundInteger, UnboundDecimal]"
| "wideningLattice BigInteger = [UnboundInteger, UnboundDecimal]"
| "wideningLattice UnboundInteger = [UnboundDecimal]"
| "wideningLattice Double = [UnboundDecimal]"
| "wideningLattice BigDecimal = [UnboundDecimal]"
| "wideningLattice _ = []"

definition IsAssignableTo :: "data_type \<Rightarrow> data_type \<Rightarrow> bool" where
  "IsAssignableTo dataT schemaT \<longleftrightarrow>
     dataT = schemaT \<or> dataT = Null \<or> schemaT \<in> set (wideningLattice dataT)"

lemma IsAssignableTo_refl [simp]: "IsAssignableTo d d"
  by (simp add: IsAssignableTo_def)

lemma wideningLattice_closed:
  "b \<in> set (wideningLattice a) \<Longrightarrow> set (wideningLattice b) \<subseteq> set (wideningLattice a)"
  by (cases a) auto

lemma Null_not_widened [simp]: "Null \<notin> set (wideningLattice a)"
  by (cases a) simp_all

lemma IsAssignableTo_trans:
  "IsAssignableTo a b \<Longrightarrow> IsAssignableTo b c \<Longrightarrow> IsAssignableTo a c"
  using wideningLattice_closed [of b a] Null_not_widened [of a]
  by (auto simp: IsAssignableTo_def)

lemma IsAssignableTo_antisym:
  "IsAssignableTo a b \<Longrightarrow> IsAssignableTo b a \<Longrightarrow> a = b"
  by (cases a; cases b) (simp_all add: IsAssignableTo_def)

lemma IsAssignableTo_UnboundDecimal: "IsNumeric d \<Longrightarrow> IsAssignableTo d UnboundDecimal"
  by (cases d) (simp_all add: IsAssignableTo_def IsNumeric_def)

text \<open>
  \<open>CollapseNumeric\<close> tracks the widest integer and the widest decimal type seen
  (\<open>None\<close> is the code's sentinel), and panics (\<open>None\<close> as result) on an empty input or a
  non-numeric member.
\<close>

fun collapse_widest ::
  "data_type option \<Rightarrow> data_type option \<Rightarrow> data_type list
    \<Rightarrow> (data_type option \<times> data_type option) option" where
  "collapse_widest wi wd [] = Some (wi, wd)"
| "collapse_widest wi wd (dt # dts) =
     (if NumericFamily dt = 1 then
        collapse_widest
          (case wi of None \<Rightarrow> Some dt
           | Some w \<Rightarrow> if NumericRank dt > NumericRank w then Some dt else wi) wd dts
      else if NumericFamily dt = 2 then
        collapse_widest wi
          (case wd of None \<Rightarrow> Some dt
           | Some w \<Rightarrow> if NumericRank dt > NumericRank w then Some dt else wd) dts
      else None)"

definition CollapseNumeric :: "data_type list \<Rightarrow> data_type option" where
  "CollapseNumeric types =
     (if types = [] then None
      else case collapse_widest None None types of
        None \<Rightarrow> None
      | Some (wi, None) \<Rightarrow> wi
      | Some (wi, Some candidate) \<Rightarrow>
          if \<exists>dt \<in> set types. dt \<noteq> candidate \<and> \<not> IsAssignableTo dt candidate
          then Some UnboundDecimal else Some candidate)"

text \<open>The widest type of one family is an upper bound and a member of the input.\<close>

definition widest_of :: "int \<Rightarrow> data_type option \<Rightarrow> data_type set \<Rightarrow> bool" where
  "widest_of fam w S \<longleftrightarrow>
     (case w of None \<Rightarrow> \<forall>d \<in> S. NumericFamily d \<noteq> fam
      | Some m \<Rightarrow> m \<in> S \<and> NumericFamily m = fam
          \<and> (\<forall>d \<in> S. NumericFamily d = fam \<longrightarrow> NumericRank d \<le> NumericRank m))"

lemma widest_of_insert_other:
  "widest_of fam w S \<Longrightarrow> NumericFamily d \<noteq> fam \<Longrightarrow> widest_of fam w (insert d S)"
  by (auto simp: widest_of_def split: option.splits)

lemma widest_of_insert_same:
  "widest_of fam w S \<Longrightarrow> NumericFamily d = fam \<Longrightarrow>
   widest_of fam (case w of None \<Rightarrow> Some d
     | Some m \<Rightarrow> if NumericRank d > NumericRank m then Some d else w) (insert d S)"
  by (cases w) (auto simp: widest_of_def simp del: NumericFamily.simps NumericRank.simps)

lemma collapse_widest_spec:
  assumes "widest_of 1 wi S" and "widest_of 2 wd S" and "\<forall>d \<in> set dts. IsNumeric d"
  shows "\<exists>wi' wd'. collapse_widest wi wd dts = Some (wi', wd')
     \<and> widest_of 1 wi' (S \<union> set dts) \<and> widest_of 2 wd' (S \<union> set dts)"
  using assms
proof (induction dts arbitrary: wi wd S)
  case Nil
  then show ?case by simp
next
  case (Cons d dts)
  have fam: "NumericFamily d = 1 \<or> NumericFamily d = 2"
    using Cons.prems(3) by (cases d) (simp_all add: IsNumeric_def)
  have "S \<union> set (d # dts) = insert d S \<union> set dts" by auto
  then show ?case
    using fam Cons.prems Cons.IH [of _ "insert d S"]
      widest_of_insert_same [of 1 wi S d] widest_of_insert_other [of 1 wi S d]
      widest_of_insert_same [of 2 wd S d] widest_of_insert_other [of 2 wd S d]
    by (auto simp del: NumericFamily.simps NumericRank.simps)
qed

lemma same_family_assignable:
  "NumericFamily d = 1 \<Longrightarrow> NumericFamily m = 1 \<Longrightarrow> NumericRank d \<le> NumericRank m
    \<Longrightarrow> IsAssignableTo d m"
  by (cases d; cases m) (simp_all add: IsAssignableTo_def)

lemma decimal_upper_bound:
  assumes "NumericFamily w = 2" and "\<not> IsAssignableTo d w"
    and "IsAssignableTo w u" and "IsAssignableTo d u"
  shows "u = UnboundDecimal"
proof -
  have "u = w \<or> u = UnboundDecimal"
    using assms(1,3) by (cases w) (auto simp: IsAssignableTo_def)
  with assms(2,4) show ?thesis by blast
qed

text \<open>
  The collapse is the least upper bound of its inputs in the widening lattice: every input
  widens to it, and it widens to every other type that covers the inputs.
\<close>

lemma collapse_lub:
  assumes ne: "types \<noteq> []" and num: "\<forall>d \<in> set types. IsNumeric d"
  shows "\<exists>r. CollapseNumeric types = Some r \<and> IsNumeric r
    \<and> (\<forall>d \<in> set types. IsAssignableTo d r)
    \<and> (\<forall>u. (\<forall>d \<in> set types. IsAssignableTo d u) \<longrightarrow> IsAssignableTo r u)"
proof -
  have "widest_of 1 None {}" "widest_of 2 None {}" by (simp_all add: widest_of_def)
  from collapse_widest_spec [OF this num]
  obtain wi wd where w: "collapse_widest None None types = Some (wi, wd)"
    and w1: "widest_of 1 wi (set types)" and w2: "widest_of 2 wd (set types)" by auto
  show ?thesis
  proof (cases wd)
    case None
    have all1: "\<forall>d \<in> set types. NumericFamily d = 1"
    proof
      fix d assume "d \<in> set types"
      with None w2 num show "NumericFamily d = 1"
        by (cases d) (auto simp: widest_of_def IsNumeric_def)
    qed
    with ne w1 obtain m where m: "wi = Some m" "m \<in> set types" "NumericFamily m = 1"
      "\<forall>d \<in> set types. NumericRank d \<le> NumericRank m"
      by (cases wi) (auto simp: widest_of_def simp del: NumericFamily.simps NumericRank.simps)
    have "CollapseNumeric types = Some m" using ne w None m by (simp add: CollapseNumeric_def)
    moreover have "\<forall>d \<in> set types. IsAssignableTo d m"
      using all1 m same_family_assignable by blast
    ultimately show ?thesis using m num by blast
  next
    case (Some c)
    with w2 have c: "c \<in> set types" "NumericFamily c = 2" by (auto simp: widest_of_def)
    show ?thesis
    proof (cases "\<exists>dt \<in> set types. dt \<noteq> c \<and> \<not> IsAssignableTo dt c")
      case True
      then obtain d where d: "d \<in> set types" "\<not> IsAssignableTo d c" by blast
      have "CollapseNumeric types = Some UnboundDecimal"
        using ne w Some True by (simp add: CollapseNumeric_def)
      moreover have "\<forall>u. (\<forall>d \<in> set types. IsAssignableTo d u) \<longrightarrow> u = UnboundDecimal"
        using decimal_upper_bound [of c d] d c by blast
      ultimately show ?thesis
        using num IsAssignableTo_UnboundDecimal by (auto simp: IsNumeric_def)
    next
      case False
      then have "CollapseNumeric types = Some c" and "\<forall>d \<in> set types. IsAssignableTo d c"
        using ne w Some by (auto simp: CollapseNumeric_def)
      then show ?thesis using c num by blast
    qed
  qed
qed

subsection \<open>Type sets\<close>

text \<open>\<open>TypeSet\<close> is its slice of members; \<open>NewTypeSet\<close> is empty.\<close>

type_synonym type_set = "data_type list"

definition NewTypeSet :: type_set where
  "NewTypeSet = []"

text \<open>
  \<open>Add\<close>: drop an incoming NULL next to a concrete member, deduplicate, append, strip an
  existing NULL when the incoming type is concrete, collapse two or more numeric members, sort.
  \<open>None\<close> is the panic of \<open>CollapseNumeric\<close>.
\<close>

definition TypeSet_Add :: "type_set \<Rightarrow> data_type \<Rightarrow> type_set option" where
  "TypeSet_Add ts dt =
     (if dt = Null \<and> (\<exists>e \<in> set ts. e \<noteq> Null) then Some ts
      else if dt \<in> set ts then Some ts
      else
        (let ts1 = ts @ [dt];
             ts2 = (if dt \<noteq> Null then filter (\<lambda>e. e \<noteq> Null) ts1 else ts1);
             numerics = filter IsNumeric ts2;
             nonNumerics = filter (\<lambda>e. \<not> IsNumeric e) ts2
         in if length numerics \<ge> 2 then
              (case CollapseNumeric numerics of
                 None \<Rightarrow> None
               | Some collapsed \<Rightarrow> Some (sort (nonNumerics @ [collapsed])))
            else Some (sort ts2)))"

fun TypeSet_AddAll :: "type_set \<Rightarrow> data_type list \<Rightarrow> type_set option" where
  "TypeSet_AddAll ts [] = Some ts"
| "TypeSet_AddAll ts (d # ds) =
     (case TypeSet_Add ts d of None \<Rightarrow> None | Some ts' \<Rightarrow> TypeSet_AddAll ts' ds)"

definition TypeSet_Union :: "type_set \<Rightarrow> type_set \<Rightarrow> type_set option" where
  "TypeSet_Union a b =
     (case TypeSet_AddAll NewTypeSet a of None \<Rightarrow> None | Some r \<Rightarrow> TypeSet_AddAll r b)"

definition TypeSet_IsPolymorphic :: "type_set \<Rightarrow> bool" where
  "TypeSet_IsPolymorphic ts \<longleftrightarrow> length ts > 1"

definition TypeSet_IsEmpty :: "type_set \<Rightarrow> bool" where
  "TypeSet_IsEmpty ts \<longleftrightarrow> length ts = 0"

definition TypeSet_Equal :: "type_set \<Rightarrow> type_set \<Rightarrow> bool" where
  "TypeSet_Equal a b \<longleftrightarrow> length a = length b \<and> list_all2 (=) a b"

text \<open>
  Well-formed sets: sorted, duplicate-free, at most one numeric member, and NULL only alone.
\<close>

definition typeset_wf :: "type_set \<Rightarrow> bool" where
  "typeset_wf ts \<longleftrightarrow> sorted ts \<and> distinct ts \<and> length (filter IsNumeric ts) \<le> 1
     \<and> (Null \<in> set ts \<longrightarrow> ts = [Null])"

text \<open>A set covers a type when the type itself, or a type it widens to, is a member.\<close>

definition covers :: "type_set \<Rightarrow> data_type \<Rightarrow> bool" where
  "covers ts d \<longleftrightarrow> (\<exists>m \<in> set ts. IsAssignableTo d m)"

lemma typeset_wf_empty [simp]: "typeset_wf NewTypeSet"
  by (simp add: typeset_wf_def NewTypeSet_def)

lemma not_IsNumeric_Null [simp]: "\<not> IsNumeric Null"
  by (simp add: IsNumeric_def)

lemma filter_le1_distinct:
  "length (filter P xs) \<le> 1 \<Longrightarrow> distinct (filter P xs)"
  by (cases "filter P xs") auto

lemma TypeSet_Add_spec:
  assumes wf: "typeset_wf ts"
  shows "\<exists>r. TypeSet_Add ts dt = Some r \<and> typeset_wf r
     \<and> (\<forall>d. covers ts d \<longrightarrow> covers r d) \<and> covers r dt"
proof (cases "(dt = Null \<and> (\<exists>e \<in> set ts. e \<noteq> Null)) \<or> dt \<in> set ts")
  case True
  then have "TypeSet_Add ts dt = Some ts" by (auto simp: TypeSet_Add_def)
  moreover have "covers ts dt" using True by (auto simp: covers_def IsAssignableTo_def)
  ultimately show ?thesis using wf by blast
next
  case False
  define ts2 where "ts2 = (if dt \<noteq> Null then filter (\<lambda>e. e \<noteq> Null) (ts @ [dt]) else ts @ [dt])"
  have ts2: "ts2 = (if dt \<noteq> Null then filter (\<lambda>e. e \<noteq> Null) ts @ [dt] else [Null])"
  proof (cases "dt = Null")
    case True
    with False have "ts = []" by (cases ts) auto
    then show ?thesis using True by (simp add: ts2_def)
  qed (simp add: ts2_def)
  have dist: "distinct ts2" using wf False by (auto simp: ts2 typeset_wf_def)
  have nullonly: "Null \<in> set ts2 \<Longrightarrow> ts2 = [Null]" by (auto simp: ts2 split: if_splits)
  have cov2: "covers ts2 d" if "covers ts d \<or> d = dt" for d
    using that False by (cases "dt = Null") (auto simp: covers_def ts2 IsAssignableTo_def)
  show ?thesis
  proof (cases "length (filter IsNumeric ts2) \<ge> 2")
    case True
    from collapse_lub [of "filter IsNumeric ts2"] True
    obtain c where c: "CollapseNumeric (filter IsNumeric ts2) = Some c" "IsNumeric c"
      "\<forall>d \<in> set (filter IsNumeric ts2). IsAssignableTo d c" by fastforce
    let ?r = "sort (filter (\<lambda>e. \<not> IsNumeric e) ts2 @ [c])"
    have add: "TypeSet_Add ts dt = Some ?r"
      using False True c(1) unfolding TypeSet_Add_def Let_def ts2_def [symmetric] by auto
    have "covers ?r d" if "covers ts2 d" for d
    proof -
      from that obtain m where m: "m \<in> set ts2" "IsAssignableTo d m" by (auto simp: covers_def)
      show ?thesis
      proof (cases "IsNumeric m")
        case True
        then have "IsAssignableTo m c" using c(3) m by simp
        then show ?thesis using IsAssignableTo_trans m(2) by (auto simp: covers_def)
      qed (use m in \<open>auto simp: covers_def\<close>)
    qed
    moreover have "typeset_wf ?r"
    proof -
      have "filter IsNumeric ?r = [c]"
        using c(2) by (simp add: filter_sort)
      moreover have "Null \<notin> set ?r"
        using True nullonly c(2) by (auto simp: IsNumeric_def)
      ultimately show ?thesis using dist c(2) by (auto simp: typeset_wf_def)
    qed
    ultimately show ?thesis using add cov2 by blast
  next
    case False2: False
    have add: "TypeSet_Add ts dt = Some (sort ts2)"
      using False False2 unfolding TypeSet_Add_def Let_def ts2_def [symmetric] by auto
    have "typeset_wf (sort ts2)"
      using dist nullonly False2 by (auto simp: typeset_wf_def filter_sort)
    moreover have "covers (sort ts2) d = covers ts2 d" for d by (simp add: covers_def)
    ultimately show ?thesis using add cov2 by blast
  qed
qed

text \<open>
  Any sequence of additions to the empty set succeeds (no panic), yields a well-formed set and
  covers every type that was ever added.
\<close>

lemma TypeSet_AddAll_spec:
  "typeset_wf ts \<Longrightarrow> \<exists>r. TypeSet_AddAll ts ds = Some r \<and> typeset_wf r
     \<and> (\<forall>d. covers ts d \<or> d \<in> set ds \<longrightarrow> covers r d)"
proof (induction ds arbitrary: ts)
  case Nil
  then show ?case by simp
next
  case (Cons d ds)
  from TypeSet_Add_spec [OF Cons.prems, of d] obtain r where
    r: "TypeSet_Add ts d = Some r" "typeset_wf r"
      "\<forall>x. covers ts x \<longrightarrow> covers r x" "covers r d" by blast
  from Cons.IH [OF r(2)] obtain r' where
    "TypeSet_AddAll r ds = Some r'" "typeset_wf r'"
    "\<forall>x. covers r x \<or> x \<in> set ds \<longrightarrow> covers r' x" by blast
  with r show ?case by auto
qed

subsection \<open>Properties\<close>

text \<open>C39: collapsing a non-empty set of numeric types never panics and returns their least upper bound
  in the widening order: every type widens to it, and it widens to every common target.\<close>

theorem CollapseNumeric_least:
  assumes "types \<noteq> []" and "\<forall>d \<in> set types. IsNumeric d"
  shows "\<exists>r. CollapseNumeric types = Some r \<and> IsNumeric r
    \<and> (\<forall>d \<in> set types. IsAssignableTo d r)
    \<and> (\<forall>u. (\<forall>d \<in> set types. IsAssignableTo d u) \<longrightarrow> IsAssignableTo r u)"
  using assms by (rule collapse_lub)

theorem CollapseNumeric_least_witness:
  "\<exists>r. CollapseNumeric [Long, Double] = Some r \<and> IsAssignableTo Long r \<and> IsAssignableTo Double r
    \<and> IsAssignableTo r UnboundDecimal"
proof -
  have n: "\<forall>d \<in> set [Long, Double]. IsNumeric d" by (simp add: IsNumeric_def)
  have "\<forall>d \<in> set [Long, Double]. IsAssignableTo d UnboundDecimal" by code_simp
  with CollapseNumeric_least [OF _ n] show ?thesis by auto
qed

text \<open>the union of two type sets never panics, is sorted and free of duplicates, holds at most one
  numeric type and NULL only alone, and covers every member of both sets.\<close>

theorem TypeSet_Union_covers:
  "\<exists>r. TypeSet_Union a b = Some r \<and> typeset_wf r \<and> (\<forall>d \<in> set a \<union> set b. covers r d)"
proof -
  obtain r where r: "TypeSet_AddAll NewTypeSet a = Some r" "typeset_wf r" "\<forall>d \<in> set a. covers r d"
    using TypeSet_AddAll_spec [OF typeset_wf_empty, of a] by blast
  obtain u where "TypeSet_AddAll r b = Some u" "typeset_wf u"
    "\<forall>d. covers r d \<or> d \<in> set b \<longrightarrow> covers u d"
    using TypeSet_AddAll_spec [OF r(2), of b] by blast
  with r show ?thesis by (auto simp: TypeSet_Union_def)
qed

theorem TypeSet_Union_covers_witness:
  "\<exists>r. TypeSet_Union [Integer, Null] [String, Double] = Some r \<and> covers r Integer \<and> covers r String"
  using TypeSet_Union_covers [of "[Integer, Null]" "[String, Double]"] by auto

end
