(* ===== verification/Decimals.thy ===== *)
theory Decimals
  imports Spi_Base
begin

text \<open>
  The arbitrary-precision decimal of \<open>decimal.go\<close>: parsing, trailing-zero stripping, exact and
  rounding rescales, the magnitude-first comparison, canonical rendering. The value of a decimal
  is the rational \<open>unscaled * 10^(-scale)\<close>; the lemmas state each operation against it.
  The coefficient is \<open>None\<close> for the zero struct's nil \<open>*big.Int\<close>; the scale is an \<open>int32\<close>.
\<close>

subsection \<open>The representation and its value\<close>

record decimal =
  unscaled :: "int option"
  dscale :: int

definition Unscaled :: "decimal \<Rightarrow> int" where
  "Unscaled d = (case unscaled d of None \<Rightarrow> 0 | Some u \<Rightarrow> u)"

definition mk_decimal :: "int \<Rightarrow> int \<Rightarrow> decimal" where
  "mk_decimal u s = \<lparr>unscaled = Some u, dscale = s\<rparr>"

definition Scale :: "decimal \<Rightarrow> int" where
  "Scale d = dscale d"

definition Sign :: "decimal \<Rightarrow> int" where
  "Sign d = (case unscaled d of None \<Rightarrow> 0 | Some u \<Rightarrow> sgn u)"

definition IsZero :: "decimal \<Rightarrow> bool" where
  "IsZero d \<longleftrightarrow> (case unscaled d of None \<Rightarrow> False | Some u \<Rightarrow> sgn u = 0)"

definition dval :: "decimal \<Rightarrow> rat" where
  "dval d = of_int (Unscaled d) * 10 powi (- dscale d)"

text \<open>What every value of the type satisfies: the scale is an \<open>int32\<close>.\<close>

definition scale_ok :: "decimal \<Rightarrow> bool" where
  "scale_ok d \<longleftrightarrow> in_i32 (dscale d)"

text \<open>
  The comparison's bracket works in \<open>int64\<close> on the coefficient's bit length; it is exact for
  coefficients below \<open>2^(2^31 - 1)\<close>, 256 MiB of digits.
\<close>

definition decimal_ok :: "decimal \<Rightarrow> bool" where
  "decimal_ok d \<longleftrightarrow> scale_ok d \<and> bit_len (nat \<bar>Unscaled d\<bar>) \<le> 2147483647"

lemma mk_decimal_sel [simp]:
  "unscaled (mk_decimal u s) = Some u" "dscale (mk_decimal u s) = s" "Unscaled (mk_decimal u s) = u"
  "Scale (mk_decimal u s) = s" "Sign (mk_decimal u s) = sgn u" "IsZero (mk_decimal u s) = (u = 0)"
  by (simp_all add: mk_decimal_def Unscaled_def Scale_def Sign_def IsZero_def sgn_0_0)

lemma mk_decimal_inject [simp]: "mk_decimal u s = mk_decimal u' s' \<longleftrightarrow> u = u' \<and> s = s'"
  by (simp add: mk_decimal_def)

lemma dval_mk [simp]: "dval (mk_decimal u s) = of_int u * 10 powi (- s)"
  by (simp add: dval_def)

lemma Sign_sgn: "Sign d = sgn (Unscaled d)"
  by (simp add: Sign_def Unscaled_def split: option.splits)

lemma Sign_zero_iff: "unscaled d = None \<or> Sign d = 0 \<longleftrightarrow> Unscaled d = 0"
  by (auto simp: Sign_def Unscaled_def sgn_0_0 split: option.splits)

lemma pow10_pos [simp]: "0 < (10::rat) powi n"
  by simp

lemma pow10_add: "(10::rat) powi (m + n) = 10 powi m * 10 powi n"
  by (simp add: power_int_add)

lemma pow10_nat: "0 \<le> n \<Longrightarrow> (10::rat) powi n = of_int (10 ^ nat n)"
  by (simp add: power_int_def)

lemma pow10_less_iff [simp]: "(10::rat) powi m < 10 powi n \<longleftrightarrow> m < n"
  using power_int_strict_increasing [of m n "10::rat"] power_int_increasing [of n m "10::rat"]
  by (cases "m < n") auto

lemma pow10_le_iff [simp]: "(10::rat) powi m \<le> 10 powi n \<longleftrightarrow> m \<le> n"
  by (metis not_less pow10_less_iff)

lemma dval_zero_iff: "dval d = 0 \<longleftrightarrow> Unscaled d = 0"
  by (simp add: dval_def)

lemma sgn_dval: "sgn (dval d) = of_int (Sign d)"
  by (simp add: dval_def Sign_sgn sgn_mult) (simp add: sgn_if)

text \<open>Two decimals of the same scale compare as their coefficients.\<close>

lemma dval_less_same_scale:
  "dscale d = dscale e \<Longrightarrow> dval d < dval e \<longleftrightarrow> Unscaled d < Unscaled e"
  by (simp add: dval_def)

lemma dval_eq_same_scale:
  "dscale d = dscale e \<Longrightarrow> dval d = dval e \<longleftrightarrow> Unscaled d = Unscaled e"
  by (simp add: dval_def)

subsection \<open>Precision\<close>

definition Precision :: "decimal \<Rightarrow> int" where
  "Precision d = (if unscaled d = None \<or> Sign d = 0 then 1
                  else int (length (dec_str (nat \<bar>Unscaled d\<bar>))))"

definition adj :: "decimal \<Rightarrow> int" where
  "adj d = Precision d - dscale d"

lemma Precision_nz: "Unscaled d \<noteq> 0 \<Longrightarrow> Precision d = int (length (dec_str (nat \<bar>Unscaled d\<bar>)))"
  by (auto simp: Precision_def Sign_sgn Unscaled_def sgn_0_0 split: option.splits)

lemma Precision_pos: "0 < Precision d"
  by (auto simp: Precision_def)

lemma abs_dval: "\<bar>dval d\<bar> = of_int \<bar>Unscaled d\<bar> * 10 powi (- dscale d)"
  by (simp add: dval_def abs_mult)

lemma abs_unscaled_bounds:
  assumes "Unscaled d \<noteq> 0"
  shows "10 powi (Precision d - 1) \<le> (of_int \<bar>Unscaled d\<bar> :: rat)"
    and "(of_int \<bar>Unscaled d\<bar> :: rat) < 10 powi (Precision d)"
proof -
  let ?n = "nat \<bar>Unscaled d\<bar>"
  let ?l = "length (dec_str ?n)"
  have n: "0 < ?n" using assms by simp
  have p: "Precision d = int ?l" using assms by (rule Precision_nz)
  have "Precision d - 1 = int (?l - 1)" using p length_dec_str_pos [of ?n] by linarith
  then have lo: "10 powi (Precision d - 1) = (of_nat (10 ^ (?l - 1)) :: rat)" by simp
  have "(of_nat (10 ^ (?l - 1)) :: rat) \<le> of_nat ?n"
    using dec_str_ge [OF n] by (simp only: of_nat_le_iff)
  then show "10 powi (Precision d - 1) \<le> (of_int \<bar>Unscaled d\<bar> :: rat)" using lo by simp
  have "(of_nat ?n :: rat) < of_nat (10 ^ ?l)" using dec_str_lt by (simp only: of_nat_less_iff)
  then show "(of_int \<bar>Unscaled d\<bar> :: rat) < 10 powi (Precision d)" using p by simp
qed

text \<open>The adjusted exponent pins the magnitude between two consecutive powers of ten.\<close>

lemma abs_dval_bounds:
  assumes "Unscaled d \<noteq> 0"
  shows "10 powi (adj d - 1) \<le> \<bar>dval d\<bar>" and "\<bar>dval d\<bar> < 10 powi (adj d)"
proof -
  have e: "adj d - 1 = (Precision d - 1) + - dscale d" "adj d = Precision d + - dscale d"
    by (simp_all add: adj_def)
  show "10 powi (adj d - 1) \<le> \<bar>dval d\<bar>"
    unfolding abs_dval e(1) pow10_add
    using abs_unscaled_bounds(1) [OF assms] by (rule mult_right_mono) (simp add: less_imp_le)
  show "\<bar>dval d\<bar> < 10 powi (adj d)"
    unfolding abs_dval e(2) pow10_add
    using abs_unscaled_bounds(2) [OF assms] by (rule mult_strict_right_mono) simp
qed

lemma abs_dval_less_of_adj:
  assumes "Unscaled d \<noteq> 0" and "Unscaled e \<noteq> 0" and "adj d < adj e"
  shows "\<bar>dval d\<bar> < \<bar>dval e\<bar>"
proof -
  have "\<bar>dval d\<bar> < 10 powi (adj d)" using assms(1) by (rule abs_dval_bounds)
  also have "\<dots> \<le> 10 powi (adj e - 1)" using assms(3) by simp
  also have "\<dots> \<le> \<bar>dval e\<bar>" using assms(2) by (rule abs_dval_bounds)
  finally show ?thesis .
qed

subsection \<open>Stripping trailing zeros\<close>

text \<open>\<open>big.Int.String\<close> and the count of zero digits at its end.\<close>

definition big_str :: "int \<Rightarrow> string" where
  "big_str u = (if u < 0 then ''-'' else []) @ dec_str (nat \<bar>u\<bar>)"

definition trailing_zeros :: "string \<Rightarrow> nat" where
  "trailing_zeros s = length (takeWhile (\<lambda>c. c = CHR ''0'') (rev s))"

definition StripTrailingZeros :: "decimal \<Rightarrow> decimal" where
  "StripTrailingZeros d =
     (if unscaled d = None \<or> Sign d = 0 then mk_decimal 0 0
      else if odd (Unscaled d) then mk_decimal (Unscaled d) (dscale d)
      else
        (let k0 = int (trailing_zeros (big_str (Unscaled d)));
             headroom = dscale d - min_i32;
             k = (if k0 > headroom then headroom else k0)
         in if k = 0 then mk_decimal (Unscaled d) (dscale d)
            else mk_decimal (Unscaled d sdiv 10 ^ nat k) (i32 (dscale d - i32 k))))"

lemma trailing_zeros_neg [simp]: "trailing_zeros (CHR ''-'' # s) = trailing_zeros s"
  by (auto simp: trailing_zeros_def takeWhile_append takeWhile_eq_all_conv [THEN iffD2])

lemma trailing_zeros_big_str: "trailing_zeros (big_str u) = trailing_zeros (dec_str (nat \<bar>u\<bar>))"
  by (cases "u < 0") (simp_all add: big_str_def)

lemma digit_char_zero: "n < 10 \<Longrightarrow> digit_char n = CHR ''0'' \<longleftrightarrow> n = 0"
proof -
  have "digit_char 0 = CHR ''0''" by code_simp
  then show "n < 10 \<Longrightarrow> digit_char n = CHR ''0'' \<longleftrightarrow> n = 0"
    using digit_char_inj [of n 0] by simp
qed

text \<open>The zero run is exactly the power of ten that divides the number.\<close>

lemma trailing_zeros_dec_str:
  "0 < n \<Longrightarrow> 10 ^ trailing_zeros (dec_str n) dvd n
     \<and> n div 10 ^ trailing_zeros (dec_str n) mod 10 \<noteq> 0"
proof (induction n rule: dec_str.induct)
  case (1 n)
  show ?case
  proof (cases "n < 10")
    case True
    with 1 have "trailing_zeros (dec_str n) = 0"
      by (subst dec_str.simps) (simp add: trailing_zeros_def digit_char_zero)
    with True 1 show ?thesis by simp
  next
    case False
    let ?t = "trailing_zeros (dec_str (n div 10))"
    have step: "trailing_zeros (dec_str n) = (if n mod 10 = 0 then Suc ?t else 0)"
      using False by (subst dec_str.simps) (simp add: trailing_zeros_def digit_char_zero)
    show ?thesis
    proof (cases "n mod 10 = 0")
      case True
      then have n: "n = 10 * (n div 10)" by auto
      from False 1 have IH: "10 ^ ?t dvd n div 10" "n div 10 div 10 ^ ?t mod 10 \<noteq> 0" by simp_all
      from IH(1) n have "10 * 10 ^ ?t dvd n" by (metis mult_dvd_mono dvd_refl)
      with IH(2) True step show ?thesis by (simp add: div_mult2_eq)
    qed (use step in simp)
  qed
qed

lemma sdiv_pos: "0 < f \<Longrightarrow> (u::int) sdiv f = sgn u * (\<bar>u\<bar> div f)"
  by (simp add: signed_divide_int_def)

lemma sdiv_exact: "0 < f \<Longrightarrow> f dvd (u::int) \<Longrightarrow> (u sdiv f) * f = u"
  by (simp add: sdiv_pos mult.assoc sgn_mult_abs)

lemma dval_rescale:
  assumes "u * 10 ^ k = v"
  shows "dval (mk_decimal u (s - int k)) = dval (mk_decimal v s)"
proof -
  have "(10::rat) powi (int k - s) = 10 ^ k * 10 powi (- s)"
    using pow10_add [of "int k" "- s"] by simp
  moreover have "(of_int v :: rat) = of_int u * 10 ^ k" by (simp flip: assms)
  ultimately show ?thesis by simp
qed

lemma i32_diff: "i32 (a - i32 b) = i32 (a - b)"
  by (simp add: i32_def) (metis signed_take_bit_diff signed_take_bit_signed_take_bit min.idem)

text \<open>
  Stripping never changes the value, keeps the scale in range, and leaves a coefficient that
  either ends in a non-zero digit or sits at the \<open>int32\<close> scale floor.
\<close>

definition stripped :: "decimal \<Rightarrow> bool" where
  "stripped d \<longleftrightarrow> unscaled d \<noteq> None \<and> scale_ok d
     \<and> (Unscaled d = 0 \<longrightarrow> dscale d = 0)
     \<and> (Unscaled d \<noteq> 0 \<longrightarrow> Unscaled d mod 10 \<noteq> 0 \<or> dscale d = min_i32)"

lemma StripTrailingZeros_spec:
  assumes ok: "scale_ok d"
  shows "dval (StripTrailingZeros d) = dval d \<and> stripped (StripTrailingZeros d)
     \<and> \<bar>Unscaled (StripTrailingZeros d)\<bar> \<le> \<bar>Unscaled d\<bar>"
proof (cases "unscaled d = None \<or> Sign d = 0")
  case True
  then have "Unscaled d = 0" by (simp add: Sign_zero_iff)
  with True show ?thesis
    by (simp add: StripTrailingZeros_def dval_zero_iff stripped_def scale_ok_def in_i32_iff)
next
  case False
  let ?u = "Unscaled d"
  let ?t = "trailing_zeros (dec_str (nat \<bar>?u\<bar>))"
  from False have u: "?u \<noteq> 0" using Sign_zero_iff by blast
  from False obtain y where y: "unscaled d = Some y" "Sign d \<noteq> 0" by auto
  have t: "10 ^ ?t dvd nat \<bar>?u\<bar>" "nat \<bar>?u\<bar> div 10 ^ ?t mod 10 \<noteq> 0"
    using trailing_zeros_dec_str [of "nat \<bar>?u\<bar>"] u by simp_all
  have tu: "10 ^ ?t dvd ?u"
    using t(1) by (metis dvd_abs_iff int_dvd_int_iff int_nat_eq abs_ge_zero of_nat_numeral of_nat_power)
  show ?thesis
  proof (cases "odd ?u")
    case True
    then have "?u mod 10 \<noteq> 0" by presburger
    with True y ok u show ?thesis
      by (simp add: StripTrailingZeros_def stripped_def scale_ok_def dval_def)
  next
    case even: False
    define k where "k = (if int ?t > dscale d - min_i32 then dscale d - min_i32 else int ?t)"
    have k: "0 \<le> k" "k \<le> int ?t" "in_i32 (dscale d - k)"
      using ok by (auto simp: k_def scale_ok_def in_i32_iff min_i32_def)
    have dv: "10 ^ nat k dvd ?u"
      using tu k(1,2) by (meson dvd_trans le_imp_power_dvd nat_le_iff)
    have strip: "StripTrailingZeros d =
        (if k = 0 then mk_decimal ?u (dscale d) else mk_decimal (?u sdiv 10 ^ nat k) (dscale d - k))"
      unfolding StripTrailingZeros_def Let_def trailing_zeros_big_str k_def [symmetric]
      using y even k(3) i32_id by (simp add: i32_diff)
    have strip': "StripTrailingZeros d = mk_decimal (?u sdiv 10 ^ nat k) (dscale d - k)"
      by (simp add: strip sdiv_pos sgn_mult_abs)
    have ex: "(?u sdiv 10 ^ nat k) * 10 ^ nat k = ?u" using dv by (simp add: sdiv_exact)
    have val: "dval (StripTrailingZeros d) = dval d"
      using dval_rescale [OF ex, of "dscale d"] k(1) by (simp add: strip' dval_def)
    have nz: "?u sdiv 10 ^ nat k \<noteq> 0" using ex u by auto
    have last: "(?u sdiv 10 ^ nat k) mod 10 \<noteq> 0 \<or> dscale d - k = min_i32"
    proof (cases "k = int ?t")
      case True
      have "nat \<bar>?u sdiv 10 ^ nat k\<bar> = nat \<bar>?u\<bar> div 10 ^ ?t"
        using True u
        by (simp add: sdiv_pos abs_mult nat_div_distrib nat_power_eq pos_imp_zdiv_nonneg_iff)
      then have "\<bar>?u sdiv 10 ^ nat k\<bar> mod 10 \<noteq> 0" using t(2) by (metis abs_ge_zero int_nat_eq
        of_nat_eq_0_iff of_nat_mod of_nat_numeral)
      then show ?thesis by presburger
    qed (auto simp: k_def split: if_splits)
    have "\<bar>?u sdiv 10 ^ nat k\<bar> * 1 \<le> \<bar>?u sdiv 10 ^ nat k\<bar> * 10 ^ nat k"
      by (intro mult_left_mono) simp_all
    also have "\<dots> = \<bar>(?u sdiv 10 ^ nat k) * 10 ^ nat k\<bar>" by (simp add: abs_mult)
    finally have "\<bar>?u sdiv 10 ^ nat k\<bar> \<le> \<bar>?u\<bar>" by (simp only: ex mult_1_right)
    with val nz last k(3) show ?thesis by (simp add: strip' stripped_def scale_ok_def)
  qed
qed

subsection \<open>Rescaling\<close>

datatype set_scale_error = PrecisionLoss int int

text \<open>
  \<open>SetScale\<close>: the same scale copies, zero rescales for free, upward multiplies, downward requires
  an exact division and refuses before building the divisor when the gap exceeds the precision.
\<close>

definition SetScale :: "decimal \<Rightarrow> int \<Rightarrow> set_scale_error + decimal" where
  "SetScale d newScale =
     (if dscale d = newScale then Ok (mk_decimal (Unscaled d) newScale)
      else if unscaled d = None \<or> Sign d = 0 then Ok (mk_decimal 0 newScale)
      else
        (let diff = newScale - dscale d in
         if diff > 0 then Ok (mk_decimal (Unscaled d * 10 ^ nat diff) newScale)
         else if - diff > Precision d then Err (PrecisionLoss (dscale d) newScale)
         else
           (let factor = 10 ^ nat (- diff);
                q = Unscaled d sdiv factor;
                r = Unscaled d smod factor
            in if r \<noteq> 0 then Err (PrecisionLoss (dscale d) newScale)
               else Ok (mk_decimal q newScale))))"

lemma nz_cases:
  "Unscaled d \<noteq> 0 \<Longrightarrow> \<exists>y. unscaled d = Some y \<and> y \<noteq> 0 \<and> Unscaled d = y \<and> Sign d \<noteq> 0"
  by (auto simp: Unscaled_def Sign_def sgn_0_0 split: option.splits)

lemma smod_zero_iff: "0 < f \<Longrightarrow> (u::int) smod f = 0 \<longleftrightarrow> f dvd u"
  by (auto simp: signed_modulo_int_def mod_eq_0_iff_dvd sgn_0_0)

lemma pow10_split: "m = int j + n \<Longrightarrow> (10::rat) powi m = 10 ^ j * 10 powi n"
  using pow10_add [of "int j" n] by simp

lemma dval_scaled: "dval d * 10 powi n = of_int (Unscaled d) * 10 powi (n - dscale d)"
  using pow10_add [of "- dscale d" n] by (simp add: dval_def)

text \<open>
  A rescale succeeds exactly when the value is a multiple of the new unit, and then keeps it.
\<close>

lemma SetScale_up:
  assumes "dscale d \<le> n"
  shows "SetScale d n = Ok (mk_decimal (Unscaled d * 10 ^ nat (n - dscale d)) n)"
proof (cases "Unscaled d = 0")
  case True
  then show ?thesis using Sign_zero_iff [of d] by (auto simp: SetScale_def)
next
  case False
  from nz_cases [OF this] assms show ?thesis by (auto simp: SetScale_def Let_def)
qed

lemma SetScale_value: "SetScale d n = Ok e \<Longrightarrow> dval e = dval d \<and> dscale e = n \<and> unscaled e \<noteq> None"
proof -
  assume ok: "SetScale d n = Ok e"
  show ?thesis
  proof (cases "dscale d \<le> n")
    case True
    then have "e = mk_decimal (Unscaled d * 10 ^ nat (n - dscale d)) n"
      using ok by (simp add: SetScale_up)
    moreover have "n = dscale d + int (nat (n - dscale d))" using True by simp
    ultimately show ?thesis
      using pow10_split [of "- dscale d" "nat (n - dscale d)" "- n"] True
      by (simp add: dval_def)
  next
    case False
    show ?thesis
    proof (cases "Unscaled d = 0")
      case True
      then show ?thesis using ok False Sign_zero_iff [of d]
        by (auto simp: SetScale_def dval_def)
    next
      case nz: False
      let ?k = "nat (dscale d - n)"
      from nz_cases [OF nz] ok False
      have r: "Unscaled d smod 10 ^ ?k = 0" and e: "e = mk_decimal (Unscaled d sdiv 10 ^ ?k) n"
        by (auto simp: SetScale_def Let_def split: if_splits)
      from r have "(Unscaled d sdiv 10 ^ ?k) * 10 ^ ?k = Unscaled d"
        by (simp add: smod_zero_iff sdiv_exact)
      from dval_rescale [OF this, of "dscale d"] False show ?thesis
        by (simp add: e dval_def)
    qed
  qed
qed

lemma SetScale_Err_iff:
  "SetScale d n = Err (PrecisionLoss (dscale d) n) \<longleftrightarrow> \<not> is_ok (SetScale d n)"
  by (auto simp: SetScale_def Let_def)

lemma abs_unscaled_lt_pow: "\<bar>Unscaled d\<bar> < 10 ^ nat (Precision d)"
proof (cases "Unscaled d = 0")
  case False
  have "int (nat \<bar>Unscaled d\<bar>) < int (10 ^ length (dec_str (nat \<bar>Unscaled d\<bar>)))"
    using dec_str_lt by (simp only: of_nat_less_iff)
  then show ?thesis using False by (simp add: Precision_nz)
qed simp

lemma SetScale_ok_iff: "is_ok (SetScale d n) \<longleftrightarrow> (\<exists>k. dval d = of_int k * 10 powi (- n))"
proof
  assume "is_ok (SetScale d n)"
  then obtain e where "SetScale d n = Ok e" by (rule is_okE)
  then have "dval d = of_int (Unscaled e) * 10 powi (- n)"
    using SetScale_value by (metis dval_def)
  then show "\<exists>k. dval d = of_int k * 10 powi (- n)" ..
next
  assume "\<exists>k. dval d = of_int k * 10 powi (- n)"
  then obtain k where k: "dval d = of_int k * 10 powi (- n)" ..
  show "is_ok (SetScale d n)"
  proof (cases "dscale d \<le> n \<or> Unscaled d = 0")
    case True
    then show ?thesis using SetScale_up Sign_zero_iff [of d] by (auto simp: SetScale_def)
  next
    case False
    let ?j = "nat (dscale d - n)"
    have "(10::rat) powi (- n) = 10 ^ ?j * 10 powi (- dscale d)"
      using False by (intro pow10_split) simp
    with k have "(of_int (Unscaled d) :: rat) * 10 powi (- dscale d)
        = (of_int k * 10 ^ ?j) * 10 powi (- dscale d)"
      by (simp only: dval_def mult.assoc)
    then have "(of_int (Unscaled d) :: rat) = of_int (k * 10 ^ ?j)" by simp
    then have u: "Unscaled d = k * 10 ^ ?j" by (simp only: of_int_eq_iff)
    have "\<not> dscale d - n > Precision d"
    proof
      assume "dscale d - n > Precision d"
      then have "(10::int) ^ nat (Precision d) \<le> 10 ^ ?j" by (intro power_increasing) auto
      also have "\<dots> \<le> \<bar>Unscaled d\<bar>" using u False by (auto simp: abs_mult)
      finally show False using abs_unscaled_lt_pow [of d] by simp
    qed
    moreover have "Unscaled d smod 10 ^ ?j = 0" by (simp add: u smod_zero_iff)
    ultimately show ?thesis using False nz_cases [of d] by (auto simp: SetScale_def Let_def)
  qed
qed

subsection \<open>Rounding\<close>

datatype rounding_mode = roundCeiling | roundFloor

text \<open>
  \<open>roundToScale_run\<close> is the function with its panic as \<open>None\<close>; the panic is dead
  (\<open>roundToScale_total\<close>), so callers use \<open>roundToScale\<close>.
\<close>

definition roundToScale_run :: "decimal \<Rightarrow> int \<Rightarrow> rounding_mode \<Rightarrow> decimal option" where
  "roundToScale_run d newScale mode =
     (if unscaled d = None then Some (mk_decimal 0 newScale)
      else if newScale \<ge> dscale d then
        (case SetScale d newScale of Inl e \<Rightarrow> None | Inr r \<Rightarrow> Some r)
      else
        (let diff = dscale d - newScale; sign = Sign d in
         if sign = 0 then Some (mk_decimal 0 newScale)
         else if diff > Precision d then
           Some (mk_decimal (if mode = roundCeiling \<and> sign > 0 then 1
                             else if mode = roundFloor \<and> sign < 0 then -1 else 0) newScale)
         else
           (let factor = 10 ^ nat diff;
                q = Unscaled d sdiv factor;
                rem = Unscaled d smod factor
            in Some (mk_decimal
                 (if rem \<noteq> 0 then
                    (case mode of
                       roundCeiling \<Rightarrow> if rem > 0 then q + 1 else q
                     | roundFloor \<Rightarrow> if rem < 0 then q - 1 else q)
                  else q) newScale))))"

definition roundToScale :: "decimal \<Rightarrow> int \<Rightarrow> rounding_mode \<Rightarrow> decimal" where
  "roundToScale d newScale mode = the (roundToScale_run d newScale mode)"

definition round_int :: "rounding_mode \<Rightarrow> rat \<Rightarrow> int" where
  "round_int mode x = (case mode of roundCeiling \<Rightarrow> \<lceil>x\<rceil> | roundFloor \<Rightarrow> \<lfloor>x\<rfloor>)"

lemma round_int_of_int [simp]: "round_int mode (of_int k) = k"
  by (cases mode) (simp_all add: round_int_def)

lemma sdiv_smod_round:
  fixes u f :: int
  assumes f: "0 < f"
  shows "round_int mode (of_int u / of_int f) =
     (if u smod f \<noteq> 0 then
        (case mode of
           roundCeiling \<Rightarrow> if u smod f > 0 then u sdiv f + 1 else u sdiv f
         | roundFloor \<Rightarrow> if u smod f < 0 then u sdiv f - 1 else u sdiv f)
      else u sdiv f)"
proof -
  have nn: "(- u) div f = (if u mod f = 0 then - (u div f) else - (u div f) - 1)"
    using f by (simp add: zdiv_zminus1_eq_if)
  have pp: "u div f = (if (- u) mod f = 0 then - ((- u) div f) else - ((- u) div f) - 1)"
    using f zdiv_zminus1_eq_if [of f "- u"] by simp
  have m: "(- u) mod f = (if u mod f = 0 then 0 else f - u mod f)"
    using f by (simp add: zmod_zminus1_eq_if)
  have b: "0 \<le> u mod f" "u mod f < f" using f by simp_all
  show ?thesis
  proof (cases "0 \<le> u")
    case True
    then have "u sdiv f = u div f" "u smod f = u mod f"
      using f by (simp_all add: signed_divide_int_def signed_modulo_int_def sgn_if)
    then show ?thesis using b nn
      by (cases mode) (simp_all add: round_int_def floor_divide_of_int_eq ceiling_divide_eq_div)
  next
    case False
    then have "u sdiv f = - ((- u) div f)" "u smod f = - ((- u) mod f)"
      using f by (simp_all add: signed_divide_int_def signed_modulo_int_def sgn_if)
    then show ?thesis using b pp m
      by (cases mode) (simp_all add: round_int_def floor_divide_of_int_eq ceiling_divide_eq_div)
  qed
qed

text \<open>The rescaled coefficient is the ceiling or floor of the value in units of the new scale.\<close>

lemma roundToScale_run_spec:
  "roundToScale_run d n mode = Some (mk_decimal (round_int mode (dval d * 10 powi n)) n)"
proof (cases "unscaled d = None \<or> Unscaled d = 0")
  case True
  then have "Unscaled d = 0" by (auto simp: Unscaled_def)
  moreover from this have "dval d * 10 powi n = of_int 0" by (simp add: dval_def)
  ultimately show ?thesis
    using SetScale_up [of d n] Sign_zero_iff [of d]
    by (auto simp: roundToScale_run_def Let_def simp del: of_int_0)
next
  case False
  then obtain y where y: "unscaled d = Some y" "y \<noteq> 0" "Unscaled d = y" "Sign d \<noteq> 0"
    using nz_cases by blast
  show ?thesis
  proof (cases "dscale d \<le> n")
    case True
    then have "dval d * 10 powi n = of_int (Unscaled d * 10 ^ nat (n - dscale d))"
      by (simp add: dval_scaled pow10_nat)
    then show ?thesis using True y SetScale_up [of d n]
      by (simp only: roundToScale_run_def round_int_of_int) simp
  next
    case down: False
    let ?f = "10 ^ nat (dscale d - n) :: int"
    have val: "dval d * 10 powi n = of_int y / of_int ?f"
      using down y power_int_minus [of "10::rat" "dscale d - n"]
      by (simp add: dval_scaled pow10_nat divide_inverse)
    show ?thesis
    proof (cases "dscale d - n > Precision d")
      case True
      have "\<bar>y\<bar> < 10 ^ nat (Precision d)" using abs_unscaled_lt_pow [of d] y by simp
      also have "\<dots> \<le> ?f" using True by (intro power_increasing) auto
      finally have small: "\<bar>y\<bar> < ?f" .
      then have "y sdiv ?f = 0" "y smod ?f = y"
        by (simp_all add: sdiv_pos signed_modulo_int_def sgn_mult_abs)
      then have "round_int mode (of_int y / of_int ?f) =
          (if mode = roundCeiling \<and> Sign d > 0 then 1
           else if mode = roundFloor \<and> Sign d < 0 then -1 else 0)"
        using y by (subst sdiv_smod_round) (cases mode; auto simp: Sign_sgn sgn_if)+
      then show ?thesis using True down y
        by (simp add: roundToScale_run_def Let_def val)
    next
      case False
      then show ?thesis using down y
        by (simp add: roundToScale_run_def Let_def val sdiv_smod_round del: of_int_power)
    qed
  qed
qed

lemma roundToScale_spec:
  "roundToScale d n mode = mk_decimal (round_int mode (dval d * 10 powi n)) n"
  by (simp add: roundToScale_def roundToScale_run_spec)

lemma roundToScale_total: "roundToScale_run d n mode = Some (roundToScale d n mode)"
  by (simp add: roundToScale_def roundToScale_run_spec)

text \<open>
  \<open>roundToPrecision\<close>: round at the scale that leaves \<open>maxPrec\<close> digits; a carry into one digit
  more is renormalised by an exact downward rescale. \<open>None\<close> is the panic of that rescale or
  of the rounding.
\<close>

definition roundToPrecision_run :: "decimal \<Rightarrow> int \<Rightarrow> rounding_mode \<Rightarrow> decimal option" where
  "roundToPrecision_run d maxPrec mode =
     (let p = Precision d in
      if p \<le> maxPrec then Some (mk_decimal (Unscaled d) (dscale d))
      else
        (case roundToScale_run d (i32 (dscale d - i32 (p - maxPrec))) mode of
           None \<Rightarrow> None
         | Some result \<Rightarrow>
             if Precision result > maxPrec then
               (case SetScale result (i32 (dscale result - 1)) of
                  Inl e \<Rightarrow> None
                | Inr renorm \<Rightarrow> Some renorm)
             else Some result))"

definition roundToPrecision :: "decimal \<Rightarrow> int \<Rightarrow> rounding_mode \<Rightarrow> decimal" where
  "roundToPrecision d maxPrec mode = the (roundToPrecision_run d maxPrec mode)"

text \<open>The decimal grid \<open>10^(-n) * \<int>\<close> a value is rounded onto.\<close>

definition on_grid :: "int \<Rightarrow> rat \<Rightarrow> bool" where
  "on_grid n x \<longleftrightarrow> (\<exists>k::int. x = of_int k * 10 powi (- n))"

definition round_grid :: "rounding_mode \<Rightarrow> int \<Rightarrow> rat \<Rightarrow> rat" where
  "round_grid mode n x = of_int (round_int mode (x * 10 powi n)) * 10 powi (- n)"

lemma pow10_cancel: "x * 10 powi (- n) * 10 powi n = (x::rat)"
  "x * 10 powi n * 10 powi (- n) = (x::rat)"
  by (simp_all add: mult.assoc flip: power_int_add)

lemma on_grid_dval: "dscale d \<le> n \<Longrightarrow> on_grid n (dval d)"
  using SetScale_ok_iff [of d n] SetScale_up [of d n] by (simp add: on_grid_def)

lemma on_grid_round_grid: "on_grid n (round_grid mode n x)"
  by (auto simp: on_grid_def round_grid_def)

lemma round_grid_id: "on_grid n x \<Longrightarrow> round_grid mode n x = x"
  by (auto simp: on_grid_def round_grid_def pow10_cancel)

lemma round_grid_ceiling_ge: "x \<le> round_grid roundCeiling n x"
proof -
  have "x * 10 powi n * 10 powi (- n) \<le> of_int \<lceil>x * 10 powi n\<rceil> * 10 powi (- n)"
    by (rule mult_right_mono) (simp_all add: less_imp_le)
  then show ?thesis by (simp only: pow10_cancel round_grid_def round_int_def rounding_mode.case)
qed

lemma round_grid_floor_le: "round_grid roundFloor n x \<le> x"
proof -
  have "of_int \<lfloor>x * 10 powi n\<rfloor> * 10 powi (- n) \<le> x * 10 powi n * 10 powi (- n)"
    by (rule mult_right_mono) (simp_all add: less_imp_le)
  then show ?thesis by (simp only: pow10_cancel round_grid_def round_int_def rounding_mode.case)
qed

text \<open>
  Rounding onto a grid is adjoint to the comparison with the grid's own points: this is what
  lets a search operand be rounded without changing which stored values it selects.
\<close>

lemma grid_le_ceiling: "on_grid n v \<Longrightarrow> x \<le> v \<longleftrightarrow> round_grid roundCeiling n x \<le> v"
proof
  assume v: "on_grid n v" "x \<le> v"
  then obtain k where k: "v = of_int k * 10 powi (- n)" by (auto simp: on_grid_def)
  have "x * 10 powi n \<le> v * 10 powi n" using v(2) by (rule mult_right_mono) (simp add: less_imp_le)
  then have "\<lceil>x * 10 powi n\<rceil> \<le> k" by (simp add: k pow10_cancel ceiling_le_iff)
  then have "(of_int \<lceil>x * 10 powi n\<rceil> :: rat) * 10 powi (- n) \<le> of_int k * 10 powi (- n)"
    by (intro mult_right_mono) (simp_all add: less_imp_le)
  then show "round_grid roundCeiling n x \<le> v" by (simp add: k round_grid_def round_int_def)
qed (use round_grid_ceiling_ge order_trans in blast)

lemma grid_floor_le: "on_grid n v \<Longrightarrow> v \<le> x \<longleftrightarrow> v \<le> round_grid roundFloor n x"
proof
  assume v: "on_grid n v" "v \<le> x"
  then obtain k where k: "v = of_int k * 10 powi (- n)" by (auto simp: on_grid_def)
  have "v * 10 powi n \<le> x * 10 powi n" using v(2) by (rule mult_right_mono) (simp add: less_imp_le)
  then have "k \<le> \<lfloor>x * 10 powi n\<rfloor>" by (simp add: k pow10_cancel le_floor_iff)
  then have "(of_int k :: rat) * 10 powi (- n) \<le> of_int \<lfloor>x * 10 powi n\<rfloor> * 10 powi (- n)"
    by (intro mult_right_mono) (simp_all add: less_imp_le)
  then show "v \<le> round_grid roundFloor n x" by (simp add: k round_grid_def round_int_def)
qed (use round_grid_floor_le order_trans in blast)

lemma dval_roundToScale: "dval (roundToScale d n mode) = round_grid mode n (dval d)"
  by (simp add: roundToScale_spec round_grid_def)

text \<open>Rounding never passes a power of ten that bounds the value.\<close>

lemma on_grid_pow10: "- n \<le> m \<Longrightarrow> on_grid n (10 powi m)"
  unfolding on_grid_def
  by (rule exI [of _ "10 ^ nat (m + n)"])
    (use pow10_split [of m "nat (m + n)" "- n"] in simp)

lemma on_grid_minus: "on_grid n (- x) = on_grid n x"
proof -
  have "on_grid n (- y)" if "on_grid n y" for y
    using that unfolding on_grid_def by (metis mult_minus_left of_int_minus)
  from this [of x] this [of "- x"] show ?thesis by auto
qed

lemma round_grid_abs_le:
  assumes g: "on_grid n b" and b: "\<bar>x\<bar> \<le> b"
  shows "\<bar>round_grid mode n x\<bar> \<le> b"
proof -
  have "x \<le> b" "- b \<le> x" using b by simp_all
  have "on_grid n (- b)" using g by (simp add: on_grid_minus)
  from grid_floor_le [OF this, THEN iffD1, OF \<open>- b \<le> x\<close>]
    grid_le_ceiling [OF g, THEN iffD1, OF \<open>x \<le> b\<close>]
  have "- b \<le> round_grid roundFloor n x" "round_grid roundCeiling n x \<le> b" by - (assumption+)
  moreover have "- b \<le> round_grid roundCeiling n x" "round_grid roundFloor n x \<le> b"
    using round_grid_ceiling_ge [of x n] round_grid_floor_le [of n x] \<open>x \<le> b\<close> \<open>- b \<le> x\<close> by simp_all
  ultimately show ?thesis by (cases mode) (simp_all add: abs_le_iff)
qed

text \<open>
  Rounding to a precision keeps at most \<open>maxPrec\<close> digits and is rounding onto the grid
  \<open>maxPrec\<close> digits below the leading one; the carry is renormalised exactly.
\<close>

lemma roundToPrecision_run_spec:
  assumes m: "0 < maxPrec" and p: "maxPrec < Precision d"
    and ok: "in_i32 (dscale d)" "in_i32 (dscale d - (Precision d - maxPrec) - 1)"
  shows "\<exists>r. roundToPrecision_run d maxPrec mode = Some r \<and> Precision r \<le> maxPrec
    \<and> dval r = round_grid mode (maxPrec - adj d) (dval d)
    \<and> maxPrec - adj d - 1 \<le> dscale r \<and> dscale r \<le> maxPrec - adj d"
proof -
  let ?n = "maxPrec - adj d"
  let ?r = "roundToScale d ?n mode"
  have n: "dscale d - (Precision d - maxPrec) = ?n" by (simp add: adj_def)
  have i1: "i32 (dscale d - i32 (Precision d - maxPrec)) = ?n"
    unfolding i32_diff n by (rule i32_id) (use ok n p in \<open>simp add: in_i32_iff\<close>)
  have nz: "Unscaled d \<noteq> 0" using m p Sign_zero_iff [of d] by (auto simp: Precision_def split: if_splits)
  have val: "dval ?r = round_grid mode ?n (dval d)" by (rule dval_roundToScale)
  have sc: "dscale ?r = ?n" by (simp add: roundToScale_spec)
  have "on_grid ?n (10 powi (adj d))" using m by (intro on_grid_pow10) simp
  moreover have "\<bar>dval d\<bar> \<le> 10 powi (adj d)" using abs_dval_bounds(2) [OF nz] by simp
  ultimately have "\<bar>dval ?r\<bar> \<le> 10 powi (adj d)" unfolding val by (rule round_grid_abs_le)
  then have "\<bar>of_int (Unscaled ?r) * 10 powi (- ?n)\<bar> * 10 powi ?n \<le> (10::rat) powi (adj d) * 10 powi ?n"
    by (intro mult_right_mono) (simp_all add: dval_def sc less_imp_le)
  then have "(of_int \<bar>Unscaled ?r\<bar> :: rat) \<le> 10 powi maxPrec"
    by (simp add: abs_mult mult.assoc flip: power_int_add)
  then have "(of_int \<bar>Unscaled ?r\<bar> :: rat) \<le> of_int (10 ^ nat maxPrec)" using m by (simp add: pow10_nat)
  then have le: "\<bar>Unscaled ?r\<bar> \<le> 10 ^ nat maxPrec" by (simp only: of_int_le_iff)
  have run: "roundToScale_run d ?n mode = Some ?r" by (rule roundToScale_total)
  show ?thesis
  proof (cases "Precision ?r > maxPrec")
    case False
    then show ?thesis using run p i1 val sc
      by (simp add: roundToPrecision_run_def Let_def)
  next
    case True
    have nzr: "Unscaled ?r \<noteq> 0" using True m Sign_zero_iff [of ?r] by (auto simp: Precision_def split: if_splits)
    have "10 powi (Precision ?r - 1) \<le> (of_int \<bar>Unscaled ?r\<bar> :: rat)" using abs_unscaled_bounds(1) [OF nzr] .
    moreover have "(10::rat) powi maxPrec \<le> 10 powi (Precision ?r - 1)" using True by simp
    ultimately have "10 powi maxPrec \<le> (of_int \<bar>Unscaled ?r\<bar> :: rat)" by linarith
    then have "(of_int (10 ^ nat maxPrec) :: rat) \<le> of_int \<bar>Unscaled ?r\<bar>" using m by (simp add: pow10_nat)
    then have abs: "\<bar>Unscaled ?r\<bar> = 10 ^ nat maxPrec" using le by (simp only: of_int_le_iff)
    let ?e = "mk_decimal (sgn (Unscaled ?r) * 10 ^ nat (maxPrec - 1)) (?n - 1)"
    have "nat maxPrec = Suc (nat (maxPrec - 1))" using m by simp
    then have u: "Unscaled ?r = sgn (Unscaled ?r) * 10 ^ nat (maxPrec - 1) * 10 ^ 1"
      using abs by (metis mult.assoc mult_sgn_abs power_Suc2 power_one_right)
    have ve: "dval ?e = dval ?r"
      using dval_rescale [OF u [symmetric], of ?n] sc by (simp add: dval_def)
    have n1: "i32 (?n - 1) = ?n - 1" using ok(2) n by (intro i32_id) simp
    have "on_grid (?n - 1) (dval ?r)"
      using ve on_grid_dval [of ?e "?n - 1"] by simp
    then have "is_ok (SetScale ?r (?n - 1))" by (simp add: SetScale_ok_iff on_grid_def)
    then obtain e where e: "SetScale ?r (?n - 1) = Ok e" by (rule is_okE)
    note ev = SetScale_value [OF e]
    have "Unscaled e = Unscaled ?e" using ev ve dval_eq_same_scale [of e ?e] by simp
    then have ue: "Unscaled e = sgn (Unscaled ?r) * 10 ^ nat (maxPrec - 1)" by simp
    have "length (dec_str (10 ^ nat (maxPrec - 1))) = Suc (nat (maxPrec - 1))"
      by (rule length_dec_str_eqI) simp_all
    moreover have "nat \<bar>Unscaled e\<bar> = 10 ^ nat (maxPrec - 1)"
      using nzr by (simp add: ue abs_mult nat_power_eq)
    moreover have "Unscaled e \<noteq> 0" using nzr by (simp add: ue sgn_0_0)
    ultimately have "Precision e = maxPrec" using m by (simp add: Precision_nz nat_power_eq)
    then show ?thesis using run p i1 True sc n1 e ev val
      by (simp add: roundToPrecision_run_def Let_def)
  qed
qed

lemma roundToPrecision_small:
  "Precision d \<le> maxPrec \<Longrightarrow> roundToPrecision_run d maxPrec mode = Some (mk_decimal (Unscaled d) (dscale d))"
  by (simp add: roundToPrecision_run_def)

subsection \<open>Comparison\<close>

text \<open>
  \<open>digitCountBounds\<close> brackets the digit count of a coefficient from its bit length with the
  dyadic bounds \<open>log10Of2Lo / 2^32 < log10 2 < log10Of2Hi / 2^32\<close>, in \<open>int64\<close>.
\<close>

definition log10Of2Lo :: int where "log10Of2Lo = 1292913986"
definition log10Of2Hi :: int where "log10Of2Hi = 1292913987"

definition digitCountBounds :: "int \<Rightarrow> int \<times> int" where
  "digitCountBounds bitLen =
     (if bitLen \<le> 0 then (1, 1)
      else (drop_bit 32 (i64 ((bitLen - 1) * log10Of2Lo)) + 1,
            drop_bit 32 (i64 (bitLen * log10Of2Hi)) + 1))"

text \<open>
  The two bounds on \<open>log10 2\<close> as powers: \<open>10^log10Of2Lo \<le> 2^(2^32) \<le> 10^log10Of2Hi\<close>, by
  repeated squaring of a twenty-digit bracket of \<open>2^n\<close>.
\<close>

lemma bracket_square_lo:
  fixes a b e k n :: nat
  assumes "a * 10 ^ e \<le> 2 ^ n" and "b * 10 ^ k \<le> a * a" and "n' = 2 * n" and "e' = k + 2 * e"
  shows "b * 10 ^ e' \<le> 2 ^ n'"
proof -
  have "b * 10 ^ e' = b * 10 ^ k * (10 ^ e * 10 ^ e)"
    by (simp add: assms(4) power_add mult_2 mult.assoc)
  also have "\<dots> \<le> a * a * (10 ^ e * 10 ^ e)" using assms(2) by (rule mult_right_mono) simp
  also have "\<dots> = (a * 10 ^ e) * (a * 10 ^ e)" by (simp add: ac_simps)
  also have "\<dots> \<le> 2 ^ n * 2 ^ n" using assms(1) by (rule mult_mono) (use assms(1) in simp_all)
  finally show ?thesis by (simp add: assms(3) mult_2 power_add)
qed

lemma bracket_square_hi:
  fixes a b e k n :: nat
  assumes "2 ^ n \<le> a * 10 ^ e" and "a * a \<le> b * 10 ^ k" and "n' = 2 * n" and "e' = k + 2 * e"
  shows "2 ^ n' \<le> b * 10 ^ e'"
proof -
  have "2 ^ n' = 2 ^ n * (2 ^ n :: nat)" by (simp add: assms(3) mult_2 power_add)
  also have "\<dots> \<le> (a * 10 ^ e) * (a * 10 ^ e)" using assms(1) by (rule mult_mono) (use assms(1) in simp_all)
  also have "\<dots> = a * a * (10 ^ e * 10 ^ e)" by (simp add: ac_simps)
  also have "\<dots> \<le> b * 10 ^ k * (10 ^ e * 10 ^ e)" using assms(2) by (rule mult_right_mono) simp
  also have "\<dots> = b * 10 ^ e'" by (simp add: assms(4) power_add mult_2 mult.assoc)
  finally show ?thesis .
qed

lemma pow2_lo_32:
  "31032805438597126366 * (10::nat) ^ 1292913967 \<le> 2 ^ 4294967296"
proof -
  have h0: "4294967296 * (10::nat) ^ 0 \<le> 2 ^ 32" by simp
  have h1: "18446744073709551616 * (10::nat) ^ 0 \<le> 2 ^ 64"
    by (rule bracket_square_lo [OF h0, where k = 0]) simp_all
  have h2: "34028236692093846346 * (10::nat) ^ 19 \<le> 2 ^ 128"
    by (rule bracket_square_lo [OF h1, where k = 19]) simp_all
  have h3: "11579208923731619542 * (10::nat) ^ 58 \<le> 2 ^ 256"
    by (rule bracket_square_lo [OF h2, where k = 20]) simp_all
  have h4: "13407807929942597098 * (10::nat) ^ 135 \<le> 2 ^ 512"
    by (rule bracket_square_lo [OF h3, where k = 19]) simp_all
  have h5: "17976931348623159073 * (10::nat) ^ 289 \<le> 2 ^ 1024"
    by (rule bracket_square_lo [OF h4, where k = 19]) simp_all
  have h6: "32317006071311007285 * (10::nat) ^ 597 \<le> 2 ^ 2048"
    by (rule bracket_square_lo [OF h5, where k = 19]) simp_all
  have h7: "10443888814131525056 * (10::nat) ^ 1214 \<le> 2 ^ 4096"
    by (rule bracket_square_lo [OF h6, where k = 20]) simp_all
  have h8: "10907481356194159271 * (10::nat) ^ 2447 \<le> 2 ^ 8192"
    by (rule bracket_square_lo [OF h7, where k = 19]) simp_all
  have h9: "11897314953572317599 * (10::nat) ^ 4913 \<le> 2 ^ 16384"
    by (rule bracket_square_lo [OF h8, where k = 19]) simp_all
  have h10: "14154610310449547766 * (10::nat) ^ 9845 \<le> 2 ^ 32768"
    by (rule bracket_square_lo [OF h9, where k = 19]) simp_all
  have h11: "20035299304068464298 * (10::nat) ^ 19709 \<le> 2 ^ 65536"
    by (rule bracket_square_lo [OF h10, where k = 19]) simp_all
  have h12: "40141321820360628982 * (10::nat) ^ 39437 \<le> 2 ^ 131072"
    by (rule bracket_square_lo [OF h11, where k = 19]) simp_all
  have h13: "16113257174857603604 * (10::nat) ^ 78894 \<le> 2 ^ 262144"
    by (rule bracket_square_lo [OF h12, where k = 20]) simp_all
  have h14: "25963705678310004112 * (10::nat) ^ 157807 \<le> 2 ^ 524288"
    by (rule bracket_square_lo [OF h13, where k = 19]) simp_all
  have h15: "67411401254990715072 * (10::nat) ^ 315633 \<le> 2 ^ 1048576"
    by (rule bracket_square_lo [OF h14, where k = 19]) simp_all
  have h16: "45442970191613637550 * (10::nat) ^ 631286 \<le> 2 ^ 2097152"
    by (rule bracket_square_lo [OF h15, where k = 20]) simp_all
  have h17: "20650635398358856022 * (10::nat) ^ 1262592 \<le> 2 ^ 4194304"
    by (rule bracket_square_lo [OF h16, where k = 20]) simp_all
  have h18: "42644874235595182814 * (10::nat) ^ 2525203 \<le> 2 ^ 8388608"
    by (rule bracket_square_lo [OF h17, where k = 19]) simp_all
  have h19: "18185852985697298277 * (10::nat) ^ 5050426 \<le> 2 ^ 16777216"
    by (rule bracket_square_lo [OF h18, where k = 20]) simp_all
  have h20: "33072524881739533812 * (10::nat) ^ 10100871 \<le> 2 ^ 33554432"
    by (rule bracket_square_lo [OF h19, where k = 19]) simp_all
  have h21: "10937919020532805649 * (10::nat) ^ 20201762 \<le> 2 ^ 67108864"
    by (rule bracket_square_lo [OF h20, where k = 20]) simp_all
  have h22: "11963807249973333048 * (10::nat) ^ 40403543 \<le> 2 ^ 134217728"
    by (rule bracket_square_lo [OF h21, where k = 19]) simp_all
  have h23: "14313268391451448595 * (10::nat) ^ 80807105 \<le> 2 ^ 268435456"
    by (rule bracket_square_lo [OF h22, where k = 19]) simp_all
  have h24: "20486965204572313869 * (10::nat) ^ 161614229 \<le> 2 ^ 536870912"
    by (rule bracket_square_lo [OF h23, where k = 19]) simp_all
  have h25: "41971574329335671025 * (10::nat) ^ 323228477 \<le> 2 ^ 1073741824"
    by (rule bracket_square_lo [OF h24, where k = 19]) simp_all
  have h26: "17616130516829490829 * (10::nat) ^ 646456974 \<le> 2 ^ 2147483648"
    by (rule bracket_square_lo [OF h25, where k = 20]) simp_all
  have h27: "31032805438597126366 * (10::nat) ^ 1292913967 \<le> 2 ^ 4294967296"
    by (rule bracket_square_lo [OF h26, where k = 19]) simp_all
  show ?thesis by (rule h27)
qed

lemma pow2_hi_32:
  "(2::nat) ^ 4294967296 \<le> 31032805438684392439 * 10 ^ 1292913967"
proof -
  have h0: "(2::nat) ^ 32 \<le> 4294967296 * 10 ^ 0" by simp
  have h1: "(2::nat) ^ 64 \<le> 18446744073709551616 * 10 ^ 0"
    by (rule bracket_square_hi [OF h0, where k = 0]) simp_all
  have h2: "(2::nat) ^ 128 \<le> 34028236692093846347 * 10 ^ 19"
    by (rule bracket_square_hi [OF h1, where k = 19]) simp_all
  have h3: "(2::nat) ^ 256 \<le> 11579208923731619543 * 10 ^ 58"
    by (rule bracket_square_hi [OF h2, where k = 20]) simp_all
  have h4: "(2::nat) ^ 512 \<le> 13407807929942597102 * 10 ^ 135"
    by (rule bracket_square_hi [OF h3, where k = 19]) simp_all
  have h5: "(2::nat) ^ 1024 \<le> 17976931348623159084 * 10 ^ 289"
    by (rule bracket_square_hi [OF h4, where k = 19]) simp_all
  have h6: "(2::nat) ^ 2048 \<le> 32317006071311007325 * 10 ^ 597"
    by (rule bracket_square_hi [OF h5, where k = 19]) simp_all
  have h7: "(2::nat) ^ 4096 \<le> 10443888814131525083 * 10 ^ 1214"
    by (rule bracket_square_hi [OF h6, where k = 20]) simp_all
  have h8: "(2::nat) ^ 8192 \<le> 10907481356194159329 * 10 ^ 2447"
    by (rule bracket_square_hi [OF h7, where k = 19]) simp_all
  have h9: "(2::nat) ^ 16384 \<le> 11897314953572317726 * 10 ^ 4913"
    by (rule bracket_square_hi [OF h8, where k = 19]) simp_all
  have h10: "(2::nat) ^ 32768 \<le> 14154610310449548069 * 10 ^ 9845"
    by (rule bracket_square_hi [OF h9, where k = 19]) simp_all
  have h11: "(2::nat) ^ 65536 \<le> 20035299304068465157 * 10 ^ 19709"
    by (rule bracket_square_hi [OF h10, where k = 19]) simp_all
  have h12: "(2::nat) ^ 131072 \<le> 40141321820360632425 * 10 ^ 39437"
    by (rule bracket_square_hi [OF h11, where k = 19]) simp_all
  have h13: "(2::nat) ^ 262144 \<le> 16113257174857606369 * 10 ^ 78894"
    by (rule bracket_square_hi [OF h12, where k = 20]) simp_all
  have h14: "(2::nat) ^ 524288 \<le> 25963705678310013024 * 10 ^ 157807"
    by (rule bracket_square_hi [OF h13, where k = 19]) simp_all
  have h15: "(2::nat) ^ 1048576 \<le> 67411401254990761351 * 10 ^ 315633"
    by (rule bracket_square_hi [OF h14, where k = 19]) simp_all
  have h16: "(2::nat) ^ 2097152 \<le> 45442970191613699945 * 10 ^ 631286"
    by (rule bracket_square_hi [OF h15, where k = 20]) simp_all
  have h17: "(2::nat) ^ 4194304 \<le> 20650635398358912731 * 10 ^ 1262592"
    by (rule bracket_square_hi [OF h16, where k = 20]) simp_all
  have h18: "(2::nat) ^ 8388608 \<le> 42644874235595417030 * 10 ^ 2525203"
    by (rule bracket_square_hi [OF h17, where k = 19]) simp_all
  have h19: "(2::nat) ^ 16777216 \<le> 18185852985697498040 * 10 ^ 5050426"
    by (rule bracket_square_hi [OF h18, where k = 20]) simp_all
  have h20: "(2::nat) ^ 33554432 \<le> 33072524881740260386 * 10 ^ 10100871"
    by (rule bracket_square_hi [OF h19, where k = 19]) simp_all
  have h21: "(2::nat) ^ 67108864 \<le> 10937919020533286243 * 10 ^ 20201762"
    by (rule bracket_square_hi [OF h20, where k = 20]) simp_all
  have h22: "(2::nat) ^ 134217728 \<le> 11963807249974384389 * 10 ^ 40403543"
    by (rule bracket_square_hi [OF h21, where k = 19]) simp_all
  have h23: "(2::nat) ^ 268435456 \<le> 14313268391453964204 * 10 ^ 80807105"
    by (rule bracket_square_hi [OF h22, where k = 19]) simp_all
  have h24: "(2::nat) ^ 536870912 \<le> 20486965204579515187 * 10 ^ 161614229"
    by (rule bracket_square_hi [OF h23, where k = 19]) simp_all
  have h25: "(2::nat) ^ 1073741824 \<le> 41971574329365177656 * 10 ^ 323228477"
    by (rule bracket_square_hi [OF h24, where k = 19]) simp_all
  have h26: "(2::nat) ^ 2147483648 \<le> 17616130516854259626 * 10 ^ 646456974"
    by (rule bracket_square_hi [OF h25, where k = 20]) simp_all
  have h27: "(2::nat) ^ 4294967296 \<le> 31032805438684392439 * 10 ^ 1292913967"
    by (rule bracket_square_hi [OF h26, where k = 19]) simp_all
  show ?thesis by (rule h27)
qed

lemma log2_lo: "(10::nat) ^ 1292913986 \<le> 2 ^ 4294967296"
proof -
  have "(10::nat) ^ 1292913986 = 10 ^ (19 + 1292913967)" by (rule arg_cong [of _ _ "power 10"]) simp
  also have "\<dots> = 10 ^ 19 * 10 ^ 1292913967" by (rule power_add)
  also have "\<dots> \<le> 31032805438597126366 * 10 ^ 1292913967" by (rule mult_le_mono1) simp
  also have "\<dots> \<le> 2 ^ 4294967296" by (rule pow2_lo_32)
  finally show ?thesis .
qed

lemma log2_hi: "(2::nat) ^ 4294967296 \<le> 10 ^ 1292913987"
proof -
  have "(2::nat) ^ 4294967296 \<le> 31032805438684392439 * 10 ^ 1292913967" by (rule pow2_hi_32)
  also have "\<dots> \<le> 10 ^ 20 * 10 ^ 1292913967" by (rule mult_le_mono1) simp
  also have "\<dots> = 10 ^ (20 + 1292913967)" by (rule power_add [symmetric])
  also have "\<dots> = 10 ^ 1292913987" by (rule arg_cong [of _ _ "power 10"]) simp
  finally show ?thesis .
qed

lemma digits_upper:
  fixes v b D N H :: nat
  assumes log: "2 ^ N \<le> (10::nat) ^ H" and v: "v < 2 ^ b" and D: "10 ^ D \<le> v"
  shows "D * N \<le> b * H"
proof -
  have "(10::nat) ^ (D * N) = (10 ^ D) ^ N" by (rule power_mult)
  also have "\<dots> \<le> (2 ^ b) ^ N" using D v by (intro power_mono) simp_all
  also have "\<dots> = (2 ^ N) ^ b" by (simp only: power_mult [symmetric] mult.commute)
  also have "\<dots> \<le> (10 ^ H) ^ b" by (rule power_mono [OF log zero_le])
  also have "\<dots> = 10 ^ (b * H)" by (simp only: power_mult [symmetric] mult.commute)
  finally show ?thesis by (rule power_le_imp_le_exp [rotated]) simp
qed

lemma digits_lower:
  fixes v b D N L :: nat
  assumes log: "10 ^ L \<le> (2::nat) ^ N" and "0 < N" and "2 ^ b \<le> v" and "v < 10 ^ D"
  shows "b * L < D * N"
proof -
  have "(10::nat) ^ (b * L) = (10 ^ L) ^ b" by (simp only: power_mult [symmetric] mult.commute)
  also have "\<dots> \<le> (2 ^ N) ^ b" by (rule power_mono [OF log zero_le])
  also have "\<dots> = (2 ^ b) ^ N" by (simp only: power_mult [symmetric] mult.commute)
  also have "\<dots> < (10 ^ D) ^ N" using assms(2,3,4) by (intro power_strict_mono) auto
  also have "\<dots> = 10 ^ (D * N)" by (rule power_mult [symmetric])
  finally show ?thesis by (rule power_less_imp_less_exp [rotated]) simp
qed

text \<open>The bracket holds the digit count, and is at most one wide.\<close>

lemma digitCountBounds_bracket:
  assumes nz: "0 < n" and small: "bit_len n \<le> 2147483647"
  defines "B \<equiv> digitCountBounds (int (bit_len n))"
  shows "fst B \<le> int (length (dec_str n))" and "int (length (dec_str n)) \<le> snd B"
    and "snd B - fst B \<le> 1"
proof -
  let ?b = "bit_len n"
  let ?D = "length (dec_str n)"
  have b: "0 < ?b" using bit_len_pos [OF nz] .
  have w: "i64 ((int ?b - 1) * 1292913986) = (int ?b - 1) * 1292913986"
    "i64 (int ?b * 1292913987) = int ?b * 1292913987"
    using small b by (auto intro!: i64_id)
  have B: "B = ((int ?b - 1) * 1292913986 div 4294967296 + 1, int ?b * 1292913987 div 4294967296 + 1)"
    using b w by (simp add: B_def digitCountBounds_def log10Of2Lo_def log10Of2Hi_def drop_bit_eq_div)
  have "(?b - 1) * 1292913986 < ?D * 4294967296"
    using digits_lower [OF log2_lo _ bit_len_ge [OF nz] dec_str_lt] by simp
  then have "int ((?b - 1) * 1292913986) < int (?D * 4294967296)" by (simp only: of_nat_less_iff)
  then have "(int ?b - 1) * 1292913986 < int ?D * 4294967296" using b by (simp add: of_nat_diff)
  then show "fst B \<le> int ?D" by (simp add: B)
  have "(?D - 1) * 4294967296 \<le> ?b * 1292913987"
    using digits_upper [OF log2_hi bit_len_lt dec_str_ge [OF nz]] .
  then have "int ((?D - 1) * 4294967296) \<le> int (?b * 1292913987)" by (simp only: of_nat_le_iff)
  moreover have "1 \<le> ?D" using length_dec_str_pos [of n] by linarith
  ultimately have "(int ?D - 1) * 4294967296 \<le> int ?b * 1292913987" by (simp add: of_nat_diff)
  then show "int ?D \<le> snd B" by (simp add: B)
  show "snd B - fst B \<le> 1" using small by (simp add: B)
qed

text \<open>
  \<open>Cmp\<close>: sign, then equal scales, then the bit-length bracket of the adjusted exponents, then
  the exact digit counts, then the aligned coefficients. \<open>None\<close> is the panic of the alignment.
\<close>

definition Cmp_run :: "decimal \<Rightarrow> decimal \<Rightarrow> int option" where
  "Cmp_run d other =
     (let ds = Sign d; os = Sign other in
      if ds \<noteq> os then Some (if ds < os then -1 else 1)
      else if ds = 0 then Some 0
      else if dscale d = dscale other then Some (cmp3 (Unscaled d) (Unscaled other))
      else
        (let (dLo, dHi) = digitCountBounds (int (bit_len (nat \<bar>Unscaled d\<bar>)));
             (oLo, oHi) = digitCountBounds (int (bit_len (nat \<bar>Unscaled other\<bar>)))
         in if dLo - dscale d > oHi - dscale other then Some ds
            else if dHi - dscale d < oLo - dscale other then Some (- ds)
            else
              (let dAdj = Precision d - dscale d; oAdj = Precision other - dscale other in
               if dAdj > oAdj then Some ds
               else if dAdj < oAdj then Some (- ds)
               else
                 (let target = (if dscale other > dscale d then dscale other else dscale d) in
                  case SetScale d target of
                    Inl e \<Rightarrow> None
                  | Inr dAligned \<Rightarrow>
                      (case SetScale other target of
                         Inl e \<Rightarrow> None
                       | Inr oAligned \<Rightarrow> Some (cmp3 (Unscaled dAligned) (Unscaled oAligned)))))))"

definition Cmp :: "decimal \<Rightarrow> decimal \<Rightarrow> int" where
  "Cmp d other = the (Cmp_run d other)"

lemma cmp3_sgn_diff:
  "sgn (a::rat) = sgn b \<Longrightarrow> a \<noteq> 0 \<Longrightarrow> \<bar>b\<bar> < \<bar>a\<bar> \<Longrightarrow> of_int (cmp3 a b) = sgn a"
  "sgn (a::rat) = sgn b \<Longrightarrow> a \<noteq> 0 \<Longrightarrow> \<bar>a\<bar> < \<bar>b\<bar> \<Longrightarrow> of_int (cmp3 a b) = - sgn a"
  by (auto simp: cmp3_def sgn_if split: if_splits)

lemma Cmp_by_adj:
  assumes s: "Sign d = Sign e" "Sign d \<noteq> 0"
  shows "adj e < adj d \<Longrightarrow> Sign d = cmp3 (dval d) (dval e)"
    and "adj d < adj e \<Longrightarrow> - Sign d = cmp3 (dval d) (dval e)"
proof -
  have nz: "Unscaled d \<noteq> 0" "Unscaled e \<noteq> 0" using s by (auto simp: Sign_sgn)
  have sg: "sgn (dval d) = sgn (dval e)" "dval d \<noteq> 0"
    using s nz by (simp_all add: sgn_dval dval_zero_iff)
  show "Sign d = cmp3 (dval d) (dval e)" if "adj e < adj d"
    using cmp3_sgn_diff(1) [OF sg abs_dval_less_of_adj [OF nz(2,1) that]]
    by (simp add: sgn_dval)
  have "of_int (cmp3 (dval d) (dval e)) = (of_int (- Sign d) :: rat)" if "adj d < adj e"
    using cmp3_sgn_diff(2) [OF sg abs_dval_less_of_adj [OF nz that]] by (simp add: sgn_dval)
  then show "- Sign d = cmp3 (dval d) (dval e)" if "adj d < adj e" using that
    by (metis of_int_eq_iff)
qed

lemma cmp3_same_scale:
  "dscale d = dscale e \<Longrightarrow> cmp3 (Unscaled d) (Unscaled e) = cmp3 (dval d) (dval e)"
  by (simp add: cmp3_def dval_less_same_scale dval_eq_same_scale)

lemma sgn_diff_cmp3: "sgn (a::rat) \<noteq> sgn b \<Longrightarrow> cmp3 a b = (if sgn a < sgn b then -1 else 1)"
  by (auto simp: cmp3_def sgn_if split: if_splits)

text \<open>The comparison is exact: it is the order of the values, and never panics.\<close>

lemma Cmp_run_spec:
  assumes ok: "decimal_ok d" "decimal_ok e"
  shows "Cmp_run d e = Some (cmp3 (dval d) (dval e))"
proof (cases "Sign d = Sign e")
  case False
  then have ne: "sgn (dval d) \<noteq> sgn (dval e)" by (simp add: sgn_dval)
  have "sgn (dval d) < sgn (dval e) \<longleftrightarrow> Sign d < Sign e" by (simp add: sgn_dval)
  with False sgn_diff_cmp3 [OF ne] show ?thesis by (simp add: Cmp_run_def)
next
  case same: True
  show ?thesis
  proof (cases "Sign d = 0")
    case True
    then have "dval d = 0" "dval e = 0" using same by (simp_all add: dval_zero_iff Sign_sgn sgn_0_0)
    with True same show ?thesis by (simp add: Cmp_run_def)
  next
    case nz: False
    have u: "Unscaled d \<noteq> 0" "Unscaled e \<noteq> 0" using nz same by (auto simp: Sign_sgn)
    let ?B = "\<lambda>x. digitCountBounds (int (bit_len (nat \<bar>Unscaled x\<bar>)))"
    have br: "fst (?B x) \<le> Precision x" "Precision x \<le> snd (?B x)"
      if "decimal_ok x" "Unscaled x \<noteq> 0" for x
      using digitCountBounds_bracket [of "nat \<bar>Unscaled x\<bar>"] that
      by (simp_all add: decimal_ok_def Precision_nz)
    note bd = br [OF ok(1) u(1)] and be = br [OF ok(2) u(2)]
    obtain dLo dHi oLo oHi where B: "?B d = (dLo, dHi)" "?B e = (oLo, oHi)" by fastforce
    define t where "t = (if dscale e > dscale d then dscale e else dscale d)"
    have t: "dscale d \<le> t" "dscale e \<le> t" by (auto simp: t_def)
    obtain da where da: "SetScale d t = Ok da" using SetScale_up [OF t(1)] by blast
    obtain ea where ea: "SetScale e t = Ok ea" using SetScale_up [OF t(2)] by blast
    have al: "cmp3 (Unscaled da) (Unscaled ea) = cmp3 (dval d) (dval e)"
      using SetScale_value [OF da] SetScale_value [OF ea] cmp3_same_scale [of da ea] by simp
    consider "dscale d = dscale e" | "dscale d \<noteq> dscale e" "adj e < adj d"
      | "dscale d \<noteq> dscale e" "adj d < adj e" | "dscale d \<noteq> dscale e" "adj d = adj e"
      by linarith
    then show ?thesis
    proof cases
      case 1
      then show ?thesis using same nz cmp3_same_scale [OF 1] by (simp add: Cmp_run_def)
    next
      case 2
      then have "\<not> dHi - dscale d < oLo - dscale e" using bd be B by (simp add: adj_def)
      with 2 same nz B Cmp_by_adj(1) [OF same nz 2(2)] show ?thesis
        by (simp add: Cmp_run_def Let_def adj_def)
    next
      case 3
      then have "\<not> dLo - dscale d > oHi - dscale e" using bd be B by (simp add: adj_def)
      with 3 same nz B Cmp_by_adj(2) [OF same nz 3(2)] show ?thesis
        by (simp add: Cmp_run_def Let_def adj_def)
    next
      case 4
      then have "\<not> dLo - dscale d > oHi - dscale e" "\<not> dHi - dscale d < oLo - dscale e"
        using bd be B by (simp_all add: adj_def)
      with 4 same nz B da ea al show ?thesis
        by (simp add: Cmp_run_def Let_def adj_def t_def [symmetric])
    qed
  qed
qed

lemma Cmp_spec: "decimal_ok d \<Longrightarrow> decimal_ok e \<Longrightarrow> Cmp d e = cmp3 (dval d) (dval e)"
  by (simp add: Cmp_def Cmp_run_spec)

subsection \<open>Parsing\<close>

text \<open>The error returns of \<open>ParseDecimal\<close>, in source order.\<close>

datatype parse_decimal_error =
    EmptyString | NonNumericToken | EmptyExponent | EmptyMantissa | MissingDigits
  | MultiplePoints | NoDigits | InvalidDigit | InvalidExponent | ScaleOutOfRange

text \<open>
  \<open>strings.ToLower\<close> as far as the token switch can see it: ASCII letters, and U+0130, the one
  other rune (bytes C4 B0) whose lower case is a letter of a token.
\<close>

definition lower_ascii :: "char \<Rightarrow> char" where
  "lower_ascii c = (let n = of_char c :: nat in if 65 \<le> n \<and> n \<le> 90 then char_of (n + 32) else c)"

fun lower_token :: "string \<Rightarrow> string" where
  "lower_token [] = []"
| "lower_token [c] = [lower_ascii c]"
| "lower_token (c # d # s) =
     (if c = CHR 0xC4 \<and> d = CHR 0xB0 then CHR ''i'' # lower_token s
      else lower_ascii c # lower_token (d # s))"

definition non_numeric_tokens :: "string list" where
  "non_numeric_tokens =
     [''nan'', ''inf'', ''infinity'', ''+inf'', ''+infinity'', ''-inf'', ''-infinity'']"

text \<open>\<open>strconv.ParseInt(s, 10, 64)\<close>: an optional sign, at least one digit, in \<open>int64\<close> range.\<close>

definition parse_int64 :: "string \<Rightarrow> int option" where
  "parse_int64 s =
     (let neg = (s \<noteq> [] \<and> hd s = CHR ''-'');
          ds = (if s \<noteq> [] \<and> (hd s = CHR ''-'' \<or> hd s = CHR ''+'') then tl s else s)
      in if ds = [] \<or> (\<exists>c \<in> set ds. \<not> is_digit c) then None
         else (let n = (if neg then - int (dec_val ds) else int (dec_val ds)) in
               if - 9223372036854775808 \<le> n \<and> n \<le> 9223372036854775807 then Some n else None))"

text \<open>The tail of \<open>ParseDecimal\<close>: the exponent, the coefficient, the \<open>int64\<close> scale and its range check.\<close>

definition build_decimal :: "bool \<Rightarrow> string \<Rightarrow> string \<Rightarrow> string \<Rightarrow> parse_decimal_error + decimal" where
  "build_decimal neg intPart fracPart expPart =
     (case (if expPart = [] then Some 0 else parse_int64 expPart) of
        None \<Rightarrow> Err InvalidExponent
      | Some ex \<Rightarrow>
          (let n = int (dec_val (intPart @ fracPart));
               u = (if neg then - n else n);
               sc = i64 (int (length fracPart) - ex)
           in if sc > max_i32 \<or> sc < min_i32 then Err ScaleOutOfRange
              else Ok (mk_decimal u sc)))"

definition ParseDecimal :: "string \<Rightarrow> parse_decimal_error + decimal" where
  "ParseDecimal s =
     (if s = [] then Err EmptyString
      else if lower_token s \<in> set non_numeric_tokens then Err NonNumericToken
      else
        (let is_e = (\<lambda>c. c = CHR ''e'' \<or> c = CHR ''E'');
             mantissa0 = takeWhile (\<lambda>c. \<not> is_e c) s;
             rest = dropWhile (\<lambda>c. \<not> is_e c) s;
             expPart = (if rest = [] then [] else tl rest)
         in if rest \<noteq> [] \<and> expPart = [] then Err EmptyExponent
            else if mantissa0 = [] \<or> mantissa0 = ''+'' \<or> mantissa0 = ''-'' then Err EmptyMantissa
            else
              (let neg = (hd mantissa0 = CHR ''-'');
                   mantissa = (if neg \<or> hd mantissa0 = CHR ''+'' then tl mantissa0 else mantissa0)
               in if mantissa = [] then Err MissingDigits
                  else
                    (let point = (CHR ''.'' \<in> set mantissa);
                         int0 = takeWhile (\<lambda>c. c \<noteq> CHR ''.'') mantissa;
                         fracPart = (if point then tl (dropWhile (\<lambda>c. c \<noteq> CHR ''.'') mantissa) else []);
                         intPart = (if int0 = [] then ''0'' else int0)
                     in if CHR ''.'' \<in> set fracPart then Err MultiplePoints
                        else if intPart = ''0'' \<and> fracPart = [] \<and> point then Err NoDigits
                        else if \<exists>c \<in> set intPart. \<not> is_digit c then Err InvalidDigit
                        else if \<exists>c \<in> set fracPart. \<not> is_digit c then Err InvalidDigit
                        else build_decimal neg intPart fracPart expPart))))"

text \<open>Every parsed decimal has a coefficient and an \<open>int32\<close> scale.\<close>

lemma ParseDecimal_built:
  "ParseDecimal s = Ok d \<Longrightarrow> \<exists>neg ip fp ep. build_decimal neg ip fp ep = Ok d"
  unfolding ParseDecimal_def Let_def guard_simps by blast

lemma ParseDecimal_ok: "ParseDecimal s = Ok d \<Longrightarrow> unscaled d \<noteq> None \<and> scale_ok d"
  by (drule ParseDecimal_built)
    (auto simp: build_decimal_def Let_def guard_simps scale_ok_def in_i32_def)

text \<open>
  Number literals, as concrete syntax: an optional sign, digits, an optional fraction and an
  optional exponent. The point needs a digit behind it when the integer part is \<open>0\<close> or empty.
\<close>

definition point_part :: "string option \<Rightarrow> string" where
  "point_part f = (case f of None \<Rightarrow> [] | Some fs \<Rightarrow> CHR ''.'' # fs)"

definition frac_digits :: "string option \<Rightarrow> string" where
  "frac_digits f = (case f of None \<Rightarrow> [] | Some fs \<Rightarrow> fs)"

definition exp_part :: "string option \<Rightarrow> string" where
  "exp_part x = (case x of None \<Rightarrow> [] | Some xs \<Rightarrow> CHR ''e'' # xs)"

definition exp_value :: "string option \<Rightarrow> int option" where
  "exp_value x = (case x of None \<Rightarrow> Some 0 | Some xs \<Rightarrow> if xs = [] then None else parse_int64 xs)"

definition sign_part :: "bool \<Rightarrow> string" where
  "sign_part neg = (if neg then ''-'' else [])"

definition digits_only :: "string \<Rightarrow> bool" where
  "digits_only s \<longleftrightarrow> (\<forall>c \<in> set s. is_digit c)"

lemma digit_not [simp]:
  "\<not> is_digit CHR ''.''" "\<not> is_digit CHR ''e''" "\<not> is_digit CHR ''E''" "\<not> is_digit CHR ''-''"
  "\<not> is_digit CHR ''+''" "\<not> is_digit CHR ''n''" "\<not> is_digit CHR ''i''"
  by (simp_all add: is_digit_def)

lemma lower_ascii_digit: "is_digit c \<Longrightarrow> lower_ascii c = c"
  by (auto simp: lower_ascii_def is_digit_def Let_def)

lemma lower_token_Cons: "c \<noteq> CHR 0xC4 \<Longrightarrow> lower_token (c # s) = lower_ascii c # lower_token s"
  by (cases s) auto

lemma is_digit_not_C4: "is_digit c \<Longrightarrow> c \<noteq> CHR 0xC4"
  by (auto simp: is_digit_def)

lemma lower_minus: "lower_ascii CHR ''-'' = CHR ''-''" "lower_ascii CHR ''.'' = CHR ''.''"
  by code_simp+

lemma token_hd:
  "t \<in> set non_numeric_tokens \<Longrightarrow> hd t \<in> {CHR ''n'', CHR ''i'', CHR ''+'', CHR ''-''}"
  "t \<in> set non_numeric_tokens \<Longrightarrow> hd t = CHR ''-'' \<Longrightarrow> hd (tl t) = CHR ''i''"
  by (auto simp: non_numeric_tokens_def)

lemma literal_not_token:
  assumes "digits_only ip" and "ip \<noteq> []"
  shows "lower_token (sign_part neg @ ip @ r) \<notin> set non_numeric_tokens"
proof -
  from assms obtain c cs where ip: "ip = c # cs" and c: "is_digit c"
    by (cases ip) (auto simp: digits_only_def)
  have h: "hd (lower_token (ip @ r)) = c"
    using c by (simp add: ip lower_token_Cons is_digit_not_C4 lower_ascii_digit)
  show ?thesis
  proof (cases neg)
    case True
    have "lower_token (sign_part neg @ ip @ r) = CHR ''-'' # lower_token (ip @ r)"
      using True by (simp add: sign_part_def lower_token_Cons lower_minus)
    then show ?thesis using token_hd(2) [of "CHR ''-'' # lower_token (ip @ r)"] h c by auto
  next
    case False
    then show ?thesis using token_hd(1) [of "lower_token (ip @ r)"] h c
      by (auto simp: sign_part_def)
  qed
qed

lemma takeWhile_stop: "(\<forall>c \<in> set s. P c) \<Longrightarrow> \<not> P x \<Longrightarrow> takeWhile P (s @ x # t) = s"
  by (induction s) auto

lemma dropWhile_stop: "(\<forall>c \<in> set s. P c) \<Longrightarrow> \<not> P x \<Longrightarrow> dropWhile P (s @ x # t) = x # t"
  by (induction s) auto

lemma all_takeWhile: "(\<forall>c \<in> set s. P c) \<Longrightarrow> takeWhile P s = s"
  by (simp add: takeWhile_eq_all_conv)

lemma all_dropWhile: "(\<forall>c \<in> set s. P c) \<Longrightarrow> dropWhile P s = []"
  by (simp add: dropWhile_eq_Nil_conv)

lemmas span_simps = takeWhile_stop dropWhile_stop all_takeWhile all_dropWhile

text \<open>A literal parses to its coefficient digits and the scale its fraction and exponent give.\<close>

lemma ParseDecimal_literal:
  assumes ip: "ip \<noteq> []" "digits_only ip" and fp: "digits_only (frac_digits f)"
    and point: "ip = ''0'' \<Longrightarrow> f \<noteq> Some []"
    and ex: "exp_value x = Some e"
    and sc: "in_i32 (int (length (frac_digits f)) - e)"
  shows "ParseDecimal (sign_part neg @ ip @ point_part f @ exp_part x) =
    Ok (mk_decimal ((if neg then -1 else 1) * int (dec_val (ip @ frac_digits f)))
          (int (length (frac_digits f)) - e))"
proof -
  let ?m = "ip @ point_part f"
  let ?s = "sign_part neg @ ?m @ exp_part x"
  have nd: "c \<noteq> CHR ''e'' \<and> c \<noteq> CHR ''E'' \<and> c \<noteq> CHR ''.'' \<and> c \<noteq> CHR ''-'' \<and> c \<noteq> CHR ''+''"
    if "is_digit c" for c
    using that by auto
  have me: "\<forall>c \<in> set (sign_part neg @ ?m). \<not> (c = CHR ''e'' \<or> c = CHR ''E'')"
    using ip fp nd by (auto simp: digits_only_def sign_part_def point_part_def frac_digits_def
        split: option.splits)
  have t1: "takeWhile (\<lambda>c. \<not> (c = CHR ''e'' \<or> c = CHR ''E'')) ?s = sign_part neg @ ?m"
    using me takeWhile_stop [OF me] all_takeWhile [OF me]
    by (cases x) (simp_all add: exp_part_def)
  have t2: "dropWhile (\<lambda>c. \<not> (c = CHR ''e'' \<or> c = CHR ''E'')) ?s = exp_part x"
    using me dropWhile_stop [OF me] all_dropWhile [OF me]
    by (cases x) (simp_all add: exp_part_def)
  have i0: "\<forall>c \<in> set ip. c \<noteq> CHR ''.''" using ip nd by (auto simp: digits_only_def)
  have f0: "CHR ''.'' \<notin> set (frac_digits f)" using fp nd by (auto simp: digits_only_def)
  have t3: "takeWhile (\<lambda>c. c \<noteq> CHR ''.'') ?m = ip"
    using takeWhile_stop [OF i0] all_takeWhile [OF i0] by (cases f) (simp_all add: point_part_def)
  have t4: "(if CHR ''.'' \<in> set ?m then tl (dropWhile (\<lambda>c. c \<noteq> CHR ''.'') ?m) else []) = frac_digits f"
    using dropWhile_stop [OF i0] i0 by (cases f) (auto simp: point_part_def frac_digits_def)
  have hd: "hd ip \<noteq> CHR ''-''" "hd ip \<noteq> CHR ''+''" using ip nd by (cases ip; auto simp: digits_only_def)+
  have m0: "sign_part neg @ ?m \<noteq> []" "sign_part neg @ ?m \<noteq> ''+''" "sign_part neg @ ?m \<noteq> ''-''"
    using ip hd by (cases ip; cases neg; auto simp: sign_part_def)+
  have neg: "(hd (sign_part neg @ ?m) = CHR ''-'') = neg"
    "(if neg \<or> hd (sign_part neg @ ?m) = CHR ''+'' then tl (sign_part neg @ ?m) else sign_part neg @ ?m) = ?m"
    using ip hd by (cases ip; cases neg; auto simp: sign_part_def)+
  have pt: "\<not> (ip = ''0'' \<and> frac_digits f = [] \<and> CHR ''.'' \<in> set ?m)"
    using point i0 by (cases f) (auto simp: point_part_def frac_digits_def)
  have tok: "lower_token ?s \<notin> set non_numeric_tokens"
    using literal_not_token [OF ip(2,1), of neg "point_part f @ exp_part x"] by simp
  have xs: "\<not> (exp_part x \<noteq> [] \<and> (if exp_part x = [] then [] else tl (exp_part x)) = [])"
    "(if (if exp_part x = [] then [] else tl (exp_part x)) = [] then Some 0
      else parse_int64 (if exp_part x = [] then [] else tl (exp_part x))) = Some e"
    using ex by (auto simp: exp_part_def exp_value_def split: option.splits if_splits)
  have dig: "\<not> (\<exists>c \<in> set ip. \<not> is_digit c)" "\<not> (\<exists>c \<in> set (frac_digits f). \<not> is_digit c)"
    using ip fp by (auto simp: digits_only_def)
  have s0: "?s \<noteq> []" using ip by simp
  have w: "i64 (int (length (frac_digits f)) - e) = int (length (frac_digits f)) - e"
    using sc by (intro i64_id) (simp_all add: in_i32_iff)
  have rng: "\<not> (int (length (frac_digits f)) - e > max_i32 \<or> int (length (frac_digits f)) - e < min_i32)"
    using sc by (auto simp: in_i32_def)
  have "ParseDecimal ?s =
    Ok (mk_decimal ((if neg then -1 else 1) * int (dec_val (ip @ frac_digits f)))
          (int (length (frac_digits f)) - e))"
    unfolding ParseDecimal_def build_decimal_def Let_def t1 t2 neg t3 t4 xs(2) option.case w
    using s0 tok xs(1) m0 ip(1) f0 pt dig rng by simp
  then show ?thesis by simp
qed


subsection \<open>Canonical rendering\<close>

definition int128Min :: int where "int128Min = - (2 ^ 127)"
definition int128Max :: int where "int128Max = 2 ^ 127 - 1"

definition IsInt128 :: "decimal \<Rightarrow> bool" where
  "IsInt128 d \<longleftrightarrow> (case unscaled d of None \<Rightarrow> True
     | Some u \<Rightarrow> u \<ge> int128Min \<and> u \<le> int128Max)"

text \<open>
  \<open>Canonical\<close>; \<open>None\<close> is the panic of \<open>strings.Repeat\<close> on a negative count, which
  \<open>int(-d.scale)\<close> is when the scale is the least \<open>int32\<close>.
\<close>

definition Canonical_run :: "decimal \<Rightarrow> string option" where
  "Canonical_run d =
     (if unscaled d = None \<or> Sign d = 0 then Some ''0''
      else
        (let unscaledStr = big_str (Unscaled d);
             neg = (hd unscaledStr = CHR ''-'');
             digits = (if neg then tl unscaledStr else unscaledStr);
             result =
               (if dscale d = 0 then Some digits
                else if dscale d > 0 then
                  (let pad = dscale d - int (length digits) in
                   if pad \<ge> 0 then Some (''0.'' @ replicate (nat pad) CHR ''0'' @ digits)
                   else (let split = length digits - nat (dscale d)
                         in Some (take split digits @ ''.'' @ drop split digits)))
                else
                  (let count = i32 (- dscale d) in
                   if count < 0 then None else Some (digits @ replicate (nat count) CHR ''0'')))
         in case result of None \<Rightarrow> None | Some r \<Rightarrow> Some (if neg then CHR ''-'' # r else r)))"

definition MarshalJSON :: "decimal \<Rightarrow> string option" where
  "MarshalJSON d = Canonical_run d"

definition UnmarshalJSON :: "string \<Rightarrow> parse_decimal_error + decimal" where
  "UnmarshalJSON data =
     (if length data \<ge> 2 \<and> hd data = CHR 0x22 \<and> last data = CHR 0x22
      then ParseDecimal (butlast (tl data)) else ParseDecimal data)"

lemma hd_dec_str_not_minus: "hd (dec_str n) \<noteq> CHR ''-''"
  using dec_str_digits [of n] dec_str_not_Nil [of n] by (metis digit_not(4) hd_in_set)

lemma digits_only_dec_str [simp]: "digits_only (dec_str n)"
  using dec_str_digits by (simp add: digits_only_def)

lemma digits_only_app [simp]: "digits_only (s @ t) = (digits_only s \<and> digits_only t)"
  by (auto simp: digits_only_def)

lemma is_digit_0 [simp]: "is_digit CHR ''0''"
  by (simp add: is_digit_def)

lemma digits_only_zeros [simp]: "digits_only (replicate n CHR ''0'')"
  by (simp add: digits_only_def)

lemma dec_val_zeros [simp]: "dec_val (replicate n CHR ''0'') = 0"
  by (induction n) (simp_all add: dec_val_def digit_val_def)

lemma big_str_sign:
  "u \<noteq> 0 \<Longrightarrow> (hd (big_str u) = CHR ''-'') = (u < 0)"
  "u \<noteq> 0 \<Longrightarrow> (if u < 0 then tl (big_str u) else big_str u) = dec_str (nat \<bar>u\<bar>)"
  by (simp_all add: big_str_def hd_dec_str_not_minus)

text \<open>Canonical output is a literal: its integer digits and, for a positive scale, its fraction.\<close>

definition canonical_parts :: "nat \<Rightarrow> int \<Rightarrow> string \<times> string option" where
  "canonical_parts n s =
     (let digits = dec_str n in
      if s \<le> 0 then (digits @ replicate (nat (- s)) CHR ''0'', None)
      else if s \<ge> int (length digits) then
        (''0'', Some (replicate (nat s - length digits) CHR ''0'' @ digits))
      else (take (length digits - nat s) digits, Some (drop (length digits - nat s) digits)))"

lemma canonical_parts_spec:
  assumes cp: "canonical_parts n s = (ip, f)"
  shows "ip \<noteq> []" and "digits_only ip" and "digits_only (frac_digits f)"
    and "ip = ''0'' \<Longrightarrow> f \<noteq> Some []"
    and "int (length (frac_digits f)) = (if s \<le> 0 then 0 else s)"
    and "dec_val (ip @ frac_digits f) = n * 10 ^ nat (- s)"
proof -
  have d0: "dec_val (CHR ''0'' # t) = dec_val t" for t
    using dec_val_append [of "''0''" t] by (simp add: dec_val_def digit_val_def)
  note * = cp [symmetric, unfolded canonical_parts_def Let_def]
  show "ip \<noteq> []" "ip = ''0'' \<Longrightarrow> f \<noteq> Some []"
    using * by (auto split: if_splits)
  show "digits_only ip" "digits_only (frac_digits f)"
    using * dec_str_digits [of n]
    by (auto split: if_splits simp: digits_only_def frac_digits_def dest: in_set_takeD in_set_dropD)
  show "int (length (frac_digits f)) = (if s \<le> 0 then 0 else s)"
    using * by (auto split: if_splits simp: frac_digits_def)
  show "dec_val (ip @ frac_digits f) = n * 10 ^ nat (- s)"
    using * by (auto split: if_splits simp: frac_digits_def d0 dec_val_append [of "dec_str n"]
        dec_val_append [of "replicate _ _"] simp flip: append_assoc)
qed

lemma Canonical_run_parts:
  assumes nz: "Unscaled d \<noteq> 0" and s: "in_i32 (dscale d)" "dscale d \<noteq> min_i32"
    and cp: "canonical_parts (nat \<bar>Unscaled d\<bar>) (dscale d) = (ip, f)"
  shows "Canonical_run d = Some (sign_part (Unscaled d < 0) @ ip @ point_part f)"
proof -
  let ?ds = "dec_str (nat \<bar>Unscaled d\<bar>)"
  obtain y where y: "unscaled d = Some y" "Sign d \<noteq> 0" using nz nz_cases by blast
  have w: "i32 (- dscale d) = - dscale d"
    using s by (intro i32_id) (auto simp: in_i32_iff min_i32_def)
  define ds where "ds = ?ds"
  note cp' = cp [symmetric, unfolded canonical_parts_def Let_def, folded ds_def]
  show ?thesis
    unfolding Canonical_run_def Let_def big_str_sign [OF nz] w ds_def [symmetric]
    using y cp' by (auto simp: sign_part_def point_part_def nat_diff_distrib
        split: if_splits)
qed

text \<open>
  Round trip: the canonical form of every decimal whose scale is above the \<open>int32\<close> floor
  parses back to the same value.
\<close>

lemma Canonical_roundtrip_aux:
  assumes ok: "scale_ok d" and s: "dscale d \<noteq> min_i32 \<or> Unscaled d = 0"
  shows "\<exists>c e. Canonical_run d = Some c \<and> ParseDecimal c = Ok e \<and> dval e = dval d
    \<and> (0 \<le> dscale d \<and> Unscaled d \<noteq> 0 \<longrightarrow> dscale e = dscale d)"
proof (cases "Unscaled d = 0")
  case True
  then have "Canonical_run d = Some ''0''"
    using Sign_zero_iff [of d] by (auto simp: Canonical_run_def)
  moreover have "ParseDecimal ''0'' = Ok (mk_decimal 0 0)" by code_simp
  ultimately show ?thesis using True by (simp add: dval_zero_iff)
next
  case False
  obtain ip f where cp: "canonical_parts (nat \<bar>Unscaled d\<bar>) (dscale d) = (ip, f)" by fastforce
  note sp = canonical_parts_spec [OF cp]
  have s': "in_i32 (dscale d)" "dscale d \<noteq> min_i32" using ok s False by (simp_all add: scale_ok_def)
  let ?neg = "Unscaled d < 0" and ?n = "(if dscale d \<le> 0 then 0 else dscale d)"
  let ?u = "(if ?neg then -1 else 1) * int (nat \<bar>Unscaled d\<bar> * 10 ^ nat (- dscale d))"
  have "in_i32 (int (length (frac_digits f)) - 0)"
    using s'(1) sp(5) by (simp add: in_i32_iff)
  from ParseDecimal_literal [OF sp(1,2,3,4) _ this, of None ?neg]
  have p: "ParseDecimal (sign_part ?neg @ ip @ point_part f) = Ok (mk_decimal ?u ?n)"
    using sp(5,6) by (simp add: exp_value_def exp_part_def)
  have u: "?u = Unscaled d * 10 ^ nat (- dscale d)" by simp
  have "dval (mk_decimal ?u ?n) = dval d"
  proof (cases "dscale d \<le> 0")
    case True
    then show ?thesis
      using pow10_nat [of "- dscale d"] by (simp only: u) (simp add: dval_def)
  qed (simp add: dval_def)
  then show ?thesis using Canonical_run_parts [OF False s' cp] p by auto
qed

lemma Canonical_panics_iff:
  "scale_ok d \<Longrightarrow> Canonical_run d = None \<longleftrightarrow> Unscaled d \<noteq> 0 \<and> dscale d = min_i32"
proof -
  assume ok: "scale_ok d"
  have "Canonical_run d = None" if nz: "Unscaled d \<noteq> 0" and m: "dscale d = min_i32"
  proof -
    have "i32 2147483648 = - 2147483648" by code_simp
    then show ?thesis using nz_cases [OF nz] m
      by (auto simp: Canonical_run_def Let_def min_i32_def)
  qed
  then show ?thesis using Canonical_roundtrip_aux [OF ok] by fastforce
qed

subsection \<open>The comparison interface\<close>

text \<open>
  What the evaluation and ordering code relies on in a Go three-way comparison: on values that
  satisfy \<open>ok\<close> it returns the sign of the comparison of their keys.
\<close>

locale three_way =
  fixes compare :: "'a \<Rightarrow> 'a \<Rightarrow> int" and ok :: "'a \<Rightarrow> bool" and key :: "'a \<Rightarrow> 'k::linorder"
  assumes compare_key: "ok x \<Longrightarrow> ok y \<Longrightarrow> compare x y = cmp3 (key x) (key y)"
begin

lemma compare_antisym: "ok x \<Longrightarrow> ok y \<Longrightarrow> compare y x = - compare x y"
  by (simp add: compare_key cmp3_swap [of "key x"])

lemma compare_trans:
  "ok x \<Longrightarrow> ok y \<Longrightarrow> ok z \<Longrightarrow> compare x y \<le> 0 \<Longrightarrow> compare y z \<le> 0 \<Longrightarrow> compare x z \<le> 0"
  by (simp add: compare_key)

lemma compare_eq_iff: "ok x \<Longrightarrow> ok y \<Longrightarrow> compare x y = 0 \<longleftrightarrow> key x = key y"
  by (simp add: compare_key)

lemma compare_signs:
  "ok x \<Longrightarrow> ok y \<Longrightarrow> compare x y < 0 \<longleftrightarrow> key x < key y"
  "ok x \<Longrightarrow> ok y \<Longrightarrow> compare x y \<le> 0 \<longleftrightarrow> key x \<le> key y"
  "ok x \<Longrightarrow> ok y \<Longrightarrow> 0 < compare x y \<longleftrightarrow> key y < key x"
  "ok x \<Longrightarrow> ok y \<Longrightarrow> 0 \<le> compare x y \<longleftrightarrow> key y \<le> key x"
  by (simp_all add: compare_key)

end

interpretation dec: three_way Cmp decimal_ok dval
  by unfold_locales (rule Cmp_spec)

subsection \<open>Properties\<close>

text \<open>C7: \<open>Cmp\<close> never reaches its panics and returns the exact order of the two values, although
  it decides by sign, bit-length brackets and digit counts before it aligns the coefficients.\<close>

theorem Cmp_exact:
  assumes "decimal_ok d" and "decimal_ok e"
  shows "Cmp_run d e = Some (cmp3 (dval d) (dval e))"
  using assms by (rule Cmp_run_spec)

lemma decimal_ok_small:
  "in_i32 s \<Longrightarrow> \<bar>u\<bar> \<le> 1000 \<Longrightarrow> decimal_ok (mk_decimal u s)"
proof -
  assume s: "in_i32 s" and u: "\<bar>u\<bar> \<le> 1000"
  have "bit_len (nat \<bar>u\<bar>) \<le> 10"
  proof (cases "u = 0")
    case False
    then have "2 ^ (bit_len (nat \<bar>u\<bar>) - 1) \<le> nat \<bar>u\<bar>" by (intro bit_len_ge) simp
    also have "\<dots> < 2 ^ 10" using u by simp
    finally have "bit_len (nat \<bar>u\<bar>) - 1 < 10" by (rule power_less_imp_less_exp [rotated]) simp
    then show ?thesis by simp
  qed simp
  then show ?thesis using s by (simp add: decimal_ok_def scale_ok_def)
qed

theorem Cmp_exact_witness:
  "Cmp_run (mk_decimal 15 1) (mk_decimal 150 2) = Some 0
   \<and> Cmp_run (mk_decimal 1 (- 9)) (mk_decimal 7 0) = Some 1"
proof -
  have ok: "decimal_ok (mk_decimal 15 1)" "decimal_ok (mk_decimal 150 2)"
    "decimal_ok (mk_decimal 1 (- 9))" "decimal_ok (mk_decimal 7 0)"
    by (simp_all add: decimal_ok_small in_i32_iff)
  show ?thesis
    using Cmp_exact [OF ok(1,2)] Cmp_exact [OF ok(3,4)]
    by (simp add: cmp3_def power_int_minus power2_eq_square)
qed

text \<open>C26: every decimal whose scale is not the least \<open>int32\<close> (or which is zero) has a canonical
  form, and parsing that form gives back its value; the panic of \<open>Canonical\<close> is reached exactly
  in the excluded case.\<close>

theorem Canonical_roundtrip:
  assumes "scale_ok d"
  shows "(Canonical_run d = None \<longleftrightarrow> Unscaled d \<noteq> 0 \<and> dscale d = min_i32)
    \<and> (\<forall>c. Canonical_run d = Some c \<longrightarrow> (\<exists>e. ParseDecimal c = Ok e \<and> dval e = dval d))"
  using Canonical_panics_iff [OF assms] Canonical_roundtrip_aux [OF assms] by fastforce

theorem Canonical_roundtrip_witness:
  "Canonical_run (mk_decimal (- 150) 2) = Some ''-1.50''
   \<and> (\<exists>e. ParseDecimal ''-1.50'' = Ok e \<and> dval e = - 3 / 2)"
proof -
  have c: "Canonical_run (mk_decimal (- 150) 2) = Some ''-1.50''" by code_simp
  have "scale_ok (mk_decimal (- 150) 2)" by (simp add: scale_ok_def in_i32_iff)
  from Canonical_roundtrip [OF this] c
  obtain e where "ParseDecimal ''-1.50'' = Ok e" "dval e = dval (mk_decimal (- 150) 2)" by blast
  then show ?thesis using c by (auto simp: power_int_minus)
qed

text \<open>stripping trailing zeros keeps the value and the \<open>int32\<close> scale, and leaves a coefficient
  that ends in a non-zero digit unless the scale has reached the \<open>int32\<close> floor.\<close>

theorem StripTrailingZeros_correct:
  assumes "scale_ok d"
  shows "dval (StripTrailingZeros d) = dval d \<and> stripped (StripTrailingZeros d)"
  using StripTrailingZeros_spec [OF assms] by simp

theorem StripTrailingZeros_witness:
  "dval (StripTrailingZeros (mk_decimal 1200 1)) = 120 \<and> stripped (StripTrailingZeros (mk_decimal 1200 1))"
proof -
  have "scale_ok (mk_decimal 1200 1)" by (simp add: scale_ok_def in_i32_iff)
  from StripTrailingZeros_correct [OF this] show ?thesis by (simp add: power_int_minus)
qed

text \<open>a rescale succeeds exactly when the value is an integer number of units of the new scale;
  then the value is unchanged, and otherwise the error names both scales.\<close>

theorem SetScale_correct:
  "(is_ok (SetScale d n) \<longleftrightarrow> (\<exists>k. dval d = of_int k * 10 powi (- n)))
   \<and> (case SetScale d n of Inr e \<Rightarrow> dval e = dval d \<and> dscale e = n
      | Inl err \<Rightarrow> err = PrecisionLoss (dscale d) n)"
  using SetScale_ok_iff [of d n] SetScale_value [of d n] SetScale_Err_iff [of d n]
  by (cases "SetScale d n") auto

text \<open>\<open>roundToScale\<close> never panics and yields the ceiling or floor of the value in units of the
  new scale, including when the gap exceeds the precision and no divisor is built.\<close>

theorem roundToScale_correct:
  "roundToScale_run d n mode = Some (mk_decimal (round_int mode (dval d * 10 powi n)) n)"
  by (rule roundToScale_run_spec)

text \<open>rounding to a precision never panics, keeps at most that many digits, and is the directed
  rounding of the value onto the decimal grid that many digits below its leading digit.\<close>

theorem roundToPrecision_correct:
  assumes "0 < maxPrec" and "maxPrec < Precision d"
    and "in_i32 (dscale d)" and "in_i32 (dscale d - (Precision d - maxPrec) - 1)"
  shows "\<exists>r. roundToPrecision_run d maxPrec mode = Some r \<and> Precision r \<le> maxPrec
    \<and> dval r = round_grid mode (maxPrec - adj d) (dval d)"
  using roundToPrecision_run_spec [OF assms] by blast

theorem roundToPrecision_witness:
  "\<exists>r. roundToPrecision_run (mk_decimal 9996 3) 3 roundCeiling = Some r \<and> Precision r \<le> 3
     \<and> dval r = 10"
proof -
  have p: "Precision (mk_decimal 9996 3) = 4" by code_simp
  have "in_i32 3" "in_i32 (3 - (4 - 3) - 1)" by (simp_all add: in_i32_iff)
  with roundToPrecision_correct [of 3 "mk_decimal 9996 3" roundCeiling] p
  have e: "\<exists>r. roundToPrecision_run (mk_decimal 9996 3) 3 roundCeiling = Some r \<and> Precision r \<le> 3
    \<and> dval r = round_grid roundCeiling (3 - adj (mk_decimal 9996 3)) (dval (mk_decimal 9996 3))"
    by simp
  have c: "\<lceil>4998 / (5::rat)\<rceil> = 1000" by (simp add: ceiling_eq_iff)
  from e show ?thesis
    by (auto simp: adj_def round_grid_def round_int_def power_int_minus c p)
qed

text \<open>the digit-count bracket from a coefficient's bit length contains its digit count and is at
  most one wide, for every coefficient below \<open>2^(2^31 - 1)\<close>.\<close>

theorem digitCountBounds_correct:
  assumes "0 < n" and "bit_len n \<le> 2147483647"
  shows "fst (digitCountBounds (int (bit_len n))) \<le> int (length (dec_str n))
    \<and> int (length (dec_str n)) \<le> snd (digitCountBounds (int (bit_len n)))
    \<and> snd (digitCountBounds (int (bit_len n))) - fst (digitCountBounds (int (bit_len n))) \<le> 1"
  using digitCountBounds_bracket [OF assms] by simp

theorem digitCountBounds_witness:
  "fst (digitCountBounds (int (bit_len 1000))) \<le> int (length (dec_str 1000))"
proof -
  have "bit_len 1000 \<le> 2147483647" by code_simp
  from digitCountBounds_correct [OF _ this] show ?thesis by simp
qed

end
