(* ===== verification/Filter_Op.thy ===== *)
theory Filter_Op
  imports Spi_Base
begin

text \<open>
  The operators of the search filter tree (\<open>filter.go\<close>) and the small functions that classify
  them or apply them to a three-way comparison (\<open>numeric_bucket.go\<close>, \<open>eval_leaf.go\<close>).
  \<open>FilterOp\<close> is a Go string type: a value outside the declared constants is \<open>FilterOpOther\<close>,
  the zero value being \<open>FilterOpOther []\<close>.
\<close>

datatype filter_op =
    FilterAnd | FilterOr | FilterNot
  | FilterEq | FilterNe | FilterGt | FilterLt | FilterGte | FilterLte
  | FilterContains | FilterStartsWith | FilterEndsWith | FilterLike
  | FilterIsNull | FilterNotNull
  | FilterBetween | FilterBetweenInclusive | FilterMatchesRegex
  | FilterIEq | FilterINe | FilterIContains | FilterINotContains | FilterNotContains
  | FilterIStartsWith | FilterINotStartsWith | FilterNotStartsWith
  | FilterIEndsWith | FilterINotEndsWith | FilterNotEndsWith
  | FilterOpOther string

fun filter_op_name :: "filter_op \<Rightarrow> string" where
  "filter_op_name FilterAnd = ''and''"
| "filter_op_name FilterOr = ''or''"
| "filter_op_name FilterNot = ''not''"
| "filter_op_name FilterEq = ''eq''"
| "filter_op_name FilterNe = ''ne''"
| "filter_op_name FilterGt = ''gt''"
| "filter_op_name FilterLt = ''lt''"
| "filter_op_name FilterGte = ''gte''"
| "filter_op_name FilterLte = ''lte''"
| "filter_op_name FilterContains = ''contains''"
| "filter_op_name FilterStartsWith = ''starts_with''"
| "filter_op_name FilterEndsWith = ''ends_with''"
| "filter_op_name FilterLike = ''like''"
| "filter_op_name FilterIsNull = ''is_null''"
| "filter_op_name FilterNotNull = ''not_null''"
| "filter_op_name FilterBetween = ''between''"
| "filter_op_name FilterBetweenInclusive = ''between_inclusive''"
| "filter_op_name FilterMatchesRegex = ''matches_regex''"
| "filter_op_name FilterIEq = ''ieq''"
| "filter_op_name FilterINe = ''ine''"
| "filter_op_name FilterIContains = ''icontains''"
| "filter_op_name FilterINotContains = ''inot_contains''"
| "filter_op_name FilterNotContains = ''not_contains''"
| "filter_op_name FilterIStartsWith = ''istarts_with''"
| "filter_op_name FilterINotStartsWith = ''inot_starts_with''"
| "filter_op_name FilterNotStartsWith = ''not_starts_with''"
| "filter_op_name FilterIEndsWith = ''iends_with''"
| "filter_op_name FilterINotEndsWith = ''inot_ends_with''"
| "filter_op_name FilterNotEndsWith = ''not_ends_with''"
| "filter_op_name (FilterOpOther s) = s"

text \<open>The operator families of a leaf: \<open>leafKindOf\<close>, \<open>None\<close> for a tree or unknown operator.\<close>

datatype exp_kind = kindUnary | kindStringOp | kindCompare | kindBetween

fun leafKindOf :: "filter_op \<Rightarrow> exp_kind option" where
  "leafKindOf FilterIsNull = Some kindUnary"
| "leafKindOf FilterNotNull = Some kindUnary"
| "leafKindOf FilterContains = Some kindStringOp"
| "leafKindOf FilterStartsWith = Some kindStringOp"
| "leafKindOf FilterEndsWith = Some kindStringOp"
| "leafKindOf FilterLike = Some kindStringOp"
| "leafKindOf FilterMatchesRegex = Some kindStringOp"
| "leafKindOf FilterNotContains = Some kindStringOp"
| "leafKindOf FilterNotStartsWith = Some kindStringOp"
| "leafKindOf FilterNotEndsWith = Some kindStringOp"
| "leafKindOf FilterIEq = Some kindStringOp"
| "leafKindOf FilterINe = Some kindStringOp"
| "leafKindOf FilterIContains = Some kindStringOp"
| "leafKindOf FilterINotContains = Some kindStringOp"
| "leafKindOf FilterIStartsWith = Some kindStringOp"
| "leafKindOf FilterINotStartsWith = Some kindStringOp"
| "leafKindOf FilterIEndsWith = Some kindStringOp"
| "leafKindOf FilterINotEndsWith = Some kindStringOp"
| "leafKindOf FilterBetween = Some kindBetween"
| "leafKindOf FilterBetweenInclusive = Some kindBetween"
| "leafKindOf FilterEq = Some kindCompare"
| "leafKindOf FilterNe = Some kindCompare"
| "leafKindOf FilterGt = Some kindCompare"
| "leafKindOf FilterGte = Some kindCompare"
| "leafKindOf FilterLt = Some kindCompare"
| "leafKindOf FilterLte = Some kindCompare"
| "leafKindOf _ = None"

definition isNegativeOp :: "filter_op \<Rightarrow> bool" where
  "isNegativeOp p \<longleftrightarrow>
     p \<in> {FilterNe, FilterINe, FilterNotContains, FilterINotContains,
          FilterNotStartsWith, FilterINotStartsWith, FilterNotEndsWith, FilterINotEndsWith}"

definition isComparingOp :: "filter_op \<Rightarrow> bool" where
  "isComparingOp p \<longleftrightarrow> p = FilterGt \<or> p = FilterGte \<or> p = FilterLt \<or> p = FilterLte"

definition isLessOp :: "filter_op \<Rightarrow> bool" where
  "isLessOp p \<longleftrightarrow> p = FilterLt \<or> p = FilterLte"

definition isGreatOp :: "filter_op \<Rightarrow> bool" where
  "isGreatOp p \<longleftrightarrow> p = FilterGt \<or> p = FilterGte"

fun cmpResult :: "int \<Rightarrow> filter_op \<Rightarrow> bool" where
  "cmpResult c FilterEq = (c = 0)"
| "cmpResult c FilterNe = (c \<noteq> 0)"
| "cmpResult c FilterGt = (c > 0)"
| "cmpResult c FilterGte = (c \<ge> 0)"
| "cmpResult c FilterLt = (c < 0)"
| "cmpResult c FilterLte = (c \<le> 0)"
| "cmpResult c _ = False"

fun eqNeResult :: "bool \<Rightarrow> filter_op \<Rightarrow> bool" where
  "eqNeResult equal FilterEq = equal"
| "eqNeResult equal FilterNe = (\<not> equal)"
| "eqNeResult equal _ = False"

text \<open>What a comparison operator means on a linear order: the specification side.\<close>

fun rel_op :: "filter_op \<Rightarrow> 'a::linorder \<Rightarrow> 'a \<Rightarrow> bool" where
  "rel_op FilterEq a b = (a = b)"
| "rel_op FilterNe a b = (a \<noteq> b)"
| "rel_op FilterGt a b = (a > b)"
| "rel_op FilterGte a b = (a \<ge> b)"
| "rel_op FilterLt a b = (a < b)"
| "rel_op FilterLte a b = (a \<le> b)"
| "rel_op _ a b = False"

lemma cmpResult_cmp3 [simp]: "cmpResult (cmp3 a b) p = rel_op p a b"
  by (cases p) auto

lemma eqNeResult_rel: "p = FilterEq \<or> p = FilterNe \<Longrightarrow> eqNeResult (a = b) p = rel_op p a b"
  by auto

lemma leafKindOf_compare_cases:
  "leafKindOf p = Some kindCompare \<longleftrightarrow>
     p \<in> {FilterEq, FilterNe, FilterGt, FilterGte, FilterLt, FilterLte}"
  by (cases p) simp_all

lemma compare_op_cases [consumes 1, case_names Eq Ne Gt Gte Lt Lte]:
  "leafKindOf p = Some kindCompare \<Longrightarrow>
   (p = FilterEq \<Longrightarrow> P) \<Longrightarrow> (p = FilterNe \<Longrightarrow> P) \<Longrightarrow> (p = FilterGt \<Longrightarrow> P) \<Longrightarrow>
   (p = FilterGte \<Longrightarrow> P) \<Longrightarrow> (p = FilterLt \<Longrightarrow> P) \<Longrightarrow> (p = FilterLte \<Longrightarrow> P) \<Longrightarrow> P"
  by (auto simp: leafKindOf_compare_cases)

lemmas op_defs = isNegativeOp_def isComparingOp_def isLessOp_def isGreatOp_def

end
