(* ===== verification/Numeric_Bucket.thy ===== *)
theory Numeric_Bucket
  imports Data_Type Decimals Filter_Op
begin

text \<open>
  Numeric classification, admission and operand expansion (\<open>numeric.go\<close>, \<open>numeric_bucket.go\<close>,
  \<open>numeric_admit.go\<close>). A stored number is admitted by a declared type; a search operand is
  expanded into one branch per declared numeric type, rounded or folded onto the values that
  type can hold, or replaced by an existence test. The main lemma says that, for every stored
  value the type admits, the branch decides exactly the mathematical comparison of the stored
  value with the operand as written.
\<close>

subsection \<open>Classification\<close>

definition classifyInt32Min :: int where "classifyInt32Min = - 2147483648"
definition classifyInt32Max :: int where "classifyInt32Max = 2147483647"
definition classifyInt64Min :: int where "classifyInt64Min = - 9223372036854775808"
definition classifyInt64Max :: int where "classifyInt64Max = 9223372036854775807"

definition ClassifyInteger :: "int \<Rightarrow> data_type" where
  "ClassifyInteger v =
     (if v \<ge> classifyInt32Min \<and> v \<le> classifyInt32Max then Integer
      else if v \<ge> classifyInt64Min \<and> v \<le> classifyInt64Max then Long
      else if v \<ge> int128Min \<and> v \<le> int128Max then BigInteger
      else UnboundInteger)"

definition isDoubleEnvelope :: "decimal \<Rightarrow> bool" where
  "isDoubleEnvelope d \<longleftrightarrow>
     (let precision = Precision d; sc = dscale d;
          absScale = (if sc < 0 then - sc else sc)
      in precision \<le> 15 \<and> absScale \<le> 292)"

definition isInt128Decimal :: "decimal \<Rightarrow> bool" where
  "isInt128Decimal d \<longleftrightarrow>
     (let precision = Precision d; sc = dscale d in
      if sc > 18 then False
      else if precision \<le> 38 \<and> precision - sc \<le> 20 then True
      else if precision \<le> 39 \<and> precision - sc \<le> 21 then
        (case SetScale d 18 of Inl e \<Rightarrow> False | Inr aligned \<Rightarrow> IsInt128 aligned)
      else False)"

definition ClassifyDecimal :: "decimal \<Rightarrow> data_type" where
  "ClassifyDecimal d =
     (if isDoubleEnvelope d then Double
      else if isInt128Decimal d then BigDecimal else UnboundDecimal)"

subsection \<open>Bucket bounds\<close>

definition decimalFromBigInt :: "int \<Rightarrow> decimal" where
  "decimalFromBigInt b = mk_decimal b 0"

definition neg :: "decimal \<Rightarrow> decimal" where
  "neg d = mk_decimal (case unscaled d of None \<Rightarrow> 0 | Some u \<Rightarrow> - u) (dscale d)"

text \<open>Package initialisation panics on a malformed constant (\<open>None\<close>).\<close>

definition mustDecimalConst :: "string \<Rightarrow> decimal option" where
  "mustDecimalConst s = (case ParseDecimal s of Inl e \<Rightarrow> None | Inr d \<Rightarrow> Some d)"

definition doubleBucketMax :: decimal where
  "doubleBucketMax = StripTrailingZeros (the (mustDecimalConst ''9.99999999999999e292''))"

definition bd128Max :: decimal where "bd128Max = mk_decimal int128Max 18"
definition bd128Min :: decimal where "bd128Min = mk_decimal int128Min 18"

definition intBoundInteger32Min :: decimal where
  "intBoundInteger32Min = decimalFromBigInt classifyInt32Min"
definition intBoundInteger32Max :: decimal where
  "intBoundInteger32Max = decimalFromBigInt classifyInt32Max"
definition intBoundLong64Min :: decimal where
  "intBoundLong64Min = decimalFromBigInt classifyInt64Min"
definition intBoundLong64Max :: decimal where
  "intBoundLong64Max = decimalFromBigInt classifyInt64Max"
definition intBound128Min :: decimal where "intBound128Min = decimalFromBigInt int128Min"
definition intBound128Max :: decimal where "intBound128Max = decimalFromBigInt int128Max"

datatype range_pos = inRangePos | abovePos | belowPos

definition toRange :: "decimal \<Rightarrow> decimal \<Rightarrow> decimal \<Rightarrow> range_pos" where
  "toRange v floorV ceilV =
     (if Cmp v floorV < 0 then belowPos
      else if Cmp v ceilV > 0 then abovePos else inRangePos)"

subsection \<open>Operand expansion\<close>

record num_cond =
  nc_type :: data_type
  nc_value :: decimal
  nc_op :: filter_op
  nc_notnull :: bool

definition zero_decimal :: decimal where
  "zero_decimal = \<lparr>unscaled = None, dscale = 0\<rparr>"

definition num_branch :: "data_type \<Rightarrow> decimal \<Rightarrow> filter_op \<Rightarrow> num_cond" where
  "num_branch t v p = \<lparr>nc_type = t, nc_value = v, nc_op = p, nc_notnull = False\<rparr>"

definition num_notnull :: "data_type \<Rightarrow> num_cond" where
  "num_notnull t =
     \<lparr>nc_type = t, nc_value = zero_decimal, nc_op = FilterNotNull, nc_notnull = True\<rparr>"

definition roundingModeFor :: "filter_op \<Rightarrow> rounding_mode" where
  "roundingModeFor p = (if p = FilterGte \<or> p = FilterLt then roundCeiling else roundFloor)"

definition isDoubleBucketPrecise :: "decimal \<Rightarrow> bool" where
  "isDoubleBucketPrecise v \<longleftrightarrow> Precision v \<le> 15 \<and> Scale v \<le> 292"

definition roundDoubleImprecise :: "decimal \<Rightarrow> rounding_mode \<Rightarrow> decimal" where
  "roundDoubleImprecise v mode =
     (let result = (if Scale v > 292 then roundToScale v 292 mode else v)
      in if Precision result > 15 then roundToPrecision v 15 mode else result)"

definition produceDecimalInRange ::
  "data_type \<Rightarrow> decimal \<Rightarrow> filter_op \<Rightarrow> num_cond option" where
  "produceDecimalInRange t v p =
     (if t = BigDecimal then Some (num_branch BigDecimal v p)
      else if t = Double then
        (if isDoubleBucketPrecise v then Some (num_branch Double v p)
         else if isComparingOp p then
           Some (num_branch Double (roundDoubleImprecise v (roundingModeFor p)) p)
         else None)
      else None)"

definition decimalBounds :: "data_type \<Rightarrow> (decimal \<times> decimal) option" where
  "decimalBounds t =
     (if t = Double then Some (neg doubleBucketMax, doubleBucketMax)
      else if t = BigDecimal then Some (bd128Min, bd128Max) else None)"

text \<open>One iteration of the loop over the declared decimal types.\<close>

definition expandDecimalType :: "decimal \<Rightarrow> filter_op \<Rightarrow> data_type \<Rightarrow> num_cond list" where
  "expandDecimalType v p t =
     (if t = UnboundDecimal then [num_branch UnboundDecimal v p]
      else case decimalBounds t of
        None \<Rightarrow> []
      | Some (floorV, ceilV) \<Rightarrow>
          (case toRange v floorV ceilV of
             inRangePos \<Rightarrow> (case produceDecimalInRange t v p of None \<Rightarrow> [] | Some c \<Rightarrow> [c])
           | abovePos \<Rightarrow> if isLessOp p then [num_notnull t] else []
           | belowPos \<Rightarrow> if isGreatOp p then [num_notnull t] else []))"

definition expandDecimalFamily ::
  "decimal \<Rightarrow> data_type list \<Rightarrow> filter_op \<Rightarrow> num_cond list" where
  "expandDecimalFamily v decTypes p = concat (map (expandDecimalType v p) decTypes)"

definition foldToInt :: "decimal \<Rightarrow> filter_op \<Rightarrow> (decimal \<times> filter_op) option" where
  "foldToInt v p =
     (if Scale v \<le> 0 then Some (v, p)
      else if isComparingOp p then Some (roundToScale v 0 (roundingModeFor p), p)
      else None)"

definition intBounds :: "data_type \<Rightarrow> (decimal \<times> decimal) option" where
  "intBounds t =
     (if t = Integer then Some (intBoundInteger32Min, intBoundInteger32Max)
      else if t = Long then Some (intBoundLong64Min, intBoundLong64Max)
      else if t = BigInteger then Some (intBound128Min, intBound128Max) else None)"

definition expandIntType :: "decimal \<Rightarrow> filter_op \<Rightarrow> data_type \<Rightarrow> num_cond list" where
  "expandIntType intVal intOp t =
     (if t = UnboundInteger then [num_branch UnboundInteger intVal intOp]
      else case intBounds t of
        None \<Rightarrow> []
      | Some (floorV, ceilV) \<Rightarrow>
          (case toRange intVal floorV ceilV of
             inRangePos \<Rightarrow> [num_branch t intVal intOp]
           | abovePos \<Rightarrow> if isLessOp intOp then [num_notnull t] else []
           | belowPos \<Rightarrow> if isGreatOp intOp then [num_notnull t] else []))"

definition expandIntFamily ::
  "decimal \<Rightarrow> data_type list \<Rightarrow> filter_op \<Rightarrow> num_cond list" where
  "expandIntFamily v intTypes p =
     (case foldToInt v p of
        None \<Rightarrow> []
      | Some (intVal, intOp) \<Rightarrow> concat (map (expandIntType intVal intOp) intTypes))"

definition ExpandNumericOperand ::
  "decimal \<Rightarrow> data_type list \<Rightarrow> filter_op \<Rightarrow> num_cond list" where
  "ExpandNumericOperand v declaredNumeric p =
     (let intTypes = filter (\<lambda>t. NumericFamily t = 1) declaredNumeric;
          decTypes = filter (\<lambda>t. NumericFamily t = 2) declaredNumeric
      in expandDecimalFamily v decTypes p @ expandIntFamily v intTypes p)"

subsection \<open>Admission\<close>

definition admitsWholeInRange :: "decimal \<Rightarrow> decimal \<Rightarrow> decimal \<Rightarrow> bool" where
  "admitsWholeInRange stripped_d floorV ceilV \<longleftrightarrow>
     \<not> Scale stripped_d > 0 \<and> toRange stripped_d floorV ceilV = inRangePos"

definition AdmitsNumeric :: "data_type \<Rightarrow> decimal \<Rightarrow> bool" where
  "AdmitsNumeric t v \<longleftrightarrow>
     (if \<not> IsNumeric t then False
      else
        (let s = StripTrailingZeros v in
         case t of
           UnboundDecimal \<Rightarrow> True
         | UnboundInteger \<Rightarrow> Scale s \<le> 0
         | Integer \<Rightarrow> admitsWholeInRange s intBoundInteger32Min intBoundInteger32Max
         | Long \<Rightarrow> admitsWholeInRange s intBoundLong64Min intBoundLong64Max
         | BigInteger \<Rightarrow> admitsWholeInRange s intBound128Min intBound128Max
         | Double \<Rightarrow>
             (if toRange s (neg doubleBucketMax) doubleBucketMax \<noteq> inRangePos then False
              else isDoubleBucketPrecise s)
         | BigDecimal \<Rightarrow> toRange s bd128Min bd128Max = inRangePos
         | _ \<Rightarrow> False))"

subsection \<open>Coefficient sizes\<close>

lemma bit_len_le: "n < 2 ^ k \<Longrightarrow> bit_len n \<le> k"
proof (cases "n = 0")
  case False
  assume "n < 2 ^ k"
  moreover have "2 ^ (bit_len n - 1) \<le> n" using bit_len_ge [of n] False by simp
  ultimately have "(2::nat) ^ (bit_len n - 1) < 2 ^ k" by linarith
  then have "bit_len n - 1 < k" by (rule power_less_imp_less_exp [rotated]) simp
  then show ?thesis by simp
qed simp

lemma bit_len_mono: "m \<le> n \<Longrightarrow> bit_len m \<le> bit_len n"
  using bit_len_lt [of n] by (intro bit_len_le) linarith

lemma decimal_ok_mono:
  "decimal_ok d \<Longrightarrow> \<bar>Unscaled e\<bar> \<le> \<bar>Unscaled d\<bar> \<Longrightarrow> scale_ok e \<Longrightarrow> decimal_ok e"
  using bit_len_mono [of "nat \<bar>Unscaled e\<bar>" "nat \<bar>Unscaled d\<bar>"]
  by (simp add: decimal_ok_def nat_mono)

lemma decimal_ok_bits:
  "in_i32 (dscale d) \<Longrightarrow> \<bar>Unscaled d\<bar> < 2 ^ 200 \<Longrightarrow> decimal_ok d"
proof -
  assume s: "in_i32 (dscale d)" and u: "\<bar>Unscaled d\<bar> < 2 ^ 200"
  have "nat \<bar>Unscaled d\<bar> < 2 ^ 200" using u by simp
  then have "bit_len (nat \<bar>Unscaled d\<bar>) \<le> 200" by (rule bit_len_le)
  then show ?thesis using s by (simp add: decimal_ok_def scale_ok_def)
qed

lemma decimal_ok_strip: "decimal_ok d \<Longrightarrow> decimal_ok (StripTrailingZeros d)"
  using StripTrailingZeros_spec [of d] decimal_ok_mono [of d "StripTrailingZeros d"]
  by (simp add: decimal_ok_def stripped_def)

lemma round_int_abs_le: "\<bar>x\<bar> \<le> of_int k \<Longrightarrow> \<bar>round_int mode x\<bar> \<le> k"
  by (cases mode) (auto simp: round_int_def abs_le_iff ceiling_le_iff le_floor_iff
      le_ceiling_iff floor_le_iff minus_le_iff)

lemma decimal_ok_roundToScale:
  assumes d: "decimal_ok d" and n: "n < dscale d" "in_i32 n"
  shows "decimal_ok (roundToScale d n mode)"
proof -
  have "\<bar>dval d * 10 powi n\<bar> = of_int \<bar>Unscaled d\<bar> * 10 powi (n - dscale d)"
    by (simp add: dval_scaled abs_mult)
  also have "\<dots> \<le> of_int \<bar>Unscaled d\<bar> * 10 powi 0"
    using n by (intro mult_left_mono) (simp_all del: power_int_0_right)
  finally have "\<bar>Unscaled (roundToScale d n mode)\<bar> \<le> \<bar>Unscaled d\<bar>"
    by (simp add: roundToScale_spec round_int_abs_le)
  then show ?thesis using d n(2)
    by (rule_tac decimal_ok_mono [OF d]) (simp_all add: roundToScale_spec scale_ok_def)
qed

subsection \<open>Stripped decimals are unique\<close>

text \<open>Two stripped decimals of the same value are the same decimal.\<close>

lemma pow10_dvd: "0 < k \<Longrightarrow> (u * 10 ^ k) mod 10 = (0::int)"
  by (cases k) (simp_all add: mult.left_commute [of u])

lemma stripped_unique_aux:
  assumes "stripped d" and "stripped e" and "dval d = dval e" and "dscale d \<le> dscale e"
  shows "dscale d = dscale e"
proof (rule ccontr)
  assume ne: "dscale d \<noteq> dscale e"
  have nz: "Unscaled e \<noteq> 0" "Unscaled d \<noteq> 0"
    using ne assms by (auto simp: stripped_def dval_def)
  let ?k = "nat (dscale e - dscale d)"
  have k: "- dscale d = int ?k + - dscale e" "0 < ?k" using assms(4) ne by simp_all
  have "(of_int (Unscaled d * 10 ^ ?k) :: rat) * 10 powi (- dscale e)
      = of_int (Unscaled e) * 10 powi (- dscale e)"
    using assms(3) pow10_split [OF k(1)] by (simp add: dval_def)
  then have "Unscaled d * 10 ^ ?k = Unscaled e"
    by (simp only: mult_cancel_right of_int_eq_iff) simp
  then have "Unscaled e mod 10 = 0" using k(2) pow10_dvd [of ?k "Unscaled d"] by simp
  then have "dscale e = min_i32" using assms(2) nz by (simp add: stripped_def)
  then show False using assms(1,4) ne by (simp add: stripped_def scale_ok_def in_i32_def)
qed

lemma stripped_unique:
  assumes "stripped d" and "stripped e" and "dval d = dval e"
  shows "d = e"
proof -
  have s: "dscale d = dscale e"
    using stripped_unique_aux [OF assms] stripped_unique_aux [OF assms(2,1) assms(3) [symmetric]]
    by linarith
  then have "Unscaled d = Unscaled e" using assms(3) dval_eq_same_scale by blast
  with s assms show ?thesis by (cases d; cases e) (auto simp: stripped_def Unscaled_def)
qed

lemma stripped_StripTrailingZeros: "scale_ok d \<Longrightarrow> stripped (StripTrailingZeros d)"
  and dval_StripTrailingZeros: "scale_ok d \<Longrightarrow> dval (StripTrailingZeros d) = dval d"
  using StripTrailingZeros_spec by blast+

lemma stripped_whole:
  assumes "stripped v" and "on_grid 0 (dval v)"
  shows "dscale v \<le> 0"
proof (rule ccontr)
  assume s: "\<not> dscale v \<le> 0"
  from assms(2) obtain k where k: "dval v = of_int k" by (auto simp: on_grid_def)
  have nz: "Unscaled v \<noteq> 0" using s assms(1) by (auto simp: stripped_def)
  have "(10::rat) powi 0 = 10 ^ nat (dscale v) * 10 powi (- dscale v)"
    using s by (intro pow10_split) simp
  then have one: "(10::rat) ^ nat (dscale v) * 10 powi (- dscale v) = 1" by simp
  have "(of_int (Unscaled v) :: rat) * 10 powi (- dscale v)
      = of_int (k * 10 ^ nat (dscale v)) * 10 powi (- dscale v)"
    using k by (simp add: dval_def mult.assoc one)
  then have "Unscaled v = k * 10 ^ nat (dscale v)" by (simp only: mult_cancel_right of_int_eq_iff) simp
  then have "Unscaled v mod 10 = 0" using s pow10_dvd [of "nat (dscale v)" k] by simp
  then show False using assms(1) nz s by (auto simp: stripped_def min_i32_def)
qed

subsection \<open>Bounds\<close>

lemma doubleBucketMax_eq: "doubleBucketMax = mk_decimal 999999999999999 (- 278)"
  by (simp only: doubleBucketMax_def) code_simp

lemma neg_doubleBucketMax_eq: "neg doubleBucketMax = mk_decimal (- 999999999999999) (- 278)"
  by (simp add: neg_def doubleBucketMax_eq)

lemmas bound_defs =
  doubleBucketMax_eq neg_def bd128Max_def bd128Min_def
  intBoundInteger32Min_def intBoundInteger32Max_def intBoundLong64Min_def intBoundLong64Max_def
  intBound128Min_def intBound128Max_def decimalFromBigInt_def
  classifyInt32Min_def classifyInt32Max_def classifyInt64Min_def classifyInt64Max_def
  int128Min_def int128Max_def

lemma bounds_ok:
  "decimalBounds t = Some (f, c) \<Longrightarrow> decimal_ok f \<and> decimal_ok c"
  "intBounds t = Some (f, c) \<Longrightarrow> decimal_ok f \<and> decimal_ok c"
  by (auto simp: decimalBounds_def intBounds_def bound_defs in_i32_iff
      split: if_splits intro!: decimal_ok_bits)

lemma toRange_spec:
  assumes "decimal_ok v" and "decimal_ok f" and "decimal_ok c"
  shows "toRange v f c = (if dval v < dval f then belowPos
    else if dval v > dval c then abovePos else inRangePos)"
  using assms by (simp add: toRange_def dec.compare_signs)

subsection \<open>Rounding the operand\<close>

text \<open>Rounding in the direction of the operator does not change which grid values satisfy it.\<close>

lemma rel_op_round_grid:
  assumes p: "isComparingOp p" and g: "on_grid n v"
  shows "rel_op p v (round_grid (roundingModeFor p) n x) = rel_op p v x"
  using p grid_le_ceiling [OF g, of x] grid_floor_le [OF g, of x]
  by (auto simp: isComparingOp_def roundingModeFor_def)

lemma round_grid_ge:
  assumes g: "on_grid n b" and b: "b \<le> x"
  shows "b \<le> round_grid mode n x"
  using grid_floor_le [OF g, THEN iffD1, OF b] round_grid_ceiling_ge [of x n] b
  by (cases mode) auto

lemma round_grid_le:
  assumes g: "on_grid n b" and b: "x \<le> b"
  shows "round_grid mode n x \<le> b"
  using grid_le_ceiling [OF g, THEN iffD1, OF b] round_grid_floor_le [of n x] b
  by (cases mode) auto

text \<open>A value below the leading digit of the operand is on the same side of it and its rounding.\<close>

lemma rel_op_below_leading:
  assumes p: "isComparingOp p" and g: "on_grid n b" and x: "b \<le> \<bar>x\<bar>" and v: "\<bar>v\<bar> < b"
  shows "rel_op p v (round_grid mode n x) = rel_op p v x"
proof -
  let ?r = "round_grid mode n x"
  have "v < x \<and> v < ?r \<or> x < v \<and> ?r < v"
  proof (cases "b \<le> x")
    case True
    then show ?thesis using round_grid_ge [OF g, of x mode] v by auto
  next
    case False
    then have "x \<le> - b" using x by linarith
    moreover have "on_grid n (- b)" using g by (simp add: on_grid_minus)
    ultimately show ?thesis using round_grid_le [of n "- b" x mode] v by linarith
  qed
  with p show ?thesis by (auto simp: isComparingOp_def)
qed

text \<open>What the DOUBLE bucket can hold: at most 15 significant digits, scale at most 292.\<close>

definition double_digits :: "decimal \<Rightarrow> bool" where
  "double_digits d \<longleftrightarrow> (\<exists>s. dval s = dval d \<and> Precision s \<le> 15 \<and> dscale s \<le> 292)"

lemma rel_op_round_precision:
  assumes p: "isComparingOp p" and d: "double_digits d" and nz: "Unscaled v \<noteq> 0"
  shows "rel_op p (dval d) (round_grid (roundingModeFor p) (15 - adj v) (dval v))
    = rel_op p (dval d) (dval v)"
proof -
  from d obtain s where s: "dval s = dval d" "Precision s \<le> 15" by (auto simp: double_digits_def)
  show ?thesis
  proof (cases "adj v \<le> adj s \<or> Unscaled s = 0")
    case True
    have "on_grid (15 - adj v) (dval s)"
    proof (cases "Unscaled s = 0")
      case True
      then show ?thesis by (auto simp: on_grid_def dval_def)
    next
      case False
      with \<open>adj v \<le> adj s \<or> Unscaled s = 0\<close> s(2) have "dscale s \<le> 15 - adj v" by (auto simp: adj_def)
      then show ?thesis by (rule on_grid_dval)
    qed
    then show ?thesis using rel_op_round_grid [OF p] s(1) by simp
  next
    case False
    have "\<bar>dval d\<bar> < 10 powi (adj s)" using abs_dval_bounds(2) [of s] False s(1) by simp
    also have "\<dots> \<le> 10 powi (adj v - 1)" using False by simp
    finally show ?thesis
      using abs_dval_bounds(1) [OF nz] by (intro rel_op_below_leading [OF p on_grid_pow10]) auto
  qed
qed

lemma Precision_mono:
  "\<bar>Unscaled d\<bar> \<le> \<bar>Unscaled e\<bar> \<Longrightarrow> Precision d \<le> Precision e"
  using length_dec_str_mono [of "nat \<bar>Unscaled d\<bar>" "nat \<bar>Unscaled e\<bar>"] Precision_nz [of d]
    Precision_nz [of e] Precision_pos [of e] Sign_zero_iff [of d]
  by (cases "Unscaled d = 0") (auto simp: Precision_def nat_mono)

lemma roundToScale_unscaled_le:
  assumes "n < dscale d"
  shows "\<bar>Unscaled (roundToScale d n mode)\<bar> \<le> \<bar>Unscaled d\<bar>"
proof -
  have "\<bar>dval d * 10 powi n\<bar> = of_int \<bar>Unscaled d\<bar> * 10 powi (n - dscale d)"
    by (simp add: dval_scaled abs_mult)
  also have "\<dots> \<le> of_int \<bar>Unscaled d\<bar> * 10 powi 0"
    using assms by (intro mult_left_mono) (simp_all del: power_int_0_right)
  finally show ?thesis by (simp add: roundToScale_spec round_int_abs_le)
qed

text \<open>
  \<open>roundDoubleImprecise\<close> never panics on an operand inside the DOUBLE range, and its result
  orders every DOUBLE value as the operand itself does.
\<close>

lemma Precision_le_unscaled: "Precision d \<le> 15 \<Longrightarrow> \<bar>Unscaled d\<bar> < 2 ^ 200"
proof -
  assume "Precision d \<le> 15"
  then have "(10::int) ^ nat (Precision d) \<le> 10 ^ 15" by (intro power_increasing) auto
  then show ?thesis using abs_unscaled_lt_pow [of d] by simp
qed

lemma roundDoubleImprecise_spec:
  assumes ok: "decimal_ok v" and rng: "\<bar>dval v\<bar> \<le> dval doubleBucketMax"
    and imp: "\<not> isDoubleBucketPrecise v"
  shows "decimal_ok (roundDoubleImprecise v mode)
    \<and> (dval (roundDoubleImprecise v mode) = round_grid mode 292 (dval v)
       \<or> dval (roundDoubleImprecise v mode) = round_grid mode (15 - adj v) (dval v)
          \<and> Unscaled v \<noteq> 0)"
proof -
  have sv: "in_i32 (dscale v)" using ok by (simp add: decimal_ok_def scale_ok_def)
  let ?m = "if Scale v > 292 then roundToScale v 292 mode else v"
  have s: "Scale v = dscale v" by (simp add: Scale_def)
  show ?thesis
  proof (cases "Precision ?m > 15")
    case False
    then have r: "roundDoubleImprecise v mode = roundToScale v 292 mode" "dscale v > 292"
      using imp by (auto simp: roundDoubleImprecise_def isDoubleBucketPrecise_def s split: if_splits)
    then show ?thesis
      using decimal_ok_roundToScale [OF ok r(2)] by (simp add: dval_roundToScale in_i32_iff)
  next
    case True
    have pv: "15 < Precision v"
      using True Precision_mono [OF roundToScale_unscaled_le [of 292 v mode]]
      by (auto simp: s split: if_splits)
    then have nz: "Unscaled v \<noteq> 0"
      using Sign_zero_iff [of v] by (auto simp: Precision_def split: if_splits)
    have "10 powi (adj v - 1) \<le> \<bar>dval v\<bar>" using nz by (rule abs_dval_bounds)
    also have "\<dots> \<le> dval doubleBucketMax" by (rule rng)
    also have "\<dots> < 10 powi 293"
      using pow10_split [of 293 15 278] by (simp add: doubleBucketMax_eq)
    finally have "adj v - 1 < 293" by (simp only: pow10_less_iff)
  then have adj: "adj v \<le> 293" by simp
    have i: "in_i32 (dscale v - (Precision v - 15) - 1)"
      using adj pv sv by (simp add: in_i32_iff adj_def)
    obtain r where r: "roundToPrecision_run v 15 mode = Some r" "Precision r \<le> 15"
      "dval r = round_grid mode (15 - adj v) (dval v)"
      "15 - adj v - 1 \<le> dscale r" "dscale r \<le> 15 - adj v"
      using roundToPrecision_run_spec [OF _ pv sv i, of mode] by auto
    have eq: "roundDoubleImprecise v mode = r"
      using True r(1) by (simp add: roundDoubleImprecise_def Let_def roundToPrecision_def)
    have "15 - adj v \<le> dscale v" using pv by (simp add: adj_def)
    then have "decimal_ok r"
      using r(2,4,5) adj sv by (intro decimal_ok_bits Precision_le_unscaled) (simp_all add: in_i32_iff)
    then show ?thesis using r(3) nz eq by simp
  qed
qed

lemma rel_op_roundDouble:
  assumes ok: "decimal_ok v" and rng: "\<bar>dval v\<bar> \<le> dval doubleBucketMax"
    and imp: "\<not> isDoubleBucketPrecise v" and p: "isComparingOp p" and d: "double_digits d"
  shows "rel_op p (dval d) (dval (roundDoubleImprecise v (roundingModeFor p)))
    = rel_op p (dval d) (dval v)"
proof -
  from d obtain s where "dval s = dval d" "dscale s \<le> 292" by (auto simp: double_digits_def)
  then have "on_grid 292 (dval d)" using on_grid_dval [of s 292] by simp
  then show ?thesis
    using roundDoubleImprecise_spec [OF ok rng imp, of "roundingModeFor p"]
      rel_op_round_grid [OF p] rel_op_round_precision [OF p d] by auto
qed

subsection \<open>The branches decide the comparison\<close>

text \<open>
  \<open>decides bs p d x\<close>: on the stored value \<open>d\<close> each branch of \<open>bs\<close> answers \<open>d p x\<close>, and having no
  branch is right because then the answer is the operator's polarity.
\<close>

definition branch_answer :: "num_cond \<Rightarrow> decimal \<Rightarrow> bool" where
  "branch_answer b d = (nc_notnull b \<or> cmpResult (Cmp d (nc_value b)) (nc_op b))"

definition decides :: "num_cond list \<Rightarrow> filter_op \<Rightarrow> decimal \<Rightarrow> rat \<Rightarrow> bool" where
  "decides bs p d x \<longleftrightarrow>
     (bs = [] \<longrightarrow> isNegativeOp p = rel_op p (dval d) x)
     \<and> (\<forall>b \<in> set bs. branch_answer b d = rel_op p (dval d) x)"

lemma decides_Nil: "isNegativeOp p = rel_op p (dval d) x \<Longrightarrow> decides [] p d x"
  by (simp add: decides_def)

lemma decides_branch:
  "decimal_ok d \<Longrightarrow> decimal_ok w \<Longrightarrow> rel_op p (dval d) (dval w) = rel_op p (dval d) x
    \<Longrightarrow> decides [num_branch t w p] p d x"
  by (simp add: decides_def branch_answer_def num_branch_def dec.compare_key)

lemma decides_notnull: "rel_op p (dval d) x \<Longrightarrow> decides [num_notnull t] p d x"
  by (simp add: decides_def branch_answer_def num_notnull_def)

text \<open>Outside the range every stored value of the type is on one known side.\<close>

lemma decides_above:
  "leafKindOf p = Some kindCompare \<Longrightarrow> dval d < x \<Longrightarrow>
   decides (if isLessOp p then [num_notnull t] else []) p d x"
  by (cases rule: compare_op_cases; assumption?)
    (auto intro!: decides_notnull decides_Nil simp: op_defs)

lemma decides_below:
  "leafKindOf p = Some kindCompare \<Longrightarrow> x < dval d \<Longrightarrow>
   decides (if isGreatOp p then [num_notnull t] else []) p d x"
  by (cases rule: compare_op_cases; assumption?)
    (auto intro!: decides_notnull decides_Nil simp: op_defs)

text \<open>A dropped EQUALS or NOT_EQUAL branch is right when the stored value cannot equal the operand.\<close>

lemma decides_dropped:
  "leafKindOf p = Some kindCompare \<Longrightarrow> \<not> isComparingOp p \<Longrightarrow> dval d \<noteq> x \<Longrightarrow> decides [] p d x"
  by (cases rule: compare_op_cases; assumption?) (auto intro!: decides_Nil simp: op_defs)

text \<open>What admission gives for a stored value.\<close>

lemma AdmitsNumeric_simps:
  "AdmitsNumeric UnboundDecimal d = True"
  "AdmitsNumeric UnboundInteger d = (Scale (StripTrailingZeros d) \<le> 0)"
  "AdmitsNumeric Integer d =
     admitsWholeInRange (StripTrailingZeros d) intBoundInteger32Min intBoundInteger32Max"
  "AdmitsNumeric Long d =
     admitsWholeInRange (StripTrailingZeros d) intBoundLong64Min intBoundLong64Max"
  "AdmitsNumeric BigInteger d =
     admitsWholeInRange (StripTrailingZeros d) intBound128Min intBound128Max"
  "AdmitsNumeric Double d =
     (toRange (StripTrailingZeros d) (neg doubleBucketMax) doubleBucketMax = inRangePos
      \<and> isDoubleBucketPrecise (StripTrailingZeros d))"
  "AdmitsNumeric BigDecimal d = (toRange (StripTrailingZeros d) bd128Min bd128Max = inRangePos)"
  by (simp_all add: AdmitsNumeric_def IsNumeric_def Let_def)

lemma AdmitsNumeric_IsNumeric: "AdmitsNumeric t d \<Longrightarrow> IsNumeric t"
  by (simp add: AdmitsNumeric_def split: if_splits)

lemma toRange_in:
  "decimal_ok v \<Longrightarrow> decimal_ok f \<Longrightarrow> decimal_ok c \<Longrightarrow>
   toRange v f c = inRangePos \<longleftrightarrow> dval f \<le> dval v \<and> dval v \<le> dval c"
  by (auto simp: toRange_spec)

lemma admits_bounds:
  assumes d: "decimal_ok d" and a: "AdmitsNumeric t d"
    and b: "decimalBounds t = Some (f, c) \<or> intBounds t = Some (f, c)"
  shows "dval f \<le> dval d \<and> dval d \<le> dval c"
proof -
  have ok: "decimal_ok f" "decimal_ok c" using b bounds_ok by blast+
  have s: "decimal_ok (StripTrailingZeros d)" using d by (rule decimal_ok_strip)
  have "toRange (StripTrailingZeros d) f c = inRangePos"
    using a b by (cases t) (auto simp: AdmitsNumeric_simps decimalBounds_def intBounds_def
        admitsWholeInRange_def)
  then show ?thesis
    using toRange_in [OF s ok] dval_StripTrailingZeros [of d] d by (simp add: decimal_ok_def)
qed

lemma admits_whole:
  assumes d: "decimal_ok d" and a: "AdmitsNumeric t d" and t: "NumericFamily t = 1"
  shows "on_grid 0 (dval d)"
proof -
  have "dscale (StripTrailingZeros d) \<le> 0"
    using a t by (cases t) (auto simp: AdmitsNumeric_simps admitsWholeInRange_def Scale_def)
  then show ?thesis
    using on_grid_dval [of "StripTrailingZeros d" 0] dval_StripTrailingZeros [of d] d
    by (simp add: decimal_ok_def)
qed

lemma admits_double:
  assumes d: "decimal_ok d" and a: "AdmitsNumeric Double d"
  shows "isDoubleBucketPrecise (StripTrailingZeros d) \<and> double_digits d"
proof -
  have "isDoubleBucketPrecise (StripTrailingZeros d)"
    using a by (simp add: AdmitsNumeric_simps)
  then show ?thesis using dval_StripTrailingZeros [of d] d
    unfolding double_digits_def by (auto simp: isDoubleBucketPrecise_def Scale_def decimal_ok_def)
qed

lemma double_range_abs:
  "dval (neg doubleBucketMax) \<le> x \<Longrightarrow> x \<le> dval doubleBucketMax \<Longrightarrow> \<bar>x\<bar> \<le> dval doubleBucketMax"
proof -
  have "dval (neg doubleBucketMax) = - dval doubleBucketMax"
    unfolding neg_def doubleBucketMax_eq by (simp add: dval_def mk_decimal_def Unscaled_def)
  then show "dval (neg doubleBucketMax) \<le> x \<Longrightarrow> x \<le> dval doubleBucketMax \<Longrightarrow> ?thesis" by simp
qed

text \<open>One declared decimal type.\<close>

text \<open>An operand no double holds exactly: an ordering operator is rounded inwards, an equality dropped.\<close>

lemma imprecise_double_decides:
  assumes d: "decimal_ok d" and v: "decimal_ok v" "stripped v" and a: "AdmitsNumeric Double d"
    and p: "leafKindOf p = Some kindCompare" and imp: "\<not> isDoubleBucketPrecise v"
    and rng: "\<bar>dval v\<bar> \<le> dval doubleBucketMax"
  shows "decides (case produceDecimalInRange Double v p of None \<Rightarrow> [] | Some c \<Rightarrow> [c]) p d (dval v)"
proof -
  have dd: "isDoubleBucketPrecise (StripTrailingZeros d)" "double_digits d" using admits_double [OF d] a by auto
  show ?thesis
  proof (cases "isComparingOp p")
    case True
    then show ?thesis
      using decides_branch [OF d conjunct1 [OF roundDoubleImprecise_spec [OF v(1) rng imp]]
          rel_op_roundDouble [OF v(1) rng imp True dd(2)]] imp
      by (simp add: produceDecimalInRange_def)
  next
    case False
    have "dval d \<noteq> dval v"
    proof
      assume "dval d = dval v"
      then have "StripTrailingZeros d = v"
        using stripped_unique [OF stripped_StripTrailingZeros v(2)] dval_StripTrailingZeros d
        by (simp add: decimal_ok_def)
      then show False using dd(1) imp by simp
    qed
    then show ?thesis using decides_dropped [OF p False] imp False by (simp add: produceDecimalInRange_def)
  qed
qed

lemma expandDecimalType_decides:
  assumes d: "decimal_ok d" and v: "decimal_ok v" "stripped v" and a: "AdmitsNumeric t d"
    and p: "leafKindOf p = Some kindCompare" and t: "NumericFamily t = 2"
  shows "decides (expandDecimalType v p t) p d (dval v)"
proof (cases "t = UnboundDecimal")
  case True
  then show ?thesis using decides_branch [OF d v(1)] by (simp add: expandDecimalType_def)
next
  case False
  then obtain f c where b: "decimalBounds t = Some (f, c)"
    using t by (cases t) (auto simp: decimalBounds_def)
  note ok = bounds_ok(1) [OF b]
  have r: "dval f \<le> dval d" "dval d \<le> dval c" using admits_bounds [OF d a, of f c] b by auto
  note e = expandDecimalType_def toRange_spec [OF v(1) conjunct1 [OF ok] conjunct2 [OF ok]] b False
  consider (below) "dval v < dval f" | (above) "dval v > dval c" "\<not> dval v < dval f"
    | (inr) "dval f \<le> dval v" "dval v \<le> dval c" by linarith
  then show ?thesis
  proof cases
    case below
    then show ?thesis using decides_below [OF p, of "dval v" d t] r by (simp add: e)
  next
    case above
    then show ?thesis using decides_above [OF p, of d "dval v" t] r by (simp add: e)
  next
    case inr
    then have ex: "expandDecimalType v p t = (case produceDecimalInRange t v p of None \<Rightarrow> [] | Some c \<Rightarrow> [c])"
      by (simp add: e)
    have td: "t = BigDecimal \<or> t = Double" using b by (auto simp: decimalBounds_def split: if_splits)
    show ?thesis
    proof (cases "t = BigDecimal \<or> isDoubleBucketPrecise v")
      case True
      then show ?thesis using td decides_branch [OF d v(1)] by (auto simp: ex produceDecimalInRange_def)
    next
      case False
      then have t: "t = Double" "\<not> isDoubleBucketPrecise v" using td by auto
      then have "f = neg doubleBucketMax" "c = doubleBucketMax" using b by (simp_all add: decimalBounds_def)
      then have "\<bar>dval v\<bar> \<le> dval doubleBucketMax" using inr double_range_abs by blast
      then show ?thesis unfolding ex unfolding t(1) using imprecise_double_decides [OF d v _ p t(2)] a t(1) by simp
    qed
  qed
qed

text \<open>One declared integer type, from the folded operand.\<close>

lemma foldToInt_fraction:
  assumes "foldToInt v p = None" and "stripped v" and "on_grid 0 x"
  shows "x \<noteq> dval v \<and> \<not> isComparingOp p"
  using assms stripped_whole [of v] by (auto simp: foldToInt_def Scale_def split: if_splits)

lemma foldToInt_some:
  assumes f: "foldToInt v p = Some (w, q)" and v: "decimal_ok v" and g: "on_grid 0 x"
  shows "q = p \<and> decimal_ok w \<and> rel_op p x (dval w) = rel_op p x (dval v)"
  using f rel_op_round_grid [OF _ g, of p] decimal_ok_roundToScale [OF v, of 0]
    v
  by (auto simp: foldToInt_def Scale_def dval_roundToScale in_i32_iff split: if_splits)

lemma decides_cong:
  "rel_op p (dval d) x = rel_op p (dval d) y \<Longrightarrow> decides bs p d x = decides bs p d y"
  by (simp add: decides_def)

lemma expandIntType_decides:
  assumes d: "decimal_ok d" and w: "decimal_ok w" and a: "AdmitsNumeric t d"
    and p: "leafKindOf p = Some kindCompare" and t: "NumericFamily t = 1"
  shows "decides (expandIntType w p t) p d (dval w)"
proof (cases "t = UnboundInteger")
  case True
  then show ?thesis using decides_branch [OF d w] by (simp add: expandIntType_def)
next
  case False
  then obtain f c where b: "intBounds t = Some (f, c)"
    using t by (cases t) (auto simp: intBounds_def)
  note ok = bounds_ok(2) [OF b]
  have r: "dval f \<le> dval d" "dval d \<le> dval c" using admits_bounds [OF d a, of f c] b by auto
  note e = expandIntType_def toRange_spec [OF w conjunct1 [OF ok] conjunct2 [OF ok]] b False
  show ?thesis
    using decides_below [OF p, of "dval w" d t] decides_above [OF p, of d "dval w" t]
      decides_branch [OF d w] r by (auto simp: e)
qed

lemma produceDecimalInRange_type: "produceDecimalInRange t v p = Some b \<Longrightarrow> nc_type b = t"
  by (auto simp: produceDecimalInRange_def num_branch_def split: if_splits)

lemma branch_type_decimal: "b \<in> set (expandDecimalType v p t) \<Longrightarrow> nc_type b = t"
proof (cases "decimalBounds t")
  case (Some fc)
  then show "b \<in> set (expandDecimalType v p t) \<Longrightarrow> nc_type b = t"
    by (cases fc; cases "toRange v (fst fc) (snd fc)")
      (auto simp: expandDecimalType_def num_branch_def num_notnull_def produceDecimalInRange_type
        split: if_splits option.splits)
qed (auto simp: expandDecimalType_def num_branch_def split: if_splits)

lemma branch_type_int: "b \<in> set (expandIntType v p t) \<Longrightarrow> nc_type b = t"
proof (cases "intBounds t")
  case (Some fc)
  then show "b \<in> set (expandIntType v p t) \<Longrightarrow> nc_type b = t"
    by (cases fc; cases "toRange v (fst fc) (snd fc)")
      (auto simp: expandIntType_def num_branch_def num_notnull_def split: if_splits)
qed (auto simp: expandIntType_def num_branch_def split: if_splits)

text \<open>The branches one declared type contributes to \<open>ExpandNumericOperand\<close>.\<close>

definition type_branches :: "decimal \<Rightarrow> filter_op \<Rightarrow> data_type \<Rightarrow> num_cond list" where
  "type_branches v p t =
     (if NumericFamily t = 1 then
        (case foldToInt v p of None \<Rightarrow> [] | Some (w, q) \<Rightarrow> expandIntType w q t)
      else expandDecimalType v p t)"

lemma type_branches_decide:
  assumes d: "decimal_ok d" and v: "decimal_ok v" "stripped v" and a: "AdmitsNumeric t d"
    and p: "leafKindOf p = Some kindCompare"
  shows "decides (type_branches v p t) p d (dval v)"
proof (cases "NumericFamily t = 1")
  case True
  note g = admits_whole [OF d a True]
  show ?thesis
  proof (cases "foldToInt v p")
    case None
    then show ?thesis using foldToInt_fraction [OF None v(2) g] decides_dropped [OF p] True
      by (simp add: type_branches_def)
  next
    case (Some wq)
    then obtain w where w: "foldToInt v p = Some (w, p)" "decimal_ok w"
      "rel_op p (dval d) (dval w) = rel_op p (dval d) (dval v)"
      using foldToInt_some [OF _ v(1) g] by (cases wq) auto
    then show ?thesis
      using expandIntType_decides [OF d w(2) a p True] decides_cong [OF w(3)] True
      by (simp add: type_branches_def)
  qed
next
  case False
  then have "NumericFamily t = 2"
    using AdmitsNumeric_IsNumeric [OF a] by (cases t) (simp_all add: IsNumeric_def)
  then show ?thesis using expandDecimalType_decides [OF d v a p] by (simp add: type_branches_def)
qed

lemma type_branches_type: "b \<in> set (type_branches v p t) \<Longrightarrow> nc_type b = t"
  by (auto simp: type_branches_def branch_type_decimal branch_type_int split: if_splits option.splits)

lemma set_expandIntFamily:
  "set (expandIntFamily v (filter (\<lambda>t. NumericFamily t = 1) ts) p) =
   (\<Union>t \<in> {t \<in> set ts. NumericFamily t = 1}. set (type_branches v p t))"
  by (cases "foldToInt v p") (auto simp: expandIntFamily_def type_branches_def)

lemma set_expandDecimalFamily:
  "set (expandDecimalFamily v (filter (\<lambda>t. NumericFamily t = 2) ts) p) =
   (\<Union>t \<in> {t \<in> set ts. NumericFamily t = 2}. set (type_branches v p t))"
  by (auto simp: expandDecimalFamily_def type_branches_def)

lemma IsNumeric_family: "IsNumeric t \<Longrightarrow> NumericFamily t = 1 \<or> NumericFamily t = 2"
  by (cases t) (simp_all add: IsNumeric_def)

lemma set_ExpandNumericOperand:
  assumes n: "\<forall>t \<in> set ts. IsNumeric t"
  shows "set (ExpandNumericOperand v ts p) = (\<Union>t \<in> set ts. set (type_branches v p t))"
proof -
  have "NumericFamily t = 1 \<or> NumericFamily t = 2" if "t \<in> set ts" for t
    using that n IsNumeric_family by blast
  then have "set ts = {t \<in> set ts. NumericFamily t = 2} \<union> {t \<in> set ts. NumericFamily t = 1}"
    by auto
  then show ?thesis
    unfolding ExpandNumericOperand_def Let_def set_append set_expandIntFamily set_expandDecimalFamily
    by (metis UN_Un)
qed

subsection \<open>Classification agrees with admission\<close>

lemma decimalFromBigInt_strip:
  "stripped (StripTrailingZeros (decimalFromBigInt v))
   \<and> dval (StripTrailingZeros (decimalFromBigInt v)) = of_int v"
  using StripTrailingZeros_spec [of "decimalFromBigInt v"]
  by (simp add: decimalFromBigInt_def scale_ok_def in_i32_iff)

lemma admitsWhole_iff:
  assumes d: "decimal_ok d" and ok: "decimal_ok f" "decimal_ok c"
  shows "admitsWholeInRange (StripTrailingZeros d) f c \<longleftrightarrow>
    on_grid 0 (dval d) \<and> dval f \<le> dval d \<and> dval d \<le> dval c"
proof -
  have s: "stripped (StripTrailingZeros d)" "dval (StripTrailingZeros d) = dval d"
    using d stripped_StripTrailingZeros dval_StripTrailingZeros by (auto simp: decimal_ok_def)
  have "dscale (StripTrailingZeros d) \<le> 0 \<longleftrightarrow> on_grid 0 (dval d)"
    using stripped_whole [OF s(1)] on_grid_dval [of "StripTrailingZeros d" 0] s(2) by auto
  then show ?thesis
    using toRange_in [OF decimal_ok_strip [OF d] ok] s(2)
    by (auto simp: admitsWholeInRange_def Scale_def)
qed

lemma on_grid_int: "on_grid 0 (of_int v)"
  by (auto simp: on_grid_def)

lemma AdmitsNumeric_int:
  assumes ok: "decimal_ok (decimalFromBigInt v)"
  shows "AdmitsNumeric Integer (decimalFromBigInt v) \<longleftrightarrow> classifyInt32Min \<le> v \<and> v \<le> classifyInt32Max"
    and "AdmitsNumeric Long (decimalFromBigInt v) \<longleftrightarrow> classifyInt64Min \<le> v \<and> v \<le> classifyInt64Max"
    and "AdmitsNumeric BigInteger (decimalFromBigInt v) \<longleftrightarrow> int128Min \<le> v \<and> v \<le> int128Max"
    and "AdmitsNumeric UnboundInteger (decimalFromBigInt v)"
proof -
  have b: "decimal_ok intBoundInteger32Min" "decimal_ok intBoundInteger32Max"
    "decimal_ok intBoundLong64Min" "decimal_ok intBoundLong64Max"
    "decimal_ok intBound128Min" "decimal_ok intBound128Max"
    using bounds_ok(2) [of Integer] bounds_ok(2) [of Long] bounds_ok(2) [of BigInteger]
    by (auto simp: intBounds_def)
  have dv: "dval (decimalFromBigInt w) = of_int w" for w by (simp add: decimalFromBigInt_def)
  note w = admitsWhole_iff [OF ok]
  show "AdmitsNumeric Integer (decimalFromBigInt v) \<longleftrightarrow> classifyInt32Min \<le> v \<and> v \<le> classifyInt32Max"
    using w [OF b(1,2)]
    by (simp add: AdmitsNumeric_simps dv on_grid_int intBoundInteger32Min_def intBoundInteger32Max_def)
  show "AdmitsNumeric Long (decimalFromBigInt v) \<longleftrightarrow> classifyInt64Min \<le> v \<and> v \<le> classifyInt64Max"
    using w [OF b(3,4)]
    by (simp add: AdmitsNumeric_simps dv on_grid_int intBoundLong64Min_def intBoundLong64Max_def)
  show "AdmitsNumeric BigInteger (decimalFromBigInt v) \<longleftrightarrow> int128Min \<le> v \<and> v \<le> int128Max"
    using w [OF b(5,6)]
    by (simp add: AdmitsNumeric_simps dv on_grid_int intBound128Min_def intBound128Max_def)
  show "AdmitsNumeric UnboundInteger (decimalFromBigInt v)"
    using decimalFromBigInt_strip [of v] stripped_whole [of "StripTrailingZeros (decimalFromBigInt v)"]
    by (simp add: AdmitsNumeric_simps Scale_def on_grid_int)
qed

lemma ClassifyInteger_admits_iff:
  assumes ok: "decimal_ok (decimalFromBigInt v)" and t: "NumericFamily t = 1"
  shows "AdmitsNumeric t (decimalFromBigInt v) \<longleftrightarrow> IsAssignableTo (ClassifyInteger v) t"
proof -
  have o: "int128Min \<le> classifyInt64Min" "classifyInt64Min \<le> classifyInt32Min"
    "classifyInt32Max \<le> classifyInt64Max" "classifyInt64Max \<le> int128Max"
    by (simp_all add: bound_defs)
  from t consider "t = Integer" | "t = Long" | "t = BigInteger" | "t = UnboundInteger"
    by (cases t) simp_all
  then show ?thesis
    using o by cases (auto simp: AdmitsNumeric_int [OF ok] ClassifyInteger_def IsAssignableTo_def)
qed

lemma dval_neg: "dval (neg d) = - dval d"
  by (simp add: neg_def dval_def Unscaled_def split: option.splits)

lemma pow10_bound: "Unscaled d \<noteq> 0 \<Longrightarrow> adj d \<le> n \<Longrightarrow> \<bar>dval d\<bar> < 10 powi n"
  using abs_dval_bounds(2) [of d] pow10_le_iff [of "adj d" n] by linarith

lemma ClassifyDecimal_admits:
  assumes d: "decimal_ok d" "stripped d" and s: "0 < dscale d"
  shows "AdmitsNumeric (ClassifyDecimal d) d"
proof -
  have nz: "Unscaled d \<noteq> 0" using d(2) s by (auto simp: stripped_def)
  have id: "StripTrailingZeros d = d"
    using stripped_unique [OF stripped_StripTrailingZeros d(2)] dval_StripTrailingZeros [of d] d(1)
    by (simp add: decimal_ok_def)
  have ok: "decimal_ok (neg doubleBucketMax)" "decimal_ok doubleBucketMax"
    "decimal_ok bd128Min" "decimal_ok bd128Max"
    using bounds_ok(1) [of Double] bounds_ok(1) [of BigDecimal] by (auto simp: decimalBounds_def)
  have bd: "dval bd128Min \<le> - (10 powi 20)" "10 powi 20 \<le> dval bd128Max"
    by (simp_all add: bd128Min_def bd128Max_def int128Min_def int128Max_def power_int_minus
        power_int_def field_simps)
  have dm: "dval (neg doubleBucketMax) \<le> - (10 powi 15)" "10 powi 15 \<le> dval doubleBucketMax"
  proof -
    have mono: "x \<le> 999999999999999 * y" if "0 \<le> x" "x \<le> y" for x y :: rat
      using that by linarith
    have "(10::rat) powi 15 \<le> 999999999999999 * 10 powi 278"
      by (rule mono [OF less_imp_le [OF pow10_pos]], simp only: pow10_le_iff, simp?)
    then show "10 powi 15 \<le> dval doubleBucketMax"
      unfolding doubleBucketMax_eq dval_mk by (simp only: of_int_numeral minus_minus)
    then show "dval (neg doubleBucketMax) \<le> - (10 powi 15)"
      by (simp only: dval_neg neg_le_iff_le)
  qed
  show ?thesis
  proof (cases "isDoubleEnvelope d")
    case True
    then have p: "Precision d \<le> 15" "dscale d \<le> 292"
      using s by (auto simp: isDoubleEnvelope_def Let_def split: if_splits)
    then have "\<bar>dval d\<bar> < 10 powi 15" using s by (intro pow10_bound [OF nz]) (simp add: adj_def)
    then have "dval (neg doubleBucketMax) \<le> dval d \<and> dval d \<le> dval doubleBucketMax"
      using dm unfolding abs_less_iff by linarith
    then show ?thesis
      using True p toRange_in [OF d(1) ok(1,2)]
      by (simp add: ClassifyDecimal_def AdmitsNumeric_simps id isDoubleBucketPrecise_def Scale_def)
  next
    case False
    have "dval bd128Min \<le> dval d \<and> dval d \<le> dval bd128Max" if i: "isInt128Decimal d"
    proof (cases "Precision d \<le> 38 \<and> Precision d - dscale d \<le> 20")
      case True
      then have "\<bar>dval d\<bar> < 10 powi 20" by (intro pow10_bound [OF nz]) (simp add: adj_def)
      then show ?thesis using bd unfolding abs_less_iff by linarith
    next
      case False
      with i obtain e where e: "SetScale d 18 = Ok e" "IsInt128 e"
        by (auto simp: isInt128Decimal_def Let_def split: if_splits sum.splits)
      have v: "dval e = dval d" "dscale e = 18" "unscaled e \<noteq> None" using SetScale_value [OF e(1)] by auto
      then obtain u where u: "unscaled e = Some u" "int128Min \<le> u" "u \<le> int128Max"
        using e(2) by (auto simp: IsInt128_def)
      then have "dval d = of_int u * 10 powi (- 18)" using v by (simp add: dval_def Unscaled_def)
      then show ?thesis using u unfolding bd128Min_def bd128Max_def dval_mk
        by (simp add: mult_right_mono)
    qed
    then show ?thesis
      using False toRange_in [OF d(1) ok(3,4)]
      by (auto simp: ClassifyDecimal_def AdmitsNumeric_simps id)
  qed
qed

subsection \<open>Properties\<close>

text \<open>C37: an integer is admitted by an integer type exactly when its classification widens to that
  type: ingestion's label and the value-level admission test agree.\<close>

theorem ClassifyInteger_admission:
  assumes "decimal_ok (decimalFromBigInt v)" and "NumericFamily t = 1"
  shows "AdmitsNumeric t (decimalFromBigInt v) \<longleftrightarrow> IsAssignableTo (ClassifyInteger v) t"
  using assms by (rule ClassifyInteger_admits_iff)

theorem ClassifyInteger_admission_witness:
  "AdmitsNumeric Long (decimalFromBigInt 2147483648)
   \<and> \<not> AdmitsNumeric Integer (decimalFromBigInt 2147483648)"
proof -
  have c: "ClassifyInteger 2147483648 = Long"
    by (simp add: ClassifyInteger_def bound_defs)
  have "decimal_ok (decimalFromBigInt 2147483648)"
    by (rule decimal_ok_bits) (simp_all add: decimalFromBigInt_def in_i32_iff)
  from ClassifyInteger_admission [OF this, of Long] ClassifyInteger_admission [OF this, of Integer]
  show ?thesis unfolding c by (simp add: IsAssignableTo_def)
qed

text \<open>the type \<open>ClassifyDecimal\<close> assigns to a fractional value admits that value, so a value
  stored under its inferred type is one search can compare.\<close>

theorem ClassifyDecimal_admission:
  assumes "decimal_ok d" and "stripped d" and "0 < dscale d"
  shows "AdmitsNumeric (ClassifyDecimal d) d"
  using assms by (rule ClassifyDecimal_admits)

theorem ClassifyDecimal_admission_witness:
  "ClassifyDecimal (mk_decimal 12345678901234567 3) = BigDecimal
   \<and> AdmitsNumeric BigDecimal (mk_decimal 12345678901234567 3)"
proof -
  let ?d = "mk_decimal 12345678901234567 3"
  have c: "ClassifyDecimal ?d = BigDecimal" by code_simp
  have "decimal_ok ?d" by (rule decimal_ok_bits) (simp_all add: in_i32_iff)
  moreover have "stripped ?d" by (simp add: stripped_def scale_ok_def in_i32_iff)
  ultimately have "AdmitsNumeric (ClassifyDecimal ?d) ?d"
    by (intro ClassifyDecimal_admission) simp_all
  then show ?thesis by (simp add: c)
qed

end
