(* ===== verification/Utf8.thy ===== *)
theory Utf8
  imports Spi_Base "HOL-Library.List_Lexorder"
begin

text \<open>
  Go strings are byte sequences; this theory models what the code uses of \<open>unicode/utf8\<close>:
  \<open>DecodeRuneInString\<close> with its accept ranges and its one-byte error result, the rune
  conversion \<open>[]rune(s)\<close>, the notion of a string that is valid UTF-8, and \<open>strings.Compare\<close>.
\<close>

subsection \<open>Decoding one rune\<close>

abbreviation byte :: "char \<Rightarrow> nat" where "byte c \<equiv> of_char c"

definition RuneError :: nat where "RuneError = 65533"

definition in_range :: "nat \<Rightarrow> nat \<Rightarrow> char \<Rightarrow> bool" where
  "in_range lo hi c \<longleftrightarrow> lo \<le> byte c \<and> byte c \<le> hi"

text \<open>The number of continuation bytes a leading byte announces and the range of the first one.\<close>

definition lead_info :: "nat \<Rightarrow> (nat \<times> nat \<times> nat) option" where
  "lead_info b =
     (if 0xC2 \<le> b \<and> b \<le> 0xDF then Some (1, 0x80, 0xBF)
      else if b = 0xE0 then Some (2, 0xA0, 0xBF)
      else if b = 0xED then Some (2, 0x80, 0x9F)
      else if 0xE1 \<le> b \<and> b \<le> 0xEF then Some (2, 0x80, 0xBF)
      else if b = 0xF0 then Some (3, 0x90, 0xBF)
      else if b = 0xF4 then Some (3, 0x80, 0x8F)
      else if 0xF1 \<le> b \<and> b \<le> 0xF3 then Some (3, 0x80, 0xBF)
      else None)"

definition decode_rune :: "string \<Rightarrow> nat \<times> nat" where
  "decode_rune s =
     (case s of
        [] \<Rightarrow> (RuneError, 0)
      | c # r \<Rightarrow>
          if byte c < 0x80 then (byte c, 1)
          else
            (case lead_info (byte c) of
               None \<Rightarrow> (RuneError, 1)
             | Some (n, lo, hi) \<Rightarrow>
                 if n \<le> length r \<and> in_range lo hi (hd r) \<and> list_all (in_range 0x80 0xBF) (take n r)
                 then (foldl (\<lambda>a d. 64 * a + byte d mod 64)
                         (byte c mod (if n = 1 then 32 else if n = 2 then 16 else 8)) (take n r), Suc n)
                 else (RuneError, 1)))"

abbreviation rune_size :: "string \<Rightarrow> nat" where "rune_size s \<equiv> snd (decode_rune s)"

lemma lead_info_pos: "lead_info b = Some (n, lo, hi) \<Longrightarrow> 0 < n \<and> 0xC2 \<le> b"
  by (auto simp: lead_info_def split: if_splits)

lemma rune_size_Nil [simp]: "rune_size [] = 0"
  by (simp add: decode_rune_def)

lemma rune_size_pos: "s \<noteq> [] \<Longrightarrow> 0 < rune_size s"
  by (cases s) (auto simp: decode_rune_def split: option.splits prod.splits)

lemma rune_size_le: "rune_size s \<le> length s"
  by (cases s) (auto simp: decode_rune_def split: option.splits prod.splits)

lemma rune_size_ascii: "byte c < 128 \<Longrightarrow> decode_rune (c # s) = (byte c, 1)"
  by (simp add: decode_rune_def)

text \<open>A decoded rune is one ASCII byte or consists of bytes from 128 upwards.\<close>

lemma rune_bytes_high:
  "128 \<le> byte c \<Longrightarrow> \<forall>d \<in> set (take (rune_size (c # s)) (c # s)). 128 \<le> byte d"
  by (auto simp: decode_rune_def in_range_def list_all_iff split: option.splits prod.splits)

subsection \<open>Runs of runes\<close>

primrec drop_runes :: "nat \<Rightarrow> string \<Rightarrow> string" where
  "drop_runes 0 s = s"
| "drop_runes (Suc n) s = drop_runes n (drop (rune_size s) s)"

lemma drop_runes_Nil [simp]: "drop_runes n [] = []"
  by (induction n) simp_all

lemma drop_runes_add: "drop_runes m (drop_runes n s) = drop_runes (n + m) s"
  by (induction n arbitrary: s) simp_all

lemma drop_runes_commute: "drop_runes m (drop_runes n s) = drop_runes n (drop_runes m s)"
  by (simp add: drop_runes_add add.commute)

lemma drop_rune_shorter: "s \<noteq> [] \<Longrightarrow> length (drop (rune_size s) s) < length s"
  using rune_size_pos [of s] by (cases s) auto

lemma length_drop_runes: "length (drop_runes n s) \<le> length s"
proof (induction n arbitrary: s)
  case (Suc n)
  from Suc [of "drop (rune_size s) s"] show ?case by simp
qed simp

lemma drop_rune_less: "s \<noteq> [] \<Longrightarrow> length s - rune_size s < length s"
  using drop_rune_shorter [of s] by simp

function runes :: "string \<Rightarrow> nat list" where
  "runes s = (if s = [] then [] else fst (decode_rune s) # runes (drop (rune_size s) s))"
  by pat_completeness auto
termination
  by (relation "measure length") (simp_all add: drop_rune_less)

declare runes.simps [simp del]

lemma runes_Nil [simp]: "runes [] = []"
  by (subst runes.simps) simp

text \<open>A rune decodes without error.\<close>

definition rune_ok :: "string \<Rightarrow> bool" where
  "rune_ok s \<longleftrightarrow> s \<noteq> [] \<and> decode_rune s \<noteq> (RuneError, 1)"

function valid_utf8 :: "string \<Rightarrow> bool" where
  "valid_utf8 s = (if s = [] then True else if rune_ok s then valid_utf8 (drop (rune_size s) s) else False)"
  by pat_completeness auto
termination
  by (relation "measure length") (simp_all add: drop_rune_less)

declare valid_utf8.simps [simp del]

lemma valid_utf8_Nil [simp]: "valid_utf8 []"
  by (subst valid_utf8.simps) simp

text \<open>What follows a whole rune does not change how it decodes.\<close>

lemma decode_rune_high:
  "128 \<le> byte c \<Longrightarrow> decode_rune (c # r) =
    (case lead_info (byte c) of
       None \<Rightarrow> (RuneError, 1)
     | Some (n, lo, hi) \<Rightarrow>
         if n \<le> length r \<and> in_range lo hi (hd r) \<and> list_all (in_range 0x80 0xBF) (take n r)
         then (foldl (\<lambda>a d. 64 * a + byte d mod 64)
                 (byte c mod (if n = 1 then 32 else if n = 2 then 16 else 8)) (take n r), Suc n)
         else (RuneError, 1))"
  by (simp add: decode_rune_def)

lemma hd_take_append:
  "0 < n \<Longrightarrow> n \<le> length r \<Longrightarrow> hd (r @ t) = hd r \<and> take n (r @ t) = take n r \<and> n \<le> length (r @ t)"
  by (auto simp: hd_append)

lemma decode_rune_append:
  assumes ok: "rune_ok s"
  shows "decode_rune (s @ t) = decode_rune s"
proof -
  from ok obtain c r where s: "s = c # r" by (cases s) (auto simp: rune_ok_def)
  show ?thesis
  proof (cases "byte c < 128")
    case True
    then show ?thesis by (simp add: rune_size_ascii s)
  next
    case False
    then have c: "128 \<le> byte c" by simp
    from ok have ne: "decode_rune (c # r) \<noteq> (RuneError, 1)" by (simp add: rune_ok_def s)
    obtain n lo hi where l: "lead_info (byte c) = Some (n, lo, hi)"
      using ne by (cases "lead_info (byte c)") (auto simp: decode_rune_high [OF c])
    have g: "n \<le> length r \<and> in_range lo hi (hd r) \<and> list_all (in_range 0x80 0xBF) (take n r)"
      using ne by (auto simp only: decode_rune_high [OF c] l option.case prod.case split: if_split_asm)
    have n: "0 < n" using lead_info_pos [OF l] by blast
    from hd_take_append [OF n conjunct1 [OF g], of t]
    have a: "hd (r @ t) = hd r" "take n (r @ t) = take n r" "n \<le> length (r @ t)" by blast+
    show ?thesis
      unfolding s append_Cons decode_rune_high [OF c] l option.case prod.case a(1,2)
      using g a(3) by (simp only: simp_thms if_True)
  qed
qed

lemma drop_rune_append:
  "rune_ok s \<Longrightarrow> drop (rune_size (s @ t)) (s @ t) = drop (rune_size s) s @ t"
  using rune_size_le [of s] by (simp add: decode_rune_append)

lemma rune_ok_append: "rune_ok s \<Longrightarrow> rune_ok (s @ t)"
  using decode_rune_append [of s t] by (simp add: rune_ok_def)

lemma valid_utf8_append: "valid_utf8 s \<Longrightarrow> valid_utf8 t \<Longrightarrow> valid_utf8 (s @ t)"
proof (induction s rule: valid_utf8.induct)
  case (1 s)
  show ?case
  proof (cases "s = []")
    case False
    then have s: "rune_ok s" "valid_utf8 (drop (rune_size s) s)"
      using "1.prems"(1) by (simp_all add: valid_utf8.simps [of s] split: if_splits)
    from "1.IH" [OF False s(1) s(2) "1.prems"(2)] show ?thesis
      using rune_ok_append [OF s(1), of t] drop_rune_append [OF s(1), of t]
      by (simp add: valid_utf8.simps [of "s @ t"])
  qed (use 1 in simp)
qed

text \<open>A valid literal spans a fixed number of runes wherever it occurs.\<close>

definition rune_count :: "string \<Rightarrow> nat" where
  "rune_count s = length (runes s)"

lemma rune_count_step: "s \<noteq> [] \<Longrightarrow> rune_count s = Suc (rune_count (drop (rune_size s) s))"
  unfolding rune_count_def by (subst runes.simps) simp

lemma valid_utf8_span: "valid_utf8 l \<Longrightarrow> drop_runes (rune_count l) (l @ t) = t"
proof (induction l rule: valid_utf8.induct)
  case (1 l)
  show ?case
  proof (cases "l = []")
    case False
    then have l: "rune_ok l" "valid_utf8 (drop (rune_size l) l)"
      using "1.prems" by (simp_all add: valid_utf8.simps [of l] split: if_splits)
    from "1.IH" [OF False l(1) l(2)] show ?thesis
      using False rune_size_le [of l] by (simp add: rune_count_step decode_rune_append [OF l(1)])
  qed (simp add: rune_count_def)
qed

subsection \<open>Comparing strings\<close>

text \<open>\<open>strings.Compare\<close>: bytewise lexicographic order.\<close>

fun string_compare :: "string \<Rightarrow> string \<Rightarrow> int" where
  "string_compare [] [] = 0"
| "string_compare [] (d # t) = -1"
| "string_compare (c # s) [] = 1"
| "string_compare (c # s) (d # t) =
     (if byte c < byte d then -1 else if byte c > byte d then 1 else string_compare s t)"

lemma string_compare_cmp3: "string_compare s t = cmp3 (map byte s :: nat list) (map byte t)"
  by (induction s t rule: string_compare.induct) (auto simp: cmp3_def)

lemma map_byte_inj: "map byte s = (map byte t :: nat list) \<longleftrightarrow> s = t"
  by (rule inj_map_eq_map) (auto intro: injI)

subsection \<open>Substrings\<close>

text \<open>\<open>strings.HasPrefix\<close>, \<open>strings.HasSuffix\<close> and \<open>strings.Contains\<close>.\<close>

definition has_prefix :: "string \<Rightarrow> string \<Rightarrow> bool" where
  "has_prefix s p \<longleftrightarrow> strip_prefix p s \<noteq> None"

definition has_suffix :: "string \<Rightarrow> string \<Rightarrow> bool" where
  "has_suffix s p \<longleftrightarrow> strip_prefix (rev p) (rev s) \<noteq> None"

fun contains :: "string \<Rightarrow> string \<Rightarrow> bool" where
  "contains [] p = (p = [])"
| "contains (c # s) p = (has_prefix (c # s) p \<or> contains s p)"

lemma has_prefix_iff: "has_prefix s p \<longleftrightarrow> (\<exists>r. s = p @ r)"
  by (auto simp: has_prefix_def strip_prefix_Some_iff dest: sym)

lemma has_suffix_iff: "has_suffix s p \<longleftrightarrow> (\<exists>r. s = r @ p)"
proof -
  have "has_suffix s p \<longleftrightarrow> (\<exists>r. rev s = rev p @ r)"
    by (auto simp: has_suffix_def strip_prefix_Some_iff dest: sym)
  also have "\<dots> \<longleftrightarrow> (\<exists>r. s = rev r @ p)" by (metis rev_append rev_rev_ident)
  also have "\<dots> \<longleftrightarrow> (\<exists>r. s = r @ p)" by (metis rev_rev_ident)
  finally show ?thesis .
qed

lemma contains_iff: "contains s p \<longleftrightarrow> (\<exists>a b. s = a @ p @ b)"
proof (induction s)
  case (Cons c s)
  have "(\<exists>a b. c # s = a @ p @ b) \<longleftrightarrow> (\<exists>b. c # s = p @ b) \<or> (\<exists>a b. s = a @ p @ b)"
    by (metis append_Cons append_Nil list.sel(3) neq_Nil_conv)
  then show ?case using Cons by (simp add: has_prefix_iff)
qed simp

end
