(* ===== verification/Like_Pattern.thy ===== *)
theory Like_Pattern
  imports Utf8
begin

text \<open>
  The LIKE glob of \<open>like_pattern.go\<close>: its tokeniser (escapes, collapsed runs of \<open>%\<close>, an error
  for a trailing backslash) and its greedy matcher with a single backtrack point. The matcher is
  shown to return on every input, to be sound for the declarative meaning of the pattern on all
  byte strings, and to be complete when the operand is valid UTF-8.
\<close>

subsection \<open>Tokens\<close>

datatype like_tok = tokLit string | tokOne | tokAny

datatype like_error = UnpairedEscape nat

definition flush_lit :: "string \<Rightarrow> like_tok list \<Rightarrow> like_tok list" where
  "flush_lit lit toks = (if lit \<noteq> [] then toks @ [tokLit lit] else toks)"

text \<open>The loop of \<open>parseLikePatternImpl\<close>: position, rest of the operand, literal under way, tokens.\<close>

function like_tokens :: "nat \<Rightarrow> string \<Rightarrow> string \<Rightarrow> like_tok list \<Rightarrow> like_error + like_tok list" where
  "like_tokens i s lit toks =
     (if s = [] then Ok (flush_lit lit toks)
      else if hd s = CHR 0x5C then
        (if tl s = [] then Err (UnpairedEscape i)
         else (let sz = rune_size (tl s)
               in like_tokens (i + 1 + sz) (drop sz (tl s)) (lit @ take sz (tl s)) toks))
      else if hd s = CHR ''%'' then
        (let toks1 = flush_lit lit toks
         in like_tokens (i + 1) (tl s) []
              (if toks1 = [] \<or> last toks1 \<noteq> tokAny then toks1 @ [tokAny] else toks1))
      else if hd s = CHR ''_'' then
        like_tokens (i + 1) (tl s) [] (flush_lit lit toks @ [tokOne])
      else (let sz = rune_size s in like_tokens (i + sz) (drop sz s) (lit @ take sz s) toks))"
  by pat_completeness auto
termination
proof (relation "measure (\<lambda>(i, s, lit, toks). length s)")
  show "((i + 1 + sz, drop sz (tl s), lit @ take sz (tl s), toks), i, s, lit, toks)
      \<in> measure (\<lambda>(i, s, lit, toks). length s)"
    if "s \<noteq> []" for i s lit toks and sz :: nat
    using that by (cases s) auto
qed (auto simp: drop_rune_less)

declare like_tokens.simps [simp del]

definition parseLikePattern :: "string \<Rightarrow> like_error + like_tok list" where
  "parseLikePattern operand = like_tokens 0 operand [] []"

subsection \<open>The greedy matcher\<close>

text \<open>
  The loop of \<open>matches\<close>. The remaining tokens and the remaining stored value are the suffixes the
  indices \<open>i\<close> and \<open>j\<close> select; the backtrack point \<open>(starTok + 1, starPos)\<close> is a pair of suffixes.
\<close>

partial_function (option) like_scan ::
  "like_tok list \<Rightarrow> string \<Rightarrow> (like_tok list \<times> string) option \<Rightarrow> bool option" where
  "like_scan ts s star =
     (if s = [] then Some (list_all (\<lambda>t. t = tokAny) ts)
      else
        (case (case ts of
                 [] \<Rightarrow> None
               | t # ts' \<Rightarrow>
                   (case t of
                      tokLit l \<Rightarrow>
                        (case strip_prefix l s of None \<Rightarrow> None | Some r \<Rightarrow> Some (ts', r, star))
                    | tokOne \<Rightarrow> Some (ts', drop (rune_size s) s, star)
                    | tokAny \<Rightarrow> Some (ts', s, Some (ts', s)))) of
           Some (ts', s', star') \<Rightarrow> like_scan ts' s' star'
         | None \<Rightarrow>
             (case star of
                None \<Rightarrow> Some False
              | Some (ts0, s0) \<Rightarrow>
                  like_scan ts0 (drop (rune_size s0) s0) (Some (ts0, drop (rune_size s0) s0)))))"

declare like_scan.simps [code]

definition like_matches :: "like_tok list \<Rightarrow> string \<Rightarrow> bool option" where
  "like_matches toks s = like_scan toks s None"

subsection \<open>What a pattern means\<close>

fun like_spec :: "like_tok list \<Rightarrow> string \<Rightarrow> bool" where
  "like_spec [] s = (s = [])"
| "like_spec (tokLit l # ts) s = (\<exists>r. s = l @ r \<and> like_spec ts r)"
| "like_spec (tokOne # ts) s = (s \<noteq> [] \<and> like_spec ts (drop (rune_size s) s))"
| "like_spec (tokAny # ts) s = (\<exists>k. like_spec ts (drop_runes k s))"

lemma like_spec_Nil: "\<forall>l. tokLit l \<in> set ts \<longrightarrow> l \<noteq> [] \<Longrightarrow> like_spec ts [] = list_all (\<lambda>t. t = tokAny) ts"
proof (induction ts)
  case (Cons t ts)
  then show ?case by (cases t) auto
qed simp

text \<open>A later starting point for the most recent \<open>%\<close>.\<close>

definition star_later :: "(like_tok list \<times> string) option \<Rightarrow> bool" where
  "star_later star =
     (case star of None \<Rightarrow> False | Some (ts0, s0) \<Rightarrow> \<exists>k. like_spec ts0 (drop_runes (Suc k) s0))"

lemma star_later_Some:
  "star_later (Some (ts0, s0)) \<longleftrightarrow>
     like_spec ts0 (drop (rune_size s0) s0) \<or> star_later (Some (ts0, drop (rune_size s0) s0))"
proof -
  have "(\<exists>k. P k) \<longleftrightarrow> P 0 \<or> (\<exists>k. P (Suc k))" for P :: "nat \<Rightarrow> bool"
    by (metis not0_implies_Suc)
  from this [of "\<lambda>k. like_spec ts0 (drop_runes (Suc k) s0)"] show ?thesis
    by (simp add: star_later_def)
qed

text \<open>One iteration of the loop, as a step on the state.\<close>

definition like_step ::
  "like_tok list \<Rightarrow> string \<Rightarrow> (like_tok list \<times> string) option
    \<Rightarrow> (like_tok list \<times> string \<times> (like_tok list \<times> string) option) option" where
  "like_step ts s star =
     (case ts of
        [] \<Rightarrow> None
      | t # ts' \<Rightarrow>
          (case t of
             tokLit l \<Rightarrow> (case strip_prefix l s of None \<Rightarrow> None | Some r \<Rightarrow> Some (ts', r, star))
           | tokOne \<Rightarrow> Some (ts', drop (rune_size s) s, star)
           | tokAny \<Rightarrow> Some (ts', s, Some (ts', s))))"

lemma like_scan_step:
  "like_scan ts s star =
     (if s = [] then Some (list_all (\<lambda>t. t = tokAny) ts)
      else
        (case like_step ts s star of
           Some (ts', s', star') \<Rightarrow> like_scan ts' s' star'
         | None \<Rightarrow>
             (case star of
                None \<Rightarrow> Some False
              | Some (ts0, s0) \<Rightarrow>
                  like_scan ts0 (drop (rune_size s0) s0) (Some (ts0, drop (rune_size s0) s0)))))"
  by (subst like_scan.simps) (simp only: like_step_def)

subsection \<open>The matcher returns\<close>

text \<open>
  The invariant of the loop: the remaining tokens are a suffix of those after the last \<open>%\<close>, and
  the backtrack point is not past the end while characters remain.
\<close>

definition like_inv :: "like_tok list \<Rightarrow> string \<Rightarrow> (like_tok list \<times> string) option \<Rightarrow> bool" where
  "like_inv ts s star \<longleftrightarrow>
     (case star of None \<Rightarrow> True
      | Some (ts0, s0) \<Rightarrow> (\<exists>pre. ts0 = pre @ ts) \<and> (s \<noteq> [] \<longrightarrow> s0 \<noteq> []))"

text \<open>Every step and every backtrack keeps it and decreases a lexicographic measure.\<close>

definition like_measure ::
  "((like_tok list \<times> string \<times> (like_tok list \<times> string) option)
    \<times> (like_tok list \<times> string \<times> (like_tok list \<times> string) option)) set" where
  "like_measure =
     measures
       [\<lambda>(ts, s, star). (case star of None \<Rightarrow> Suc (length ts) | Some (ts0, s0) \<Rightarrow> length ts0),
        \<lambda>(ts, s, star). (case star of None \<Rightarrow> 0 | Some (ts0, s0) \<Rightarrow> length s0),
        \<lambda>(ts, s, star). length ts]"

lemma like_step_cases:
  assumes "like_step ts s star = Some (ts', s', star')"
  obtains (lit) l where "ts = tokLit l # ts'" "s = l @ s'" "star' = star"
    | (one) "ts = tokOne # ts'" "s' = drop (rune_size s) s" "star' = star"
    | (any) "ts = tokAny # ts'" "s' = s" "star' = Some (ts', s)"
  using assms
  by (auto simp: like_step_def strip_prefix_Some_iff split: list.splits like_tok.splits option.splits)

lemma like_step_inv:
  assumes step: "like_step ts s star = Some (ts', s', star')" and inv: "like_inv ts s star" and s: "s \<noteq> []"
  shows "like_inv ts' s' star' \<and> ((ts', s', star'), (ts, s, star)) \<in> like_measure"
  using step
proof (cases rule: like_step_cases)
  case any
  then show ?thesis using inv s
    by (cases star) (auto simp: like_inv_def like_measure_def)
qed (use inv s in \<open>cases star; auto simp: like_inv_def like_measure_def\<close>)+

lemma like_backtrack_inv:
  assumes inv: "like_inv ts s (Some (ts0, s0))" and s: "s \<noteq> []"
  shows "like_inv ts0 (drop (rune_size s0) s0) (Some (ts0, drop (rune_size s0) s0))
    \<and> ((ts0, drop (rune_size s0) s0, Some (ts0, drop (rune_size s0) s0)), (ts, s, Some (ts0, s0)))
        \<in> like_measure"
  using inv s drop_rune_less [of s0] by (auto simp: like_inv_def like_measure_def)

lemma like_scan_induct [consumes 1, case_names state]:
  assumes inv: "like_inv ts s star"
    and ih: "\<And>ts s star.
      \<lbrakk>like_inv ts s star;
       \<And>ts' s' star'. \<lbrakk>s \<noteq> []; like_step ts s star = Some (ts', s', star')\<rbrakk> \<Longrightarrow> P ts' s' star';
       \<And>ts0 s0. \<lbrakk>s \<noteq> []; like_step ts s star = None; star = Some (ts0, s0)\<rbrakk>
         \<Longrightarrow> P ts0 (drop (rune_size s0) s0) (Some (ts0, drop (rune_size s0) s0))\<rbrakk>
      \<Longrightarrow> P ts s star"
  shows "P ts s star"
proof -
  have "wf like_measure" by (simp add: like_measure_def)
  then have "\<forall>ts s star. x = (ts, s, star) \<longrightarrow> like_inv ts s star \<longrightarrow> P ts s star" for x
  proof (induction x rule: wf_induct_rule)
    case (less x)
    show ?case
    proof (intro allI impI)
      fix ts s star assume x: "x = (ts, s, star)" and i: "like_inv ts s star"
      show "P ts s star"
      proof (rule ih [OF i])
        show "P ts' s' star'" if "s \<noteq> []" "like_step ts s star = Some (ts', s', star')" for ts' s' star'
          using less like_step_inv [OF that(2) i that(1)] x by blast
        show "P ts0 (drop (rune_size s0) s0) (Some (ts0, drop (rune_size s0) s0))"
          if "s \<noteq> []" "like_step ts s star = None" "star = Some (ts0, s0)" for ts0 s0
          using less like_backtrack_inv [of ts s ts0 s0] i that x by blast
      qed
    qed
  qed
  then show ?thesis using inv by blast
qed

lemma like_spec_all_any: "list_all (\<lambda>t. t = tokAny) ts \<Longrightarrow> like_spec ts []"
  by (induction ts) auto

text \<open>The scan returns, and a positive answer is a match of the pattern's meaning.\<close>

lemma like_scan_sound:
  "like_inv ts s star \<Longrightarrow>
   \<exists>b. like_scan ts s star = Some b \<and> (b \<longrightarrow> like_spec ts s \<or> star_later star)"
proof (induction ts s star rule: like_scan_induct)
  case (state ts s star)
  show ?case
  proof (cases "s = []")
    case True
    then show ?thesis using like_spec_all_any [of ts] by (subst like_scan_step) simp
  next
    case s: False
    show ?thesis
    proof (cases "like_step ts s star")
      case None
      show ?thesis
      proof (cases star)
        case None': None
        then have "like_scan ts s star = Some False" using s None by (subst like_scan_step) simp
        then show ?thesis by blast
      next
        case (Some a)
        obtain ts0 s0 where a: "a = (ts0, s0)" by fastforce
        from state(3) [OF s None Some [unfolded a]] show ?thesis
          using s None Some a star_later_Some [of ts0 s0] by (subst like_scan_step) auto
      qed
    next
      case (Some a)
      obtain ts' s' star' where a: "a = (ts', s', star')" by (cases a) auto
      from state(2) [OF s Some [unfolded a]] obtain b where
        b: "like_scan ts' s' star' = Some b" "b \<longrightarrow> like_spec ts' s' \<or> star_later star'" by blast
      have "like_spec ts' s' \<or> star_later star' \<longrightarrow> like_spec ts s \<or> star_later star"
        using Some [unfolded a]
      proof (cases rule: like_step_cases)
        case any
        then show ?thesis
          by (auto simp: star_later_def intro: exI [of _ 0] exI [of _ "Suc _"])
      qed (use s in auto)
      then show ?thesis using b Some a s by (subst like_scan_step) auto
    qed
  qed
qed

subsection \<open>Completeness for valid operands\<close>

definition lits_ok :: "like_tok list \<Rightarrow> bool" where
  "lits_ok ts \<longleftrightarrow> (\<forall>l. tokLit l \<in> set ts \<longrightarrow> l \<noteq> [] \<and> valid_utf8 l)"

text \<open>The number of runes a star-free run of tokens consumes.\<close>

fun tok_runes :: "like_tok \<Rightarrow> nat" where
  "tok_runes (tokLit l) = rune_count l"
| "tok_runes tokOne = 1"
| "tok_runes tokAny = 0"

definition toks_runes :: "like_tok list \<Rightarrow> nat" where
  "toks_runes ts = sum_list (map tok_runes ts)"

lemma like_spec_prefix:
  "lits_ok pre \<Longrightarrow> tokAny \<notin> set pre \<Longrightarrow> like_spec (pre @ ts) x \<Longrightarrow>
   like_spec ts (drop_runes (toks_runes pre) x)"
proof (induction pre arbitrary: x)
  case (Cons t pre)
  then have pre: "lits_ok pre" "tokAny \<notin> set pre" by (auto simp: lits_ok_def)
  note IH = Cons.IH [OF pre]
  show ?case
  proof (cases t)
    case (tokLit l)
    then obtain r where "x = l @ r" "like_spec (pre @ ts) r" using Cons.prems by auto
    moreover have "valid_utf8 l" using Cons.prems(1) tokLit by (auto simp: lits_ok_def)
    ultimately show ?thesis using IH [of r] tokLit
      by (simp add: toks_runes_def valid_utf8_span flip: drop_runes_add)
  next
    case tokOne
    then show ?thesis using IH [of "drop (rune_size x) x"] Cons.prems by (simp add: toks_runes_def)
  next
    case tokAny
    then show ?thesis using Cons.prems by simp
  qed
qed (simp add: toks_runes_def)

definition like_inv2 :: "like_tok list \<Rightarrow> string \<Rightarrow> (like_tok list \<times> string) option \<Rightarrow> bool" where
  "like_inv2 ts s star \<longleftrightarrow> lits_ok ts
     \<and> (case star of None \<Rightarrow> True
        | Some (ts0, s0) \<Rightarrow> lits_ok ts0
            \<and> (\<exists>pre. ts0 = pre @ ts \<and> tokAny \<notin> set pre \<and> s = drop_runes (toks_runes pre) s0))"

lemma star_later_shift:
  assumes inv: "like_inv2 ts s (Some (ts0, s0))" and later: "star_later (Some (ts0, s0))"
  shows "\<exists>k. like_spec ts (drop_runes k s)"
proof -
  from inv obtain pre where pre: "ts0 = pre @ ts" "tokAny \<notin> set pre"
    "s = drop_runes (toks_runes pre) s0" "lits_ok pre" by (auto simp: like_inv2_def lits_ok_def)
  from later obtain k where "like_spec (pre @ ts) (drop_runes (Suc k) s0)"
    unfolding star_later_def pre by auto
  from like_spec_prefix [OF pre(4,2) this] show ?thesis
    unfolding pre(3) drop_runes_commute [of "toks_runes pre"] by blast
qed

lemma like_inv2_SomeI:
  "lits_ok ts0 \<Longrightarrow> ts0 = pre @ ts \<Longrightarrow> tokAny \<notin> set pre \<Longrightarrow> s = drop_runes (toks_runes pre) s0
    \<Longrightarrow> like_inv2 ts s (Some (ts0, s0))"
  by (auto simp: like_inv2_def lits_ok_def)

lemma like_step_inv2:
  assumes step: "like_step ts s star = Some (ts', s', star')" and inv: "like_inv2 ts s star"
  shows "like_inv2 ts' s' star'"
  using step
proof (cases rule: like_step_cases)
  case (lit l)
  then have "valid_utf8 l" using inv by (auto simp: like_inv2_def lits_ok_def)
  then have s': "s' = drop_runes (rune_count l) s" using lit(2) by (simp add: valid_utf8_span)
  show ?thesis
  proof (cases star)
    case (Some a)
    obtain ts0 s0 where a: "a = (ts0, s0)" by fastforce
    from inv Some a obtain pre where "ts0 = pre @ ts" "tokAny \<notin> set pre"
      "s = drop_runes (toks_runes pre) s0" by (auto simp: like_inv2_def)
    then have "ts0 = (pre @ [tokLit l]) @ ts'" "tokAny \<notin> set (pre @ [tokLit l])"
      "s' = drop_runes (toks_runes (pre @ [tokLit l])) s0"
      using lit(1) s' by (simp_all add: toks_runes_def drop_runes_add)
    moreover have "lits_ok ts0" using inv Some a by (simp add: like_inv2_def)
    ultimately show ?thesis using lit(3) Some a by (metis like_inv2_SomeI)
  qed (use inv lit in \<open>auto simp: like_inv2_def lits_ok_def\<close>)
next
  case one
  show ?thesis
  proof (cases star)
    case (Some a)
    obtain ts0 s0 where a: "a = (ts0, s0)" by fastforce
    from inv Some a obtain pre where "ts0 = pre @ ts" "tokAny \<notin> set pre"
      "s = drop_runes (toks_runes pre) s0" by (auto simp: like_inv2_def)
    then have "ts0 = (pre @ [tokOne]) @ ts'" "tokAny \<notin> set (pre @ [tokOne])"
      "s' = drop_runes (toks_runes (pre @ [tokOne])) s0"
      using one drop_runes_add [of 1 "toks_runes pre" s0] by (simp_all add: toks_runes_def)
    moreover have "lits_ok ts0" using inv Some a by (simp add: like_inv2_def)
    ultimately show ?thesis using one(3) Some a by (metis like_inv2_SomeI)
  qed (use inv one in \<open>auto simp: like_inv2_def lits_ok_def\<close>)
next
  case any
  then show ?thesis using inv by (auto simp: like_inv2_def lits_ok_def toks_runes_def)
qed

lemma like_scan_complete:
  "like_inv ts s star \<Longrightarrow> like_inv2 ts s star \<longrightarrow> like_spec ts s \<or> star_later star
   \<longrightarrow> like_scan ts s star = Some True"
proof (induction ts s star rule: like_scan_induct)
  case (state ts s star)
  show ?case
  proof (intro impI)
    assume inv: "like_inv2 ts s star" and m: "like_spec ts s \<or> star_later star"
    have lits: "\<forall>l. tokLit l \<in> set ts \<longrightarrow> l \<noteq> []" using inv by (auto simp: like_inv2_def lits_ok_def)
    show "like_scan ts s star = Some True"
    proof (cases "s = []")
      case True
      have "like_spec ts []"
        using m True inv star_later_shift [of ts s] by (cases star) (auto simp: star_later_def)
      then show ?thesis using True like_spec_Nil [OF lits] by (subst like_scan_step) simp
    next
      case s: False
      show ?thesis
      proof (cases "like_step ts s star")
        case None
        then have "\<not> like_spec ts s"
          using s by (cases ts)
            (auto simp: like_step_def split: like_tok.splits option.splits)
        then obtain ts0 s0 where star: "star = Some (ts0, s0)" using m
          by (cases star) (auto simp: star_later_def)
        let ?s1 = "drop (rune_size s0) s0"
        have "like_inv2 ts0 ?s1 (Some (ts0, ?s1))"
          using inv star by (auto simp: like_inv2_def toks_runes_def intro: exI [of _ "[]"])
        moreover have "like_spec ts0 ?s1 \<or> star_later (Some (ts0, ?s1))"
          using m \<open>\<not> like_spec ts s\<close> star star_later_Some [of ts0 s0] by blast
        ultimately show ?thesis using state(3) [OF s None star] s None star
          by (subst like_scan_step) simp
      next
        case (Some a)
        obtain ts' s' star' where a: "a = (ts', s', star')" by (cases a) auto
        note inv' = like_step_inv2 [OF Some [unfolded a] inv]
        have "like_spec ts' s' \<or> star_later star'"
          using Some [unfolded a]
        proof (cases rule: like_step_cases)
          case any
          have "\<exists>k. like_spec ts (drop_runes k s)"
          proof (cases "like_spec ts s")
            case True
            then have "like_spec ts (drop_runes 0 s)" by simp
            then show ?thesis ..
          next
            case False
            then have "star_later star" using m by simp
            then show ?thesis using star_later_shift [of ts s] inv
              by (cases star) (auto simp: star_later_def)
          qed
          then obtain k where k: "like_spec ts' (drop_runes k s)"
            by (auto simp: any(1) drop_runes_add)
          then show ?thesis using any by (cases k) (auto simp: star_later_def)
        qed (use m in auto)
        then show ?thesis using state(2) [OF s Some [unfolded a]] inv' Some a s
          by (subst like_scan_step) simp
      qed
    qed
  qed
qed

subsection \<open>The tokeniser\<close>

lemma decode_rune_take:
  assumes ok: "rune_ok s"
  shows "decode_rune (take (rune_size s) s) = decode_rune s"
proof -
  from ok obtain c r where s: "s = c # r" by (cases s) (auto simp: rune_ok_def)
  show ?thesis
  proof (cases "byte c < 128")
    case True
    then show ?thesis by (simp add: rune_size_ascii s)
  next
    case False
    then have c: "128 \<le> byte c" by simp
    from ok have ne: "decode_rune (c # r) \<noteq> (RuneError, 1)" by (simp add: rune_ok_def s)
    obtain n lo hi where l: "lead_info (byte c) = Some (n, lo, hi)"
      using ne by (cases "lead_info (byte c)") (auto simp: decode_rune_high [OF c])
    have g: "n \<le> length r \<and> in_range lo hi (hd r) \<and> list_all (in_range 0x80 0xBF) (take n r)"
      using ne by (auto simp only: decode_rune_high [OF c] l option.case prod.case split: if_split_asm)
    have n: "0 < n" using lead_info_pos [OF l] by blast
    have sz: "rune_size s = Suc n"
      unfolding s decode_rune_high [OF c] l option.case prod.case using g by simp
    have a: "hd (take n r) = hd r" "take n (take n r) = take n r" "n \<le> length (take n r)"
      using n g by simp_all
    show ?thesis
      unfolding sz unfolding s take_Suc_Cons decode_rune_high [OF c] l option.case prod.case a(1,2)
      using g a(3) by (simp only: simp_thms if_True)
  qed
qed

lemma valid_utf8_one_rune: "rune_ok s \<Longrightarrow> valid_utf8 (take (rune_size s) s)"
proof -
  assume ok: "rune_ok s"
  let ?t = "take (rune_size s) s"
  have t: "decode_rune ?t = decode_rune s" using ok by (rule decode_rune_take)
  moreover have "?t \<noteq> []" using ok rune_size_pos [of s] by (auto simp: rune_ok_def)
  ultimately have "rune_ok ?t" using ok by (simp add: rune_ok_def)
  moreover have "drop (rune_size ?t) ?t = []" using t by simp
  ultimately show ?thesis by (subst valid_utf8.simps) simp
qed

lemma valid_utf8_rest: "valid_utf8 s \<Longrightarrow> s \<noteq> [] \<Longrightarrow> rune_ok s \<and> valid_utf8 (drop (rune_size s) s)"
  by (simp add: valid_utf8.simps [of s] split: if_splits)

lemma valid_utf8_tl: "valid_utf8 s \<Longrightarrow> s \<noteq> [] \<Longrightarrow> byte (hd s) < 128 \<Longrightarrow> valid_utf8 (tl s)"
  using valid_utf8_rest [of s] rune_size_ascii [of "hd s" "tl s"] by (cases s) auto

lemma lits_ok_flush: "lits_ok toks \<Longrightarrow> valid_utf8 lit \<Longrightarrow> lits_ok (flush_lit lit toks)"
  by (auto simp: lits_ok_def flush_lit_def)

lemma lits_ok_snoc: "lits_ok toks \<Longrightarrow> lits_ok (toks @ [tokAny]) \<and> lits_ok (toks @ [tokOne])"
  by (auto simp: lits_ok_def)

text \<open>The literals of a valid operand are valid and not empty.\<close>

lemma like_tokens_lits:
  "like_tokens i s lit toks = Ok ts \<Longrightarrow> valid_utf8 s \<Longrightarrow> valid_utf8 lit \<Longrightarrow> lits_ok toks \<Longrightarrow> lits_ok ts"
proof (induction i s lit toks rule: like_tokens.induct)
  case (1 i s lit toks)
  note eq = "1.prems"(1) [unfolded like_tokens.simps [of i s lit toks]]
  show ?case
  proof (cases "s = []")
    case True
    then show ?thesis using eq lits_ok_flush [OF "1.prems"(4,3)] by simp
  next
    case s: False
    note valid = valid_utf8_rest [OF "1.prems"(2) s]
    consider (esc) "hd s = CHR 0x5C" | (any) "hd s = CHR ''%''" | (one) "hd s = CHR ''_''"
      | (lit) "hd s \<noteq> CHR 0x5C" "hd s \<noteq> CHR ''%''" "hd s \<noteq> CHR ''_''" by blast
    then show ?thesis
    proof cases
      case esc
      have tl: "valid_utf8 (tl s)" using valid_utf8_tl [OF "1.prems"(2) s] esc by simp
      have ne: "tl s \<noteq> []" using eq s esc by auto
      note v = valid_utf8_rest [OF tl ne]
      show ?thesis
        using "1.IH"(1) [OF s esc ne refl] eq s esc ne v "1.prems"(3,4) valid_utf8_one_rune
        by (simp add: Let_def valid_utf8_append)
    next
      case any
      have tl: "valid_utf8 (tl s)" using valid_utf8_tl [OF "1.prems"(2) s] any by simp
      have "lits_ok (flush_lit lit toks)" using "1.prems"(3,4) lits_ok_flush by blast
      then show ?thesis
        using "1.IH"(2) [OF s _ any refl] eq s any tl lits_ok_snoc
        by (simp add: Let_def split: if_splits)
    next
      case one
      have tl: "valid_utf8 (tl s)" using valid_utf8_tl [OF "1.prems"(2) s] one by simp
      have "lits_ok (flush_lit lit toks)" using "1.prems"(3,4) lits_ok_flush by blast
      then show ?thesis
        using "1.IH"(3) [OF s _ _ one] eq s one tl lits_ok_snoc by simp
    next
      case lit
      then show ?thesis
        using "1.IH"(4) [OF s lit refl] eq s valid "1.prems"(3,4) valid_utf8_one_rune
        by (simp add: Let_def valid_utf8_append)
    qed
  qed
qed

text \<open>Reading a literal byte by byte is the same as reading it rune by rune.\<close>

definition plain_byte :: "char \<Rightarrow> bool" where
  "plain_byte c \<longleftrightarrow> c \<noteq> CHR 0x5C \<and> c \<noteq> CHR ''%'' \<and> c \<noteq> CHR ''_''"

lemma high_plain: "128 \<le> byte c \<Longrightarrow> plain_byte c"
  by (auto simp: plain_byte_def)

lemma like_tokens_bytes:
  assumes step: "\<And>i u lit. length u < N \<Longrightarrow> u \<noteq> [] \<Longrightarrow> plain_byte (hd u) \<Longrightarrow>
      like_tokens i u lit toks = like_tokens (i + 1) (tl u) (lit @ [hd u]) toks"
  shows "k \<le> length u \<Longrightarrow> length u < N \<Longrightarrow> \<forall>d \<in> set (take k u). plain_byte d \<Longrightarrow>
    like_tokens i u lit toks = like_tokens (i + k) (drop k u) (lit @ take k u) toks"
proof (induction k arbitrary: i u lit)
  case (Suc k)
  then obtain c r where u: "u = c # r" by (cases u) auto
  show ?case
    using step [of u i lit] Suc.IH [of r "i + 1" "lit @ [c]"] Suc.prems by (simp add: u)
qed simp

lemma like_tokens_byte:
  "u \<noteq> [] \<Longrightarrow> plain_byte (hd u) \<Longrightarrow>
   like_tokens i u lit toks = like_tokens (i + 1) (tl u) (lit @ [hd u]) toks"
proof (induction u arbitrary: i lit rule: length_induct)
  case (1 u)
  then obtain c r where u: "u = c # r" by (cases u) auto
  have eq: "like_tokens i u lit toks =
      like_tokens (i + rune_size u) (drop (rune_size u) u) (lit @ take (rune_size u) u) toks"
    using 1(2,3) by (subst like_tokens.simps) (simp add: plain_byte_def Let_def)
  show ?case
  proof (cases "byte c < 128")
    case True
    then show ?thesis using eq by (simp add: u rune_size_ascii)
  next
    case False
    let ?k = "rune_size u - 1"
    have sz: "rune_size u = Suc ?k" using rune_size_pos [of u] u by simp
    have "\<forall>d \<in> set (take (rune_size u) u). 128 \<le> byte d"
      using rune_bytes_high [of c r] False u by simp
    then have plain: "\<forall>d \<in> set (take ?k r). plain_byte d"
      using high_plain by (subst (asm) sz) (auto simp: u)
    have k: "?k \<le> length r" using rune_size_le [of u] sz u by simp
    have len: "length r < length u" by (simp add: u)
    have "like_tokens (i + 1) r (lit @ [c]) toks =
        like_tokens (i + 1 + ?k) (drop ?k r) ((lit @ [c]) @ take ?k r) toks"
      by (rule like_tokens_bytes [where N = "length u", OF _ k len plain]) (use 1(1) in blast)
    moreover have "take (rune_size u) u = c # take ?k r" "drop (rune_size u) u = drop ?k r"
      by (subst sz, simp add: u)+
    ultimately show ?thesis using eq sz by (simp add: u)
  qed
qed

text \<open>Escaping the three special characters makes an operand that denotes exactly one string.\<close>

definition like_escape :: "string \<Rightarrow> string" where
  "like_escape s = concat (map (\<lambda>c. if plain_byte c then [c] else [CHR 0x5C, c]) s)"

lemma like_tokens_escape:
  "like_tokens i (like_escape s) lit toks = Ok (flush_lit (lit @ s) toks)"
proof (induction s arbitrary: i lit)
  case Nil
  then show ?case by (subst like_tokens.simps) (simp add: like_escape_def)
next
  case (Cons c s)
  show ?case
  proof (cases "plain_byte c")
    case True
    then have "like_escape (c # s) = c # like_escape s" by (simp add: like_escape_def)
    then show ?thesis using like_tokens_byte [of "c # like_escape s" i lit toks] True Cons by simp
  next
    case False
    then have e: "like_escape (c # s) = CHR 0x5C # c # like_escape s" by (simp add: like_escape_def)
    have "byte c < 128" using False high_plain by (meson not_less)
    then have "rune_size (c # like_escape s) = 1" by (simp add: rune_size_ascii)
    then show ?thesis using Cons [of "i + 2" "lit @ [c]"]
      unfolding e by (subst like_tokens.simps) (simp add: Let_def)
  qed
qed

lemma like_matches_literal: "s \<noteq> [] \<Longrightarrow> like_matches [tokLit s] x = Some (x = s)"
proof -
  assume s: "s \<noteq> []"
  have fin: "like_scan [] r None = Some (r = [])" for r
    by (subst like_scan_step) (simp add: like_step_def)
  show ?thesis
  proof (cases "x = []")
    case True
    then show ?thesis using s by (simp add: like_matches_def) (subst like_scan_step, simp)
  next
    case False
    then have eq: "like_scan [tokLit s] x None =
        (case strip_prefix s x of None \<Rightarrow> Some False | Some r \<Rightarrow> like_scan [] r None)"
      by (subst like_scan_step) (simp add: like_step_def split: option.split)
    show ?thesis
    proof (cases "strip_prefix s x")
      case None
      then have "x \<noteq> s" using strip_prefix_append [of s "[]"] by auto
      then show ?thesis using None eq by (simp add: like_matches_def)
    next
      case (Some r)
      then show ?thesis using eq by (simp add: like_matches_def fin strip_prefix_Some_iff)
    qed
  qed
qed

lemma like_scan_exact:
  assumes "valid_utf8 operand" and "parseLikePattern operand = Ok toks"
  shows "like_matches toks s = Some (like_spec toks s)"
proof -
  have "lits_ok toks"
    using like_tokens_lits [OF assms(2) [unfolded parseLikePattern_def] assms(1)]
    by (simp add: lits_ok_def)
  then have "like_spec toks s \<longrightarrow> like_scan toks s None = Some True"
    using like_scan_complete [of toks s None]
    by (simp add: like_inv_def like_inv2_def star_later_def)
  then show ?thesis
    using like_scan_sound [of toks s None] by (auto simp: like_matches_def like_inv_def star_later_def)
qed

subsection \<open>Properties\<close>

text \<open>the LIKE scan returns on every token list and every stored byte string, and a positive
  answer is always a match in the sense of the pattern's meaning.\<close>

theorem like_matches_sound:
  "\<exists>b. like_matches toks s = Some b \<and> (b \<longrightarrow> like_spec toks s)"
  using like_scan_sound [of toks s None] by (simp add: like_matches_def like_inv_def star_later_def)

theorem like_matches_sound_witness:
  "like_matches [tokAny, tokLit ''b'', tokOne] ''abc'' = Some True
   \<and> like_spec [tokAny, tokLit ''b'', tokOne] ''abc''"
proof -
  have "like_matches [tokAny, tokLit ''b'', tokOne] ''abc'' = Some True" by code_simp
  moreover from like_matches_sound [of "[tokAny, tokLit ''b'', tokOne]" "''abc''"]
  obtain b where "like_matches [tokAny, tokLit ''b'', tokOne] ''abc'' = Some b"
    "b \<longrightarrow> like_spec [tokAny, tokLit ''b'', tokOne] ''abc''" by blast
  ultimately show ?thesis by (simp del: like_spec.simps)
qed

text \<open>C18: for an operand that is valid UTF-8 the greedy single-backtrack scan decides exactly the
  meaning of the tokenised pattern, on every stored byte string.\<close>

theorem like_matches_exact:
  assumes "valid_utf8 operand" and "parseLikePattern operand = Ok toks"
  shows "like_matches toks s = Some (like_spec toks s)"
  using assms by (rule like_scan_exact)

theorem like_matches_exact_witness:
  "\<exists>toks. parseLikePattern ''a%b_'' = Ok toks \<and> like_spec toks ''axxbc'' \<and> \<not> like_spec toks ''ab''"
proof -
  have v: "valid_utf8 ''a%b_''" by code_simp
  have p: "parseLikePattern ''a%b_'' = Ok [tokLit ''a'', tokAny, tokLit ''b'', tokOne]" by code_simp
  have "like_matches [tokLit ''a'', tokAny, tokLit ''b'', tokOne] ''axxbc'' = Some True"
    "like_matches [tokLit ''a'', tokAny, tokLit ''b'', tokOne] ''ab'' = Some False" by code_simp+
  with like_matches_exact [OF v p] p show ?thesis by simp
qed

text \<open>escaping every percent sign, underscore and backslash of a byte string gives an operand
  that parses and matches that string and no other.\<close>

theorem like_escape_exact:
  "\<exists>toks. parseLikePattern (like_escape s) = Ok toks \<and> like_matches toks x = Some (x = s)"
proof (cases "s = []")
  case True
  have "like_matches [] x = Some (x = [])"
    by (simp add: like_matches_def) (subst like_scan_step, simp add: like_step_def)
  then show ?thesis using True
    by (simp add: parseLikePattern_def like_tokens_escape flush_lit_def)
next
  case False
  then show ?thesis
    by (simp add: parseLikePattern_def like_tokens_escape flush_lit_def like_matches_literal)
qed

text \<open>
  The validity condition of the exactness theorem is needed: with half a rune as a literal the
  scan commits to a position inside a rune of the stored value and misses a match.
\<close>

lemma like_incomplete_on_invalid:
  "like_matches [tokAny, tokLit [CHR 0xE2], tokAny, tokLit [CHR 0x82, CHR 0xAC]]
     [CHR 0xE2, CHR 0x82, CHR 0xAC, CHR 0xE2, CHR 0x82, CHR 0xAC] = Some False
   \<and> like_spec [tokAny, tokLit [CHR 0xE2], tokAny, tokLit [CHR 0x82, CHR 0xAC]]
     [CHR 0xE2, CHR 0x82, CHR 0xAC, CHR 0xE2, CHR 0x82, CHR 0xAC]"
proof
  show "like_matches [tokAny, tokLit [CHR 0xE2], tokAny, tokLit [CHR 0x82, CHR 0xAC]]
     [CHR 0xE2, CHR 0x82, CHR 0xAC, CHR 0xE2, CHR 0x82, CHR 0xAC] = Some False" by code_simp
  let ?s = "[CHR 0xE2, CHR 0x82, CHR 0xAC, CHR 0xE2, CHR 0x82, CHR 0xAC]"
  have "rune_size ?s = 3" by code_simp
  then have d: "drop_runes 1 ?s = [CHR 0xE2, CHR 0x82, CHR 0xAC]" by simp
  have "like_spec [tokLit [CHR 0x82, CHR 0xAC]] (drop_runes 0 [CHR 0x82, CHR 0xAC])" by simp
  then have "like_spec [tokAny, tokLit [CHR 0x82, CHR 0xAC]] [CHR 0x82, CHR 0xAC]"
    unfolding like_spec.simps(4) by (rule exI)
  then have "like_spec [tokLit [CHR 0xE2], tokAny, tokLit [CHR 0x82, CHR 0xAC]] (drop_runes 1 ?s)"
    unfolding d like_spec.simps(2) by simp
  then show "like_spec [tokAny, tokLit [CHR 0xE2], tokAny, tokLit [CHR 0x82, CHR 0xAC]] ?s"
    by (intro iffD2 [OF like_spec.simps(4)] exI [of _ 1])
qed

end
