(* ===== verification/Parse_Typed.thy ===== *)
theory Parse_Typed
  imports Numeric_Bucket Utf8
begin

text \<open>
  Typed parsing of a search operand (\<open>parse_typed.go\<close>). The UUID library is not part of the
  repository: \<open>uuid_parse\<close> and \<open>uuid_version\<close> are parameters. The property: for the integer
  types the parser accepts exactly the values the numeric admission test accepts, and keeps them.
\<close>

subsection \<open>Parsed values\<close>

datatype 'u typed_value =
    VDecimal decimal | VBool bool | VString string | VRune nat | VUuid 'u

subsection \<open>Numbers\<close>

definition int128MaxDigits :: int where "int128MaxDigits = 39"

definition parseWholeType :: "string \<Rightarrow> data_type \<Rightarrow> decimal option" where
  "parseWholeType operand t =
     (case ParseDecimal operand of
        Inl e \<Rightarrow> None
      | Inr d0 \<Rightarrow>
          (let d = StripTrailingZeros d0 in
           if Scale d > 0 then None
           else if t = UnboundInteger then Some d
           else
             (case (if Scale d < 0 then
                      (if Precision d - Scale d > int128MaxDigits then None
                       else (case SetScale d 0 of Inl e \<Rightarrow> None | Inr r \<Rightarrow> Some r))
                    else Some d) of
                None \<Rightarrow> None
              | Some d1 \<Rightarrow>
                  (let v = Unscaled d1 in
                   if t = Integer then
                     (if v \<ge> classifyInt32Min \<and> v \<le> classifyInt32Max then Some d1 else None)
                   else if t = Long then
                     (if v \<ge> classifyInt64Min \<and> v \<le> classifyInt64Max then Some d1 else None)
                   else if t = BigInteger then (if IsInt128 d1 then Some d1 else None)
                   else None))))"

definition parseDecimalType :: "string \<Rightarrow> data_type \<Rightarrow> decimal option" where
  "parseDecimalType operand t =
     (case ParseDecimal operand of
        Inl e \<Rightarrow> None
      | Inr d0 \<Rightarrow>
          (let d = StripTrailingZeros d0 in
           if t = Double then (if isDoubleEnvelope d then Some d else None)
           else if t = BigDecimal then (if isInt128Decimal d then Some d else None)
           else if t = UnboundDecimal then Some d
           else None))"

subsection \<open>The other types\<close>

definition parseBoolean :: "string \<Rightarrow> bool option" where
  "parseBoolean operand =
     (if operand = ''true'' then Some True else if operand = ''false'' then Some False else None)"

definition parseCharacter :: "string \<Rightarrow> nat option" where
  "parseCharacter operand =
     (let rs = runes operand in if length rs \<noteq> 1 then None else Some (hd rs))"

text \<open>The pattern: groups of 8, 4, 4, 4 and 12 lower-case hexadecimal digits.\<close>

definition is_lower_hex :: "char \<Rightarrow> bool" where
  "is_lower_hex c \<longleftrightarrow> is_digit c \<or> (97 \<le> byte c \<and> byte c \<le> 102)"

fun hex_groups :: "nat list \<Rightarrow> string \<Rightarrow> bool" where
  "hex_groups [] s = (s = [])"
| "hex_groups [n] s = (length s = n \<and> list_all is_lower_hex s)"
| "hex_groups (n # m # ns) s =
     (n < length s \<and> list_all is_lower_hex (take n s) \<and> s ! n = CHR ''-''
      \<and> hex_groups (m # ns) (drop (Suc n) s))"

definition uuidPattern_matches :: "string \<Rightarrow> bool" where
  "uuidPattern_matches s = hex_groups [8, 4, 4, 4, 12] s"

definition parseUUIDValue ::
  "(string \<Rightarrow> 'u option) \<Rightarrow> ('u \<Rightarrow> nat) \<Rightarrow> string \<Rightarrow> data_type \<Rightarrow> 'u option" where
  "parseUUIDValue uuid_parse uuid_version operand t =
     (if \<not> uuidPattern_matches operand then None
      else (case uuid_parse operand of
              None \<Rightarrow> None
            | Some uid \<Rightarrow> if t = TimeUUIDType \<and> uuid_version uid \<noteq> 1 then None else Some uid))"

definition ParseStringOrNull ::
  "(string \<Rightarrow> 'u option) \<Rightarrow> ('u \<Rightarrow> nat) \<Rightarrow> string \<Rightarrow> data_type \<Rightarrow> 'u typed_value option" where
  "ParseStringOrNull uuid_parse uuid_version operand t =
     (if t \<in> {Integer, Long, BigInteger, UnboundInteger} then
        map_option VDecimal (parseWholeType operand t)
      else if t \<in> {Double, BigDecimal, UnboundDecimal} then
        map_option VDecimal (parseDecimalType operand t)
      else if t = Boolean then map_option VBool (parseBoolean operand)
      else if t = String then Some (VString operand)
      else if t = Character then map_option VRune (parseCharacter operand)
      else if t = UUIDType \<or> t = TimeUUIDType then
        map_option VUuid (parseUUIDValue uuid_parse uuid_version operand t)
      else None)"

subsection \<open>Integer parsing is admission\<close>

lemma integer_type_cases:
  "NumericFamily t = 1 \<Longrightarrow> t = Integer \<or> t = Long \<or> t = BigInteger \<or> t = UnboundInteger"
  by (cases t) simp_all

lemma int128_lt_pow: "\<bar>v\<bar> \<ge> 10 ^ 39 \<Longrightarrow> \<not> (int128Min \<le> v \<and> v \<le> int128Max)"
  by (simp add: int128Min_def int128Max_def) linarith

lemma AdmitsNumeric_whole:
  assumes d: "decimal_ok d" and v: "dval d = of_int v"
  shows "AdmitsNumeric Integer d \<longleftrightarrow> classifyInt32Min \<le> v \<and> v \<le> classifyInt32Max"
    and "AdmitsNumeric Long d \<longleftrightarrow> classifyInt64Min \<le> v \<and> v \<le> classifyInt64Max"
    and "AdmitsNumeric BigInteger d \<longleftrightarrow> int128Min \<le> v \<and> v \<le> int128Max"
proof -
  have b: "decimal_ok intBoundInteger32Min" "decimal_ok intBoundInteger32Max"
    "decimal_ok intBoundLong64Min" "decimal_ok intBoundLong64Max"
    "decimal_ok intBound128Min" "decimal_ok intBound128Max"
    using bounds_ok(2) [of Integer] bounds_ok(2) [of Long] bounds_ok(2) [of BigInteger]
    by (auto simp: intBounds_def)
  have dv: "dval (decimalFromBigInt w) = of_int w" for w by (simp add: decimalFromBigInt_def)
  note w = admitsWhole_iff [OF d]
  show "AdmitsNumeric Integer d \<longleftrightarrow> classifyInt32Min \<le> v \<and> v \<le> classifyInt32Max"
    using w [OF b(1,2)]
    by (simp add: AdmitsNumeric_simps v dv on_grid_int intBoundInteger32Min_def intBoundInteger32Max_def)
  show "AdmitsNumeric Long d \<longleftrightarrow> classifyInt64Min \<le> v \<and> v \<le> classifyInt64Max"
    using w [OF b(3,4)]
    by (simp add: AdmitsNumeric_simps v dv on_grid_int intBoundLong64Min_def intBoundLong64Max_def)
  show "AdmitsNumeric BigInteger d \<longleftrightarrow> int128Min \<le> v \<and> v \<le> int128Max"
    using w [OF b(5,6)]
    by (simp add: AdmitsNumeric_simps v dv on_grid_int intBound128Min_def intBound128Max_def)
qed

lemma in_ranges: "classifyInt32Min \<le> v \<and> v \<le> classifyInt32Max \<Longrightarrow> int128Min \<le> v \<and> v \<le> int128Max"
  "classifyInt64Min \<le> v \<and> v \<le> classifyInt64Max \<Longrightarrow> int128Min \<le> v \<and> v \<le> int128Max"
  by (auto simp: bound_defs)

text \<open>The range test on a scale-0 decimal.\<close>

definition whole_in_range :: "data_type \<Rightarrow> int \<Rightarrow> bool" where
  "whole_in_range t v \<longleftrightarrow>
     (if t = Integer then classifyInt32Min \<le> v \<and> v \<le> classifyInt32Max
      else if t = Long then classifyInt64Min \<le> v \<and> v \<le> classifyInt64Max
      else t = BigInteger \<and> int128Min \<le> v \<and> v \<le> int128Max)"

lemma AdmitsNumeric_whole_in_range:
  "decimal_ok d \<Longrightarrow> dval d = of_int v \<Longrightarrow> t = Integer \<or> t = Long \<or> t = BigInteger \<Longrightarrow>
   AdmitsNumeric t d = whole_in_range t v"
  using AdmitsNumeric_whole [of d v] by (auto simp: whole_in_range_def)

text \<open>A bounded integer type: the scale is dropped, unless the digits alone show the value is too long.\<close>

lemma whole_too_long:
  assumes s: "stripped s" "dscale s < 0" "dval s = of_int v" and long: "Precision s - dscale s > 39"
  shows "\<not> whole_in_range t v"
proof -
  have "Unscaled s \<noteq> 0" using s by (auto simp: stripped_def)
  then have "10 powi (adj s - 1) \<le> \<bar>dval s\<bar>" by (rule abs_dval_bounds)
  moreover have "(of_int (10 ^ 39) :: rat) \<le> 10 powi (adj s - 1)"
    using pow10_le_iff [of 39 "adj s - 1"] long by (simp add: adj_def)
  ultimately have "(of_int (10 ^ 39) :: rat) \<le> of_int \<bar>v\<bar>" using s(3) by simp
  then have "10 ^ 39 \<le> \<bar>v\<bar>" by (simp only: of_int_le_iff)
  from int128_lt_pow [OF this] show ?thesis
    using in_ranges [of v] by (auto simp: whole_in_range_def split: if_splits)
qed

lemma parseWholeType_bounded:
  assumes p: "ParseDecimal operand = Ok d" and s: "s = StripTrailingZeros d" "stripped s" "dscale s \<le> 0"
    and v: "dval s = of_int v" and t: "t = Integer \<or> t = Long \<or> t = BigInteger"
  shows "(parseWholeType operand t = None \<longleftrightarrow> \<not> whole_in_range t v)
    \<and> (\<forall>r. parseWholeType operand t = Some r \<longrightarrow> dval r = dval s)"
proof -
  have ve: "v = Unscaled s * 10 ^ nat (- dscale s)"
  proof -
    have "dval s = of_int (Unscaled s * 10 ^ nat (- dscale s))"
      using s(3) pow10_nat [of "- dscale s"] by (simp add: dval_def)
    then show ?thesis unfolding v by (simp only: of_int_eq_iff)
  qed
  consider "dscale s = 0" | "dscale s < 0" "Precision s - dscale s > 39" | "dscale s < 0" "\<not> Precision s - dscale s > 39"
    using s(3) by linarith
  then show ?thesis
  proof cases
    case 1
    obtain y where "unscaled s = Some y" using s(2) by (auto simp: stripped_def)
    then have "parseWholeType operand t = (if whole_in_range t v then Some s else None)"
      using 1 p t ve s(1)
      by (auto simp: parseWholeType_def Scale_def Let_def whole_in_range_def IsInt128_def Unscaled_def)
    then show ?thesis by simp
  next
    case 2
    then have "parseWholeType operand t = None"
      using p t s(1) by (auto simp: parseWholeType_def Scale_def Let_def int128MaxDigits_def)
    then show ?thesis using whole_too_long [OF s(2) 2(1) v 2(2)] by simp
  next
    case 3
    have "SetScale s 0 = Ok (mk_decimal v 0)" using 3(1) SetScale_up [of s 0] ve by simp
    then have "parseWholeType operand t = (if whole_in_range t v then Some (mk_decimal v 0) else None)"
      using 3 p t s(1)
      by (auto simp: parseWholeType_def Scale_def Let_def int128MaxDigits_def whole_in_range_def IsInt128_def)
    then show ?thesis using v by simp
  qed
qed

lemma parseWholeType_spec:
  assumes p: "ParseDecimal operand = Ok d" and ok: "decimal_ok d" and t: "NumericFamily t = 1"
  shows "(parseWholeType operand t = None \<longleftrightarrow> \<not> AdmitsNumeric t d)
    \<and> (\<forall>r. parseWholeType operand t = Some r \<longrightarrow> dval r = dval d)"
proof -
  let ?s = "StripTrailingZeros d"
  have st: "stripped ?s" "dval ?s = dval d"
    using ok stripped_StripTrailingZeros dval_StripTrailingZeros by (auto simp: decimal_ok_def)
  consider "dscale ?s > 0" | "dscale ?s \<le> 0" "t = UnboundInteger" | "dscale ?s \<le> 0" "t = Integer \<or> t = Long \<or> t = BigInteger"
    using integer_type_cases [OF t] by linarith
  then show ?thesis
  proof cases
    case 1
    have "\<not> AdmitsNumeric t d"
    proof
      assume "AdmitsNumeric t d"
      then have "on_grid 0 (dval ?s)" using admits_whole [OF ok _ t] st(2) by simp
      then show False using stripped_whole [OF st(1)] 1 by simp
    qed
    then show ?thesis using 1 p by (simp add: parseWholeType_def Scale_def Let_def)
  next
    case 2
    then show ?thesis using p st by (simp add: parseWholeType_def Scale_def AdmitsNumeric_simps)
  next
    case 3
    let ?v = "Unscaled ?s * 10 ^ nat (- dscale ?s)"
    have v: "dval ?s = of_int ?v" using 3(1) pow10_nat [of "- dscale ?s"] by (simp add: dval_def)
    show ?thesis
      using parseWholeType_bounded [OF p refl st(1) 3(1) v 3(2)] AdmitsNumeric_whole_in_range [OF ok _ 3(2), of ?v]
        v st(2) by simp
  qed
qed

subsection \<open>Properties\<close>

text \<open>for an integer type the operand parser accepts exactly the values the type admits, in
  whatever notation they are written, and returns the same value.\<close>

theorem parseWholeType_admission:
  assumes "ParseDecimal operand = Ok d" and "decimal_ok d" and "NumericFamily t = 1"
  shows "(parseWholeType operand t = None \<longleftrightarrow> \<not> AdmitsNumeric t d)
    \<and> (\<forall>r. parseWholeType operand t = Some r \<longrightarrow> dval r = dval d)"
  using assms by (rule parseWholeType_spec)

theorem parseWholeType_admission_witness:
  "AdmitsNumeric Long (mk_decimal 30 (- 8)) \<and> \<not> AdmitsNumeric Integer (mk_decimal 30 (- 8))"
proof -
  have p: "ParseDecimal ''30e8'' = Ok (mk_decimal 30 (- 8))" by code_simp
  have ok: "decimal_ok (mk_decimal 30 (- 8))" by (simp add: decimal_ok_small in_i32_iff)
  have "parseWholeType ''30e8'' Long = Some (mk_decimal 3000000000 0)"
    "parseWholeType ''30e8'' Integer = None" by code_simp+
  then show ?thesis
    using parseWholeType_admission [OF p ok, of Long] parseWholeType_admission [OF p ok, of Integer]
    by simp
qed

end
