(* ===== verification/Temporal.thy ===== *)
theory Temporal
  imports Data_Type Filter_Op Utf8
begin

text \<open>
  Temporal operands (\<open>temporal_subtype.go\<close>, \<open>temporal.go\<close>): the ISO-8601 layouts the code hands
  to \<open>time.Parse\<close>, modelled element by element as the standard library reads them; wall-clock
  values and their epoch milliseconds; the downscale and upscale graphs with the paths the code
  builds by depth-first search; and the conversion of an operand to each declared subtype.
\<close>

subsection \<open>Wall-clock values\<close>

record wall =
  w_year :: int
  w_month :: int
  w_day :: int
  w_hour :: int
  w_min :: int
  w_sec :: int
  w_nano :: int

text \<open>The proleptic Gregorian calendar of package \<open>time\<close>.\<close>

definition is_leap :: "int \<Rightarrow> bool" where
  "is_leap y \<longleftrightarrow> y mod 4 = 0 \<and> (y mod 100 \<noteq> 0 \<or> y mod 400 = 0)"

definition days_in :: "int \<Rightarrow> int \<Rightarrow> int" where
  "days_in m y =
     (if m = 2 then (if is_leap y then 29 else 28)
      else if m = 4 \<or> m = 6 \<or> m = 9 \<or> m = 11 then 30 else 31)"

definition days_before_month :: "int \<Rightarrow> int" where
  "days_before_month m = [0, 31, 59, 90, 120, 151, 181, 212, 243, 273, 304, 334] ! nat (m - 1)"

text \<open>Days from 1 January of year 1, and from the epoch (719162 days later).\<close>

definition days_before_year :: "int \<Rightarrow> int" where
  "days_before_year y =
     (let k = y - 1 in 365 * k + k div 4 - k div 100 + k div 400)"

definition unix_days :: "int \<Rightarrow> int \<Rightarrow> int \<Rightarrow> int" where
  "unix_days y m d =
     days_before_year y + days_before_month m + (if m > 2 \<and> is_leap y then 1 else 0) + (d - 1) - 719162"

definition tod_nanos :: "wall \<Rightarrow> int" where
  "tod_nanos w =
     w_hour w * 3600000000000 + w_min w * 60000000000 + w_sec w * 1000000000 + w_nano w"

definition wall_nanos :: "wall \<Rightarrow> int" where
  "wall_nanos w = unix_days (w_year w) (w_month w) (w_day w) * 86400000000000 + tod_nanos w"

text \<open>\<open>UnixMilli\<close> of the wall clock read at UTC: floored.\<close>

definition wall_millis :: "wall \<Rightarrow> int" where
  "wall_millis w = wall_nanos w div 1000000"

definition wall_ok :: "wall \<Rightarrow> bool" where
  "wall_ok w \<longleftrightarrow>
     1 \<le> w_month w \<and> w_month w \<le> 12 \<and> 1 \<le> w_day w \<and> w_day w \<le> days_in (w_month w) (w_year w)
     \<and> 0 \<le> w_hour w \<and> w_hour w < 24 \<and> 0 \<le> w_min w \<and> w_min w < 60
     \<and> 0 \<le> w_sec w \<and> w_sec w < 60 \<and> 0 \<le> w_nano w \<and> w_nano w < 1000000000"

definition mk_wall :: "int \<Rightarrow> int \<Rightarrow> int \<Rightarrow> int \<Rightarrow> int \<Rightarrow> int \<Rightarrow> int \<Rightarrow> wall" where
  "mk_wall y mo d h mi s ns =
     \<lparr>w_year = y, w_month = mo, w_day = d, w_hour = h, w_min = mi, w_sec = s, w_nano = ns\<rparr>"

lemma mk_wall_sel [simp]:
  "w_year (mk_wall y mo d h mi s ns) = y" "w_month (mk_wall y mo d h mi s ns) = mo"
  "w_day (mk_wall y mo d h mi s ns) = d" "w_hour (mk_wall y mo d h mi s ns) = h"
  "w_min (mk_wall y mo d h mi s ns) = mi" "w_sec (mk_wall y mo d h mi s ns) = s"
  "w_nano (mk_wall y mo d h mi s ns) = ns"
  by (simp_all add: mk_wall_def)

subsection \<open>Layouts\<close>

text \<open>
  The elements of the layouts the code uses: \<open>2006\<close>, \<open>01\<close>, \<open>02\<close>, \<open>15\<close>, \<open>04\<close>, \<open>05\<close>,
  \<open>.999999999\<close>, \<open>Z07:00\<close> and literal characters.
\<close>

datatype layout_elem = LYear | LMonth | LDay | LHour | LMinute | LSecond | LFrac9 | LZone | LLit char

text \<open>\<open>getnum\<close>: two digits, or one when the element is not fixed width.\<close>

definition getnum :: "bool \<Rightarrow> string \<Rightarrow> (int \<times> string) option" where
  "getnum fixed v =
     (case v of
        [] \<Rightarrow> None
      | c # r \<Rightarrow>
          if \<not> is_digit c then None
          else (case r of
                  [] \<Rightarrow> (if fixed then None else Some (int (digit_val c), r))
                | d # r' \<Rightarrow>
                    if is_digit d then Some (int (10 * digit_val c + digit_val d), r')
                    else if fixed then None else Some (int (digit_val c), r)))"

text \<open>A fraction: a comma or a period and at least one digit; at most nine digits count.\<close>

definition starts_frac :: "string \<Rightarrow> bool" where
  "starts_frac v \<longleftrightarrow> length v \<ge> 2 \<and> (v ! 0 = CHR ''.'' \<or> v ! 0 = CHR '','') \<and> is_digit (v ! 1)"

definition parse_frac :: "string \<Rightarrow> int \<times> string" where
  "parse_frac v =
     (let ds = takeWhile is_digit (tl v); used = take 9 ds
      in (int (dec_val used) * 10 ^ (9 - length used), dropWhile is_digit (tl v)))"

record parsed =
  p_wall :: wall
  p_zone :: "int option"

definition parsed0 :: parsed where
  "parsed0 = \<lparr>p_wall = mk_wall 0 1 1 0 0 0 0, p_zone = None\<rparr>"

text \<open>\<open>Z07:00\<close>: the letter Z, or a sign, two digits, a colon and two digits.\<close>

definition parse_zone :: "string \<Rightarrow> (int \<times> string) option" where
  "parse_zone v =
     (if v \<noteq> [] \<and> hd v = CHR ''Z'' then Some (0, tl v)
      else if length v < 6 \<or> v ! 3 \<noteq> CHR '':'' then None
      else
        (case (getnum True (take 2 (drop 1 v)), getnum True (take 2 (drop 4 v))) of
           (Some (hr, _), Some (mm, _)) \<Rightarrow>
             if hr > 24 \<or> mm > 60 then None
             else if v ! 0 = CHR ''+'' then Some ((hr * 60 + mm) * 60, drop 6 v)
             else if v ! 0 = CHR ''-'' then Some (- ((hr * 60 + mm) * 60), drop 6 v)
             else None
         | _ \<Rightarrow> None))"

fun parse_elems :: "layout_elem list \<Rightarrow> string \<Rightarrow> parsed \<Rightarrow> parsed option" where
  "parse_elems [] v p = (if v = [] then Some p else None)"
| "parse_elems (LLit c # ls) v p =
     (case v of [] \<Rightarrow> None | d # r \<Rightarrow> if d = c then parse_elems ls r p else None)"
| "parse_elems (LYear # ls) v p =
     (if length v < 4 \<or> (\<exists>c \<in> set (take 4 v). \<not> is_digit c) then None
      else parse_elems ls (drop 4 v) (p\<lparr>p_wall := (p_wall p)\<lparr>w_year := int (dec_val (take 4 v))\<rparr>\<rparr>))"
| "parse_elems (LMonth # ls) v p =
     (case getnum True v of None \<Rightarrow> None
      | Some (n, r) \<Rightarrow>
          if n \<le> 0 \<or> 12 < n then None
          else parse_elems ls r (p\<lparr>p_wall := (p_wall p)\<lparr>w_month := n\<rparr>\<rparr>))"
| "parse_elems (LDay # ls) v p =
     (case getnum True v of None \<Rightarrow> None
      | Some (n, r) \<Rightarrow> parse_elems ls r (p\<lparr>p_wall := (p_wall p)\<lparr>w_day := n\<rparr>\<rparr>))"
| "parse_elems (LHour # ls) v p =
     (case getnum False v of None \<Rightarrow> None
      | Some (n, r) \<Rightarrow>
          if 24 \<le> n then None
          else parse_elems ls r (p\<lparr>p_wall := (p_wall p)\<lparr>w_hour := n\<rparr>\<rparr>))"
| "parse_elems (LMinute # ls) v p =
     (case getnum True v of None \<Rightarrow> None
      | Some (n, r) \<Rightarrow>
          if 60 \<le> n then None
          else parse_elems ls r (p\<lparr>p_wall := (p_wall p)\<lparr>w_min := n\<rparr>\<rparr>))"
| "parse_elems (LSecond # ls) v p =
     (case getnum True v of None \<Rightarrow> None
      | Some (n, r) \<Rightarrow>
          if 60 \<le> n then None
          else
            (let q = p\<lparr>p_wall := (p_wall p)\<lparr>w_sec := n\<rparr>\<rparr> in
             if starts_frac r \<and> (ls = [] \<or> hd ls \<noteq> LFrac9) then
               parse_elems ls (snd (parse_frac r)) (q\<lparr>p_wall := (p_wall q)\<lparr>w_nano := fst (parse_frac r)\<rparr>\<rparr>)
             else parse_elems ls r q))"
| "parse_elems (LFrac9 # ls) v p =
     (if starts_frac v then
        parse_elems ls (snd (parse_frac v)) (p\<lparr>p_wall := (p_wall p)\<lparr>w_nano := fst (parse_frac v)\<rparr>\<rparr>)
      else parse_elems ls v p)"
| "parse_elems (LZone # ls) v p =
     (case parse_zone v of None \<Rightarrow> None
      | Some (off, r) \<Rightarrow> parse_elems ls r (p\<lparr>p_zone := Some off\<rparr>))"

text \<open>\<open>time.Parse\<close>: the elements, the end of the input, and the day against its month.\<close>

definition time_Parse :: "layout_elem list \<Rightarrow> string \<Rightarrow> parsed option" where
  "time_Parse layout v =
     (case parse_elems layout v parsed0 of
        None \<Rightarrow> None
      | Some p \<Rightarrow>
          (let w = p_wall p in
           if w_day w < 1 \<or> w_day w > days_in (w_month w) (w_year w) then None else Some p))"

definition date_elems :: "layout_elem list" where
  "date_elems = [LYear, LLit CHR ''-'', LMonth, LLit CHR ''-'', LDay]"

definition hm_elems :: "layout_elem list" where
  "hm_elems = [LHour, LLit CHR '':'', LMinute]"

definition hms_elems :: "layout_elem list" where
  "hms_elems = hm_elems @ [LLit CHR '':'', LSecond]"

definition RFC3339 :: "layout_elem list" where
  "RFC3339 = date_elems @ [LLit CHR ''T''] @ hms_elems @ [LZone]"

definition RFC3339Nano :: "layout_elem list" where
  "RFC3339Nano = date_elems @ [LLit CHR ''T''] @ hms_elems @ [LFrac9, LZone]"

definition localDateTimeLayouts :: "layout_elem list list" where
  "localDateTimeLayouts =
     [date_elems @ [LLit CHR ''T''] @ hms_elems @ [LFrac9],
      date_elems @ [LLit CHR ''T''] @ hms_elems,
      date_elems @ [LLit CHR ''T''] @ hm_elems]"

definition zonedDateTimeLayouts :: "layout_elem list list" where
  "zonedDateTimeLayouts = [date_elems @ [LLit CHR ''T''] @ hm_elems @ [LZone]]"

definition localTimeLayouts :: "layout_elem list list" where
  "localTimeLayouts = [hms_elems @ [LFrac9], hms_elems, hm_elems]"

text \<open>The loop over layouts: the first that parses.\<close>

fun first_parse :: "layout_elem list list \<Rightarrow> string \<Rightarrow> parsed option" where
  "first_parse [] v = None"
| "first_parse (l # ls) v = (case time_Parse l v of Some p \<Rightarrow> Some p | None \<Rightarrow> first_parse ls v)"

subsection \<open>Temporal values\<close>

record temporal_value =
  tv_type :: data_type
  tv_wall :: wall
  tv_offset :: int
  tv_zoned :: bool

definition zoneLess :: "data_type \<Rightarrow> wall \<Rightarrow> temporal_value" where
  "zoneLess t w = \<lparr>tv_type = t, tv_wall = w, tv_offset = 0, tv_zoned = False\<rparr>"

definition Millis :: "temporal_value \<Rightarrow> int" where
  "Millis tv =
     (if tv_zoned tv then (wall_nanos (tv_wall tv) - tv_offset tv * 1000000000) div 1000000
      else wall_millis (tv_wall tv))"

definition trimSign :: "string \<Rightarrow> string" where
  "trimSign s = (if s \<noteq> [] \<and> (hd s = CHR ''+'' \<or> hd s = CHR ''-'') then tl s else s)"

definition isAllDigits :: "string \<Rightarrow> bool" where
  "isAllDigits s \<longleftrightarrow> trimSign s \<noteq> [] \<and> (\<forall>c \<in> set (trimSign s). is_digit c)"

definition epoch_date :: "wall \<Rightarrow> wall" where
  "epoch_date w = mk_wall 1970 1 1 (w_hour w) (w_min w) (w_sec w) (w_nano w)"

definition ParseTemporalSubtype :: "string \<Rightarrow> data_type \<Rightarrow> temporal_value option" where
  "ParseTemporalSubtype operand t =
     (case t of
        Year \<Rightarrow>
          (if \<not> isAllDigits operand \<or> length (trimSign operand) < 4 then None
           else map_option (\<lambda>p. zoneLess Year (p_wall p)) (time_Parse [LYear] operand))
      | YearMonth \<Rightarrow>
          map_option (\<lambda>p. zoneLess YearMonth (p_wall p))
            (time_Parse [LYear, LLit CHR ''-'', LMonth] operand)
      | LocalDate \<Rightarrow> map_option (\<lambda>p. zoneLess LocalDate (p_wall p)) (time_Parse date_elems operand)
      | LocalTime \<Rightarrow>
          map_option (\<lambda>p. zoneLess LocalTime (epoch_date (p_wall p))) (first_parse localTimeLayouts operand)
      | LocalDateTime \<Rightarrow>
          (case time_Parse RFC3339Nano operand of
             Some p \<Rightarrow> Some (zoneLess LocalDateTime (p_wall p))
           | None \<Rightarrow>
               (case first_parse zonedDateTimeLayouts operand of
                  Some p \<Rightarrow> Some (zoneLess LocalDateTime (p_wall p))
                | None \<Rightarrow>
                    map_option (\<lambda>p. zoneLess LocalDateTime (p_wall p))
                      (first_parse localDateTimeLayouts operand)))
      | ZonedDateTime \<Rightarrow>
          map_option
            (\<lambda>p. \<lparr>tv_type = ZonedDateTime, tv_wall = p_wall p,
                   tv_offset = (case p_zone p of None \<Rightarrow> 0 | Some off \<Rightarrow> off), tv_zoned = True\<rparr>)
            (first_parse (RFC3339Nano # zonedDateTimeLayouts) operand)
      | _ \<Rightarrow> None)"

definition naturalParseOrder :: "data_type list" where
  "naturalParseOrder = [ZonedDateTime, LocalDateTime, LocalDate, LocalTime, YearMonth, Year]"

fun parse_in_order :: "data_type list \<Rightarrow> string \<Rightarrow> temporal_value option" where
  "parse_in_order [] operand = None"
| "parse_in_order (t # ts) operand =
     (case ParseTemporalSubtype operand t of Some v \<Rightarrow> Some v | None \<Rightarrow> parse_in_order ts operand)"

definition parseNatural :: "string \<Rightarrow> temporal_value option" where
  "parseNatural operand = parse_in_order naturalParseOrder operand"

definition ClassifyTemporalString :: "string \<Rightarrow> data_type option" where
  "ClassifyTemporalString s = map_option tv_type (parseNatural s)"

definition ParseTemporalMillis :: "string \<Rightarrow> int option" where
  "ParseTemporalMillis s =
     map_option
       (\<lambda>p. (wall_nanos (p_wall p) - (case p_zone p of None \<Rightarrow> 0 | Some off \<Rightarrow> off) * 1000000000) div 1000000)
       (time_Parse RFC3339 s)"

definition isTemporalSubtype :: "data_type \<Rightarrow> bool" where
  "isTemporalSubtype t \<longleftrightarrow>
     t \<in> {LocalDate, LocalDateTime, LocalTime, ZonedDateTime, Year, YearMonth}"

subsection \<open>The resolution graph\<close>

definition floorToYear :: "temporal_value \<Rightarrow> temporal_value" where
  "floorToYear v = zoneLess Year (mk_wall (w_year (tv_wall v)) 1 1 0 0 0 0)"

definition floorToYearMonth :: "temporal_value \<Rightarrow> temporal_value" where
  "floorToYearMonth v =
     zoneLess YearMonth (mk_wall (w_year (tv_wall v)) (w_month (tv_wall v)) 1 0 0 0 0)"

definition floorToLocalDate :: "temporal_value \<Rightarrow> temporal_value" where
  "floorToLocalDate v =
     zoneLess LocalDate
       (mk_wall (w_year (tv_wall v)) (w_month (tv_wall v)) (w_day (tv_wall v)) 0 0 0 0)"

definition floorToLocalTime :: "temporal_value \<Rightarrow> temporal_value" where
  "floorToLocalTime v = zoneLess LocalTime (epoch_date (tv_wall v))"

definition dropZone :: "temporal_value \<Rightarrow> temporal_value" where
  "dropZone v = zoneLess LocalDateTime (tv_wall v)"

definition timeOfDayNanos :: "wall \<Rightarrow> int" where
  "timeOfDayNanos w = tod_nanos w"

definition isEpochDate :: "wall \<Rightarrow> bool" where
  "isEpochDate w \<longleftrightarrow> w_year w = 1970 \<and> w_month w = 1 \<and> w_day w = 1"

text \<open>The upscale floors build an untyped value that the edge re-tags.\<close>

definition retag :: "temporal_value \<Rightarrow> data_type \<Rightarrow> temporal_value" where
  "retag v t = v\<lparr>tv_type := t\<rparr>"

definition floorToYearMonthStart :: "temporal_value \<Rightarrow> temporal_value" where
  "floorToYearMonthStart v = zoneLess Integer (mk_wall (w_year (tv_wall v)) 1 1 0 0 0 0)"

definition floorToDayStart :: "temporal_value \<Rightarrow> temporal_value" where
  "floorToDayStart v =
     zoneLess Integer (mk_wall (w_year (tv_wall v)) (w_month (tv_wall v)) 1 0 0 0 0)"

definition floorToMidnight :: "temporal_value \<Rightarrow> temporal_value" where
  "floorToMidnight v =
     zoneLess Integer
       (mk_wall (w_year (tv_wall v)) (w_month (tv_wall v)) (w_day (tv_wall v)) 0 0 0 0)"

definition atEpochDate :: "temporal_value \<Rightarrow> temporal_value" where
  "atEpochDate v = zoneLess LocalDateTime (tv_wall v)"

definition atUTC :: "temporal_value \<Rightarrow> temporal_value" where
  "atUTC v = \<lparr>tv_type = ZonedDateTime, tv_wall = tv_wall v, tv_offset = 0, tv_zoned = True\<rparr>"

record down_edge =
  de_to :: data_type
  de_convert :: "temporal_value \<Rightarrow> temporal_value"
  de_precise :: "temporal_value \<Rightarrow> bool"
  de_modify :: bool

record up_edge =
  ue_to :: data_type
  ue_convert :: "temporal_value \<Rightarrow> temporal_value"

definition edge_month_year :: down_edge where
  "edge_month_year =
     \<lparr>de_to = Year, de_convert = floorToYear,
      de_precise = (\<lambda>v. w_month (tv_wall v) = 1), de_modify = True\<rparr>"

definition edge_date_month :: down_edge where
  "edge_date_month =
     \<lparr>de_to = YearMonth, de_convert = floorToYearMonth,
      de_precise = (\<lambda>v. w_day (tv_wall v) = 1), de_modify = True\<rparr>"

definition edge_datetime_date :: down_edge where
  "edge_datetime_date =
     \<lparr>de_to = LocalDate, de_convert = floorToLocalDate,
      de_precise = (\<lambda>v. timeOfDayNanos (tv_wall v) = 0), de_modify = True\<rparr>"

definition edge_datetime_time :: down_edge where
  "edge_datetime_time =
     \<lparr>de_to = LocalTime, de_convert = floorToLocalTime,
      de_precise = (\<lambda>v. isEpochDate (tv_wall v)), de_modify = False\<rparr>"

definition edge_zoned_datetime :: down_edge where
  "edge_zoned_datetime =
     \<lparr>de_to = LocalDateTime, de_convert = dropZone, de_precise = (\<lambda>v. True), de_modify = True\<rparr>"

fun downGraph :: "data_type \<Rightarrow> down_edge list" where
  "downGraph YearMonth = [edge_month_year]"
| "downGraph LocalDate = [edge_date_month]"
| "downGraph LocalDateTime = [edge_datetime_date, edge_datetime_time]"
| "downGraph ZonedDateTime = [edge_zoned_datetime]"
| "downGraph _ = []"

lemmas edge_defs = edge_month_year_def edge_date_month_def edge_datetime_date_def
  edge_datetime_time_def edge_zoned_datetime_def

lemma edge_to [simp]:
  "de_to edge_month_year = Year" "de_to edge_date_month = YearMonth"
  "de_to edge_datetime_date = LocalDate" "de_to edge_datetime_time = LocalTime"
  "de_to edge_zoned_datetime = LocalDateTime"
  by (simp_all add: edge_defs)

fun upGraph :: "data_type \<Rightarrow> up_edge list" where
  "upGraph Year = [\<lparr>ue_to = YearMonth, ue_convert = (\<lambda>v. retag (floorToYearMonthStart v) YearMonth)\<rparr>]"
| "upGraph YearMonth = [\<lparr>ue_to = LocalDate, ue_convert = (\<lambda>v. retag (floorToDayStart v) LocalDate)\<rparr>]"
| "upGraph LocalDate = [\<lparr>ue_to = LocalDateTime, ue_convert = (\<lambda>v. retag (floorToMidnight v) LocalDateTime)\<rparr>]"
| "upGraph LocalTime = [\<lparr>ue_to = LocalDateTime, ue_convert = atEpochDate\<rparr>]"
| "upGraph LocalDateTime = [\<lparr>ue_to = ZonedDateTime, ue_convert = atUTC\<rparr>]"
| "upGraph _ = []"

subsection \<open>Paths\<close>

text \<open>
  The depth-first search of \<open>buildDownPaths\<close> and \<open>buildUpPaths\<close>: every assignment to the path
  map, in order; the last assignment to a key wins. The rank of a node decreases along the edges,
  so the search ends.
\<close>

fun down_rank :: "data_type \<Rightarrow> nat" where
  "down_rank ZonedDateTime = 4"
| "down_rank LocalDateTime = 3"
| "down_rank LocalDate = 2"
| "down_rank YearMonth = 1"
| "down_rank _ = 0"

fun up_rank :: "data_type \<Rightarrow> nat" where
  "up_rank Year = 4"
| "up_rank YearMonth = 3"
| "up_rank LocalDate = 2"
| "up_rank LocalTime = 2"
| "up_rank LocalDateTime = 1"
| "up_rank _ = 0"

lemma down_rank_edge: "e \<in> set (downGraph t) \<Longrightarrow> down_rank (de_to e) < down_rank t"
  by (cases t) auto

lemma up_rank_edge: "e \<in> set (upGraph t) \<Longrightarrow> up_rank (ue_to e) < up_rank t"
  by (cases t) auto

function down_dfs :: "data_type \<Rightarrow> down_edge list \<Rightarrow> (data_type \<times> down_edge list) list" where
  "down_dfs current soFar =
     concat (map (\<lambda>e. (de_to e, soFar @ [e]) # down_dfs (de_to e) (soFar @ [e])) (downGraph current))"
  by pat_completeness auto
termination
  by (relation "measure (\<lambda>(c, p). down_rank c)") (auto intro: down_rank_edge)

declare down_dfs.simps [simp del]

function up_dfs :: "data_type \<Rightarrow> up_edge list \<Rightarrow> (data_type \<times> up_edge list) list" where
  "up_dfs current soFar =
     concat (map (\<lambda>e. (ue_to e, soFar @ [e]) # up_dfs (ue_to e) (soFar @ [e])) (upGraph current))"
  by pat_completeness auto
termination
  by (relation "measure (\<lambda>(c, p). up_rank c)") (auto intro: up_rank_edge)

declare up_dfs.simps [simp del]

definition downPaths :: "data_type \<Rightarrow> data_type \<Rightarrow> down_edge list option" where
  "downPaths src dst = map_of (rev (down_dfs src [])) dst"

definition upPaths :: "data_type \<Rightarrow> data_type \<Rightarrow> up_edge list option" where
  "upPaths src dst = map_of (rev (up_dfs src [])) dst"

subsection \<open>Conversion\<close>

record temporal_cond =
  tc_type :: data_type
  tc_millis :: int
  tc_op :: filter_op

definition mutateDownscaleOp :: "filter_op \<Rightarrow> filter_op" where
  "mutateDownscaleOp p =
     (if p = FilterGte then FilterGt else if p = FilterLt then FilterLte else p)"

text \<open>The loop over a downscale path: the value under conversion and the possibly mutated operator.\<close>

fun walk_down ::
  "filter_op \<Rightarrow> down_edge list \<Rightarrow> temporal_value \<Rightarrow> filter_op \<Rightarrow> (temporal_value \<times> filter_op) option" where
  "walk_down p [] v q = Some (v, q)"
| "walk_down p (e # es) v q =
     (if \<not> de_precise e v then
        (if p = FilterEq then None
         else walk_down p es (de_convert e v) (if de_modify e then mutateDownscaleOp p else q))
      else walk_down p es (de_convert e v) q)"

definition convertTemporal ::
  "data_type \<Rightarrow> data_type \<Rightarrow> temporal_value \<Rightarrow> filter_op \<Rightarrow> temporal_cond option" where
  "convertTemporal src dst v p =
     (case downPaths src dst of
        Some path \<Rightarrow>
          (case walk_down p path v p of
             None \<Rightarrow> None
           | Some (w, q) \<Rightarrow> Some \<lparr>tc_type = dst, tc_millis = Millis w, tc_op = q\<rparr>)
      | None \<Rightarrow>
          (case upPaths src dst of
             Some path \<Rightarrow>
               Some \<lparr>tc_type = dst, tc_millis = Millis (fold ue_convert path v), tc_op = p\<rparr>
           | None \<Rightarrow> None))"

definition ExpandTemporalOperand ::
  "string \<Rightarrow> data_type list \<Rightarrow> filter_op \<Rightarrow> temporal_cond list" where
  "ExpandTemporalOperand operand declaredTemporal p =
     (case parseNatural operand of
        None \<Rightarrow> []
      | Some src \<Rightarrow>
          concat (map (\<lambda>t.
            if \<not> isTemporalSubtype t then []
            else if t = tv_type src then [\<lparr>tc_type = t, tc_millis = Millis src, tc_op = p\<rparr>]
            else (case convertTemporal (tv_type src) t src p of None \<Rightarrow> [] | Some c \<Rightarrow> [c]))
            declaredTemporal))"

definition CompareTemporal :: "filter_op \<Rightarrow> int \<Rightarrow> bool \<Rightarrow> int \<Rightarrow> bool \<Rightarrow> bool" where
  "CompareTemporal p storedMs storedOK cmpMs cmpOK =
     (if \<not> storedOK \<or> \<not> cmpOK then p = FilterNe
      else (case p of
              FilterEq \<Rightarrow> storedMs = cmpMs
            | FilterNe \<Rightarrow> storedMs \<noteq> cmpMs
            | FilterGt \<Rightarrow> storedMs > cmpMs
            | FilterLt \<Rightarrow> storedMs < cmpMs
            | FilterGte \<Rightarrow> storedMs \<ge> cmpMs
            | FilterLte \<Rightarrow> storedMs \<le> cmpMs
            | _ \<Rightarrow> False))"

lemma CompareTemporal_rel [simp]: "CompareTemporal p a True b True = rel_op p a b"
  by (cases p) (simp_all add: CompareTemporal_def)

text \<open>The paths the search finds.\<close>

lemma down_dfs_eqs:
  "down_dfs Year s = []" "down_dfs LocalTime s = []"
  "down_dfs YearMonth s = [(Year, s @ [edge_month_year])]"
  "down_dfs LocalDate s =
     [(YearMonth, s @ [edge_date_month]), (Year, s @ [edge_date_month, edge_month_year])]"
  "down_dfs LocalDateTime s =
     [(LocalDate, s @ [edge_datetime_date]), (YearMonth, s @ [edge_datetime_date, edge_date_month]),
      (Year, s @ [edge_datetime_date, edge_date_month, edge_month_year]),
      (LocalTime, s @ [edge_datetime_time])]"
  "down_dfs ZonedDateTime s =
     (LocalDateTime, s @ [edge_zoned_datetime]) # down_dfs LocalDateTime (s @ [edge_zoned_datetime])"
  by (simp_all add: down_dfs.simps [of Year] down_dfs.simps [of LocalTime]
      down_dfs.simps [of YearMonth] down_dfs.simps [of LocalDate]
      down_dfs.simps [of LocalDateTime] down_dfs.simps [of ZonedDateTime])

lemma downPaths_coarse:
  "downPaths YearMonth Year = Some [edge_month_year]"
  "downPaths LocalDate YearMonth = Some [edge_date_month]"
  "downPaths LocalDate Year = Some [edge_date_month, edge_month_year]"
  "downPaths LocalDateTime LocalDate = Some [edge_datetime_date]"
  "downPaths LocalDateTime YearMonth = Some [edge_datetime_date, edge_date_month]"
  "downPaths LocalDateTime Year = Some [edge_datetime_date, edge_date_month, edge_month_year]"
  "downPaths ZonedDateTime LocalDate = Some [edge_zoned_datetime, edge_datetime_date]"
  "downPaths ZonedDateTime YearMonth = Some [edge_zoned_datetime, edge_datetime_date, edge_date_month]"
  "downPaths ZonedDateTime Year =
     Some [edge_zoned_datetime, edge_datetime_date, edge_date_month, edge_month_year]"
  by (simp_all add: downPaths_def down_dfs_eqs)

subsection \<open>The calendar\<close>

lemma div_pred: "0 < k \<Longrightarrow> (y::int) div k = (y - 1) div k + (if y mod k = 0 then 1 else 0)"
proof -
  assume k: "0 < k"
  have y: "y = k * (y div k) + y mod k" by simp
  show ?thesis
  proof (cases "y mod k = 0")
    case True
    have "y - 1 = k * (y div k - 1) + (k - 1)" using y True by (simp add: algebra_simps)
    then have "(y - 1) div k = y div k - 1" by (rule int_div_pos_eq) (use k in simp_all)
    then show ?thesis using True by simp
  next
    case False
    have "0 \<le> y mod k" "y mod k < k" using k by simp_all
    then have r: "0 \<le> y mod k - 1" "y mod k - 1 < k" using False by linarith+
    have "y - 1 = k * (y div k) + (y mod k - 1)" by simp
    then have "(y - 1) div k = y div k" by (rule int_div_pos_eq) (use r in simp_all)
    then show ?thesis using False by simp
  qed
qed

lemma leap_step:
  fixes y a b c a' b' c' :: int
  assumes "a = a' + (if p then 1 else 0)" "b = b' + (if q then 1 else 0)"
    "c = c' + (if r then 1 else 0)" "r \<Longrightarrow> q" "q \<Longrightarrow> p"
  shows "365 * y + a - b + c =
    365 * (y - 1) + a' - b' + c' + (if p \<and> (\<not> q \<or> r) then 366 else 365)"
  using assms by (cases p; cases q; cases r) simp_all

lemma days_before_year_step:
  "days_before_year (y + 1) = days_before_year y + (if is_leap y then 366 else 365)"
proof -
  have "4 dvd (100::int)" "100 dvd (400::int)" by simp_all
  then have m: "y mod 400 = 0 \<Longrightarrow> y mod 100 = 0" "y mod 100 = 0 \<Longrightarrow> y mod 4 = 0"
    by (meson dvd_trans mod_0_imp_dvd dvd_imp_mod_0)+
  have "days_before_year (y + 1) = 365 * y + y div 4 - y div 100 + y div 400"
    by (simp add: days_before_year_def)
  also have "\<dots> = 365 * (y - 1) + (y - 1) div 4 - (y - 1) div 100 + (y - 1) div 400
      + (if y mod 4 = 0 \<and> (\<not> y mod 100 = 0 \<or> y mod 400 = 0) then 366 else 365)"
    by (rule leap_step; (rule div_pred)?; (rule m)?; simp?)
  also have "\<dots> = days_before_year y + (if is_leap y then 366 else 365)"
    by (simp only: days_before_year_def is_leap_def Let_def)
  finally show ?thesis .
qed

lemma days_before_year_mono:
  assumes "y < y'"
  shows "days_before_year y + (if is_leap y then 366 else 365) \<le> days_before_year y'"
proof -
  have "days_before_year (y + 1) \<le> days_before_year (y + 1 + int n)" for n
  proof (induction n)
    case (Suc n)
    have "y + 1 + int (Suc n) = (y + 1 + int n) + 1" by simp
    then show ?case using Suc days_before_year_step [of "y + 1 + int n"] by simp
  qed simp
  from this [of "nat (y' - (y + 1))"] assms days_before_year_step [of y] show ?thesis by simp
qed

definition year_day :: "int \<Rightarrow> int \<Rightarrow> int" where
  "year_day y m = days_before_month m + (if m > 2 \<and> is_leap y then 1 else 0)"

lemma month_cases:
  "1 \<le> (m::int) \<Longrightarrow> m \<le> 12 \<Longrightarrow>
   m = 1 \<or> m = 2 \<or> m = 3 \<or> m = 4 \<or> m = 5 \<or> m = 6 \<or> m = 7 \<or> m = 8 \<or> m = 9 \<or> m = 10 \<or> m = 11 \<or> m = 12"
  by presburger

lemma year_day_step:
  "1 \<le> m \<Longrightarrow> m \<le> 11 \<Longrightarrow> year_day y (m + 1) = year_day y m + days_in m y"
  using month_cases [of m] by (auto simp: year_day_def days_before_month_def days_in_def)

lemma days_in_pos: "28 \<le> days_in m y"
  by (simp add: days_in_def)

lemma year_day_mono:
  assumes "1 \<le> m" and "m < m'" and "m' \<le> 12"
  shows "year_day y m + days_in m y \<le> year_day y m'"
proof -
  have "int n \<le> 11 - m \<Longrightarrow> year_day y (m + 1) \<le> year_day y (m + 1 + int n)" for n
  proof (induction n)
    case (Suc n)
    have "m + 1 + int (Suc n) = (m + 1 + int n) + 1" by simp
    then show ?case
      using Suc year_day_step [of "m + 1 + int n" y] days_in_pos [of "m + 1 + int n" y] assms by simp
  qed simp
  from this [of "nat (m' - (m + 1))"] year_day_step [of m y] assms show ?thesis by simp
qed

lemma year_day_bound:
  "1 \<le> m \<Longrightarrow> m \<le> 12 \<Longrightarrow> 0 \<le> year_day y m \<and> year_day y m + days_in m y \<le> (if is_leap y then 366 else 365)"
  using month_cases [of m] by (auto simp: year_day_def days_before_month_def days_in_def)

lemma unix_days_year_day: "unix_days y m d = days_before_year y + year_day y m + d - 719163"
  by (simp add: unix_days_def year_day_def)

text \<open>Days are ordered as (year, month, day) triples.\<close>

lemma unix_days_less:
  assumes "1 \<le> m" "m \<le> 12" "1 \<le> d" "d \<le> days_in m y"
    and "1 \<le> m'" "m' \<le> 12" "1 \<le> d'" "d' \<le> days_in m' y'"
    and "y < y' \<or> y = y' \<and> (m < m' \<or> m = m' \<and> d < d')"
  shows "unix_days y m d < unix_days y' m' d'"
  using assms(9)
proof (elim disjE conjE)
  assume "y < y'"
  then show ?thesis
    using days_before_year_mono [of y y'] year_day_bound [of m y] year_day_bound [of m' y'] assms
    unfolding unix_days_year_day by linarith
next
  assume "y = y'" "m < m'"
  then show ?thesis using year_day_mono [of m m' y] assms(1-8) unfolding unix_days_year_day by simp
next
  assume "y = y'" "m = m'" "d < d'"
  then show ?thesis unfolding unix_days_year_day by simp
qed

lemma tod_bounds: "wall_ok w \<Longrightarrow> 0 \<le> tod_nanos w \<and> tod_nanos w < 86400000000000"
  by (auto simp: wall_ok_def tod_nanos_def)

lemma wall_nanos_days_less:
  assumes v: "wall_ok v" and w: "wall_ok w"
    and lt: "w_year v < w_year w \<or> w_year v = w_year w \<and>
      (w_month v < w_month w \<or> w_month v = w_month w \<and> w_day v < w_day w)"
  shows "wall_nanos v < wall_nanos w"
proof -
  have "unix_days (w_year v) (w_month v) (w_day v) < unix_days (w_year w) (w_month w) (w_day w)"
    using v w lt by (intro unix_days_less) (auto simp: wall_ok_def)
  then show ?thesis using tod_bounds [OF v] tod_bounds [OF w] by (simp add: wall_nanos_def)
qed

lemma wall_nanos_le_date:
  assumes "wall_ok v" and "wall_ok w" and "wall_nanos v \<le> wall_nanos w"
  shows "w_year v < w_year w \<or> w_year v = w_year w \<and>
    (w_month v < w_month w \<or> w_month v = w_month w \<and> w_day v \<le> w_day w)"
  using wall_nanos_days_less [OF assms(2,1)] assms(3) by force

subsection \<open>Flooring to a calendar period\<close>

text \<open>
  What a downscale hop relies on: flooring stays on the calendar, is monotone and idempotent,
  lands on midnight, and moves the value exactly when the precision test fails.
\<close>

locale calendar_floor =
  fixes floorW :: "wall \<Rightarrow> wall" and precise :: "wall \<Rightarrow> bool"
  assumes floor_ok: "wall_ok w \<Longrightarrow> wall_ok (floorW w)"
    and floor_idem: "floorW (floorW w) = floorW w"
    and floor_mono: "wall_ok v \<Longrightarrow> wall_ok w \<Longrightarrow> wall_nanos v \<le> wall_nanos w \<Longrightarrow>
      wall_nanos (floorW v) \<le> wall_nanos (floorW w)"
    and floor_midnight: "tod_nanos (floorW w) = 0"
    and floor_precise: "wall_ok w \<Longrightarrow> precise w \<Longrightarrow> wall_nanos (floorW w) = wall_nanos w"
    and floor_imprecise: "wall_ok w \<Longrightarrow> \<not> precise w \<Longrightarrow> wall_nanos (floorW w) < wall_nanos w"
begin

lemma floor_le: "wall_ok w \<Longrightarrow> wall_nanos (floorW w) \<le> wall_nanos w"
  using floor_precise [of w] floor_imprecise [of w] by (cases "precise w") auto

text \<open>The adjunction between the periods and the finer values.\<close>

lemma below_iff:
  "wall_ok g \<Longrightarrow> wall_ok w \<Longrightarrow> floorW g = g \<Longrightarrow>
   wall_nanos g \<le> wall_nanos w \<longleftrightarrow> wall_nanos g \<le> wall_nanos (floorW w)"
  using floor_mono [of g w] floor_le [of w] by auto

lemma floored_rel:
  assumes ok: "wall_ok g" "wall_ok w" and g: "floorW g = g" and p: "isComparingOp p"
  shows "rel_op (if precise w then p else mutateDownscaleOp p) (wall_nanos g) (wall_nanos (floorW w))
    = rel_op p (wall_nanos g) (wall_nanos w)"
proof (cases "precise w")
  case True
  then show ?thesis using floor_precise [OF ok(2)] by simp
next
  case False
  then have "wall_nanos (floorW w) < wall_nanos w" using floor_imprecise ok by blast
  then show ?thesis using below_iff [OF ok g] p False
    by (auto simp: isComparingOp_def mutateDownscaleOp_def)
qed

lemma millis_exact: "tod_nanos w = 0 \<Longrightarrow> wall_nanos w = 1000000 * wall_millis w"
  by (simp add: wall_millis_def wall_nanos_def)

lemma floored_rel_millis:
  assumes ok: "wall_ok g" "wall_ok w" and g: "floorW g = g" and p: "isComparingOp p"
  shows "rel_op (if precise w then p else mutateDownscaleOp p) (wall_millis g) (wall_millis (floorW w))
    = rel_op p (wall_nanos g) (wall_nanos w)"
proof -
  have "wall_nanos g = 1000000 * wall_millis g"
    using millis_exact [of g] floor_midnight [of g] g by simp
  moreover have "wall_nanos (floorW w) = 1000000 * wall_millis (floorW w)"
    using millis_exact floor_midnight by blast
  ultimately have "rel_op q (wall_millis g) (wall_millis (floorW w))
      = rel_op q (wall_nanos g) (wall_nanos (floorW w))" for q
    by (cases q) simp_all
  then show ?thesis using floored_rel [OF assms] by simp
qed

lemma floored_eq:
  assumes ok: "wall_ok g" "wall_ok w" and g: "floorW g = g"
  shows "wall_nanos g = wall_nanos w \<longleftrightarrow> precise w \<and> wall_millis g = wall_millis (floorW w)"
proof -
  have "wall_nanos g = 1000000 * wall_millis g"
    using millis_exact [of g] floor_midnight [of g] g by simp
  moreover have "wall_nanos (floorW w) = 1000000 * wall_millis (floorW w)"
    using millis_exact floor_midnight by blast
  ultimately show ?thesis
    using floor_precise [OF ok(2)] floor_imprecise [OF ok(2)] below_iff [OF ok g]
    by (cases "precise w") auto
qed

end

definition floorY :: "wall \<Rightarrow> wall" where
  "floorY w = mk_wall (w_year w) 1 1 0 0 0 0"
definition floorM :: "wall \<Rightarrow> wall" where
  "floorM w = mk_wall (w_year w) (w_month w) 1 0 0 0 0"
definition floorD :: "wall \<Rightarrow> wall" where
  "floorD w = mk_wall (w_year w) (w_month w) (w_day w) 0 0 0 0"

lemma tod_mk [simp]: "tod_nanos (mk_wall y m d 0 0 0 0) = 0"
  by (simp add: tod_nanos_def)

lemma floor_walls_ok:
  "wall_ok w \<Longrightarrow> wall_ok (floorY w)" "wall_ok w \<Longrightarrow> wall_ok (floorM w)" "wall_ok w \<Longrightarrow> wall_ok (floorD w)"
  using days_in_pos [of 1 "w_year w"] days_in_pos [of "w_month w" "w_year w"]
  by (auto simp: wall_ok_def floorY_def floorM_def floorD_def)

lemma same_date_nanos:
  "w_year v = w_year w \<Longrightarrow> w_month v = w_month w \<Longrightarrow> w_day v = w_day w \<Longrightarrow>
   wall_nanos w - wall_nanos v = tod_nanos w - tod_nanos v"
  by (simp add: wall_nanos_def)

lemma tod_zero_or_pos: "wall_ok w \<Longrightarrow> tod_nanos w \<noteq> 0 \<Longrightarrow> 0 < tod_nanos w"
  using tod_bounds [of w] by simp

text \<open>An earlier or equal date with midnight gives an earlier or equal instant.\<close>

lemma midnight_le:
  assumes ok: "wall_ok v" "wall_ok w" and "tod_nanos v = 0"
    and "w_year v < w_year w \<or> w_year v = w_year w \<and>
      (w_month v < w_month w \<or> w_month v = w_month w \<and> w_day v \<le> w_day w)"
  shows "wall_nanos v \<le> wall_nanos w"
proof (cases "w_year v = w_year w \<and> w_month v = w_month w \<and> w_day v = w_day w")
  case True
  then show ?thesis using same_date_nanos [of v w] tod_bounds [OF ok(2)] assms(3) by simp
next
  case False
  then have "wall_nanos v < wall_nanos w" using assms(4) by (intro wall_nanos_days_less [OF ok]) auto
  then show ?thesis by simp
qed

lemma midnight_less:
  assumes ok: "wall_ok v" "wall_ok w" and "tod_nanos v = 0"
    and "w_year v < w_year w \<or> w_year v = w_year w \<and>
      (w_month v < w_month w \<or> w_month v = w_month w \<and>
        (w_day v < w_day w \<or> w_day v = w_day w \<and> tod_nanos w \<noteq> 0))"
  shows "wall_nanos v < wall_nanos w"
proof (cases "w_year v = w_year w \<and> w_month v = w_month w \<and> w_day v = w_day w")
  case True
  then show ?thesis
    using same_date_nanos [of v w] tod_zero_or_pos [OF ok(2)] assms(3,4) by simp
next
  case False
  then show ?thesis using assms(4) by (intro wall_nanos_days_less [OF ok]) auto
qed

interpretation year: calendar_floor floorY
  "\<lambda>w. w_month w = 1 \<and> w_day w = 1 \<and> tod_nanos w = 0"
proof unfold_locales
  fix v w
  show "wall_ok w \<Longrightarrow> wall_ok (floorY w)" by (rule floor_walls_ok)
  show "floorY (floorY w) = floorY w" "tod_nanos (floorY w) = 0" by (simp_all add: floorY_def)
  show "wall_nanos (floorY v) \<le> wall_nanos (floorY w)"
    if "wall_ok v" "wall_ok w" "wall_nanos v \<le> wall_nanos w"
    using wall_nanos_le_date [OF that] floor_walls_ok(1) that(1,2)
    by (intro midnight_le) (auto simp: floorY_def)
  show "wall_nanos (floorY w) = wall_nanos w" if "wall_ok w" "w_month w = 1 \<and> w_day w = 1 \<and> tod_nanos w = 0"
    using same_date_nanos [of "floorY w" w] that by (simp add: floorY_def)
  show "wall_nanos (floorY w) < wall_nanos w"
    if "wall_ok w" "\<not> (w_month w = 1 \<and> w_day w = 1 \<and> tod_nanos w = 0)"
    using that floor_walls_ok(1) by (intro midnight_less) (auto simp: floorY_def wall_ok_def)
qed

interpretation month: calendar_floor floorM "\<lambda>w. w_day w = 1 \<and> tod_nanos w = 0"
proof unfold_locales
  fix v w
  show "wall_ok w \<Longrightarrow> wall_ok (floorM w)" by (rule floor_walls_ok)
  show "floorM (floorM w) = floorM w" "tod_nanos (floorM w) = 0" by (simp_all add: floorM_def)
  show "wall_nanos (floorM v) \<le> wall_nanos (floorM w)"
    if "wall_ok v" "wall_ok w" "wall_nanos v \<le> wall_nanos w"
    using wall_nanos_le_date [OF that] floor_walls_ok(2) that(1,2)
    by (intro midnight_le) (auto simp: floorM_def)
  show "wall_nanos (floorM w) = wall_nanos w" if "wall_ok w" "w_day w = 1 \<and> tod_nanos w = 0"
    using same_date_nanos [of "floorM w" w] that by (simp add: floorM_def)
  show "wall_nanos (floorM w) < wall_nanos w"
    if "wall_ok w" "\<not> (w_day w = 1 \<and> tod_nanos w = 0)"
    using that floor_walls_ok(2) by (intro midnight_less) (auto simp: floorM_def wall_ok_def)
qed

interpretation date: calendar_floor floorD "\<lambda>w. tod_nanos w = 0"
proof unfold_locales
  fix v w
  show "wall_ok w \<Longrightarrow> wall_ok (floorD w)" by (rule floor_walls_ok)
  show "floorD (floorD w) = floorD w" "tod_nanos (floorD w) = 0" by (simp_all add: floorD_def)
  show "wall_nanos (floorD v) \<le> wall_nanos (floorD w)"
    if "wall_ok v" "wall_ok w" "wall_nanos v \<le> wall_nanos w"
    using wall_nanos_le_date [OF that] floor_walls_ok(3) that(1,2)
    by (intro midnight_le) (auto simp: floorD_def)
  show "wall_nanos (floorD w) = wall_nanos w" if "wall_ok w" "tod_nanos w = 0"
    using same_date_nanos [of "floorD w" w] that by (simp add: floorD_def)
  show "wall_nanos (floorD w) < wall_nanos w" if "wall_ok w" "tod_nanos w \<noteq> 0"
    using that floor_walls_ok(3) by (intro midnight_less) (auto simp: floorD_def wall_ok_def)
qed

subsection \<open>Downscaling an operand\<close>

text \<open>
  A value of a subtype: its wall clock is valid and floored to the subtype, and only a zoned
  date-time carries an offset.
\<close>

definition tv_wf :: "temporal_value \<Rightarrow> bool" where
  "tv_wf v \<longleftrightarrow> wall_ok (tv_wall v)
     \<and> (tv_zoned v \<longrightarrow> tv_type v = ZonedDateTime)
     \<and> (tv_type v = Year \<longrightarrow> floorY (tv_wall v) = tv_wall v)
     \<and> (tv_type v = YearMonth \<longrightarrow> floorM (tv_wall v) = tv_wall v)
     \<and> (tv_type v = LocalDate \<longrightarrow> floorD (tv_wall v) = tv_wall v)
     \<and> (tv_type v = LocalTime \<longrightarrow> epoch_date (tv_wall v) = tv_wall v)"

definition period_floor :: "data_type \<Rightarrow> wall \<Rightarrow> wall" where
  "period_floor t w = (if t = Year then floorY w else if t = YearMonth then floorM w else floorD w)"

definition period_precise :: "data_type \<Rightarrow> wall \<Rightarrow> bool" where
  "period_precise t w \<longleftrightarrow> tod_nanos w = 0
     \<and> (t = YearMonth \<or> t = Year \<longrightarrow> w_day w = 1) \<and> (t = Year \<longrightarrow> w_month w = 1)"

lemma floor_values [simp]:
  "floorToYear v = zoneLess Year (floorY (tv_wall v))"
  "floorToYearMonth v = zoneLess YearMonth (floorM (tv_wall v))"
  "floorToLocalDate v = zoneLess LocalDate (floorD (tv_wall v))"
  by (simp_all add: floorToYear_def floorToYearMonth_def floorToLocalDate_def
      floorY_def floorM_def floorD_def)

lemma zoneLess_sel [simp]:
  "tv_wall (zoneLess t w) = w" "tv_type (zoneLess t w) = t" "tv_zoned (zoneLess t w) = False"
  "tv_offset (zoneLess t w) = 0" "Millis (zoneLess t w) = wall_millis w"
  by (simp_all add: zoneLess_def Millis_def)

lemma floor_floor [simp]:
  "floorY (floorM w) = floorY w" "floorY (floorD w) = floorY w" "floorM (floorD w) = floorM w"
  "w_day (floorM w) = 1" "w_day (floorD w) = w_day w" "w_month (floorM w) = w_month w"
  "w_month (floorD w) = w_month w"
  by (simp_all add: floorY_def floorM_def floorD_def)

lemma floored_fields:
  "floorM w = w \<Longrightarrow> w_day w = 1 \<and> tod_nanos w = 0" "floorD w = w \<Longrightarrow> tod_nanos w = 0"
  using tod_mk [of "w_year w" "w_month w" 1] tod_mk [of "w_year w" "w_month w" "w_day w"]
  by (metis floorM_def mk_wall_sel(3), metis floorD_def)

text \<open>Along every path to a calendar period the hops compose to one floor and one precision test.\<close>

definition down_targets :: "data_type \<Rightarrow> data_type list" where
  "down_targets t = map fst (down_dfs t [])"

lemma down_targets_eq:
  "down_targets t =
     (case t of
        YearMonth \<Rightarrow> [Year] | LocalDate \<Rightarrow> [YearMonth, Year]
      | LocalDateTime \<Rightarrow> [LocalDate, YearMonth, Year, LocalTime]
      | ZonedDateTime \<Rightarrow> [LocalDateTime, LocalDate, YearMonth, Year, LocalTime]
      | _ \<Rightarrow> [])"
proof (cases "downGraph t = []")
  case True
  then have "down_dfs t [] = []" by (subst down_dfs.simps) simp
  with True show ?thesis by (cases t) (simp_all add: down_targets_def)
next
  case False
  then show ?thesis by (cases t) (simp_all add: down_targets_def down_dfs_eqs)
qed

lemma walk_down_period:
  assumes path: "downPaths (tv_type v) dst = Some path" and wf: "tv_wf v"
    and dst: "dst \<in> {Year, YearMonth, LocalDate}"
  shows "walk_down p path v p =
    (if period_precise dst (tv_wall v) then Some (zoneLess dst (period_floor dst (tv_wall v)), p)
     else if p = FilterEq then None
     else Some (zoneLess dst (period_floor dst (tv_wall v)), mutateDownscaleOp p))"
proof -
  have src: "(tv_type v, dst) \<in> {(YearMonth, Year), (LocalDate, YearMonth), (LocalDate, Year),
      (LocalDateTime, LocalDate), (LocalDateTime, YearMonth), (LocalDateTime, Year),
      (ZonedDateTime, LocalDate), (ZonedDateTime, YearMonth), (ZonedDateTime, Year)}"
  proof -
    have "(dst, path) \<in> set (down_dfs (tv_type v) [])"
      using path map_of_SomeD [of "rev (down_dfs (tv_type v) [])" dst path] by (simp add: downPaths_def)
    then have "dst \<in> set (down_targets (tv_type v))"
      unfolding down_targets_def by (metis fst_conv image_eqI list.set_map)
    then show ?thesis using dst down_targets_eq [of "tv_type v"]
      by (cases rule: data_type.exhaust [of "tv_type v"]) auto
  qed
  have f: "tv_type v = YearMonth \<Longrightarrow> w_day (tv_wall v) = 1 \<and> tod_nanos (tv_wall v) = 0"
    "tv_type v = LocalDate \<Longrightarrow> tod_nanos (tv_wall v) = 0"
    using wf floored_fields by (auto simp: tv_wf_def)
  note defs = period_precise_def period_floor_def edge_defs dropZone_def timeOfDayNanos_def
  from src path show ?thesis
    by (elim insertE emptyE) (auto simp: downPaths_coarse defs f)
qed


text \<open>A downscaled comparison decides the comparison of the wall clocks.\<close>

lemma period_floor_cases:
  assumes "dst \<in> {Year, YearMonth, LocalDate}" and ok: "wall_ok g" "wall_ok w"
    and g: "period_floor dst g = g"
  shows "isComparingOp p \<Longrightarrow>
      rel_op (if period_precise dst w then p else mutateDownscaleOp p)
        (wall_millis g) (wall_millis (period_floor dst w)) = rel_op p (wall_nanos g) (wall_nanos w)"
    and "wall_nanos g = wall_nanos w \<longleftrightarrow>
      period_precise dst w \<and> wall_millis g = wall_millis (period_floor dst w)"
proof -
  from assms(1) consider "dst = Year" | "dst = YearMonth" | "dst = LocalDate" by blast
  note c = this
  from c show "isComparingOp p \<Longrightarrow>
      rel_op (if period_precise dst w then p else mutateDownscaleOp p)
        (wall_millis g) (wall_millis (period_floor dst w)) = rel_op p (wall_nanos g) (wall_nanos w)"
    using year.floored_rel_millis [OF ok] month.floored_rel_millis [OF ok]
      date.floored_rel_millis [OF ok] g
    by cases (auto simp: period_floor_def period_precise_def split: if_splits)
  from c show "wall_nanos g = wall_nanos w \<longleftrightarrow>
      period_precise dst w \<and> wall_millis g = wall_millis (period_floor dst w)"
    using year.floored_eq [OF ok] month.floored_eq [OF ok] date.floored_eq [OF ok] g
    by cases (auto simp: period_floor_def period_precise_def)
qed

definition temporal_branch_match :: "temporal_cond option \<Rightarrow> int \<Rightarrow> bool" where
  "temporal_branch_match c storedMs =
     (case c of None \<Rightarrow> False
      | Some tc \<Rightarrow> CompareTemporal (tc_op tc) storedMs True (tc_millis tc) True)"

lemma convert_down_exact:
  assumes path: "downPaths (tv_type v) dst \<noteq> None" and wf: "tv_wf v"
    and dst: "dst \<in> {Year, YearMonth, LocalDate}"
    and g: "wall_ok g" "period_floor dst g = g"
    and p: "p = FilterEq \<or> isComparingOp p"
  shows "temporal_branch_match (convertTemporal (tv_type v) dst v p) (wall_millis g)
    = rel_op p (wall_nanos g) (wall_nanos (tv_wall v))"
proof -
  from path obtain es where es: "downPaths (tv_type v) dst = Some es" by blast
  have w: "wall_ok (tv_wall v)" using wf by (simp add: tv_wf_def)
  note walk = walk_down_period [OF es wf dst, of p]
  note cases = period_floor_cases [OF dst g(1) w g(2)]
  show ?thesis
  proof (cases "p = FilterEq")
    case True
    show ?thesis using cases(2) walk unfolding True
      by (simp add: convertTemporal_def es temporal_branch_match_def split: if_splits)
  next
    case False
    then show ?thesis using cases(1) [of p] p
      by (auto simp: convertTemporal_def es walk temporal_branch_match_def)
  qed
qed

subsection \<open>Upscaling an operand\<close>

text \<open>Every upscale edge keeps the wall clock of a well-formed value and raises its rank.\<close>

lemma start_values [simp]:
  "floorToYearMonthStart v = zoneLess Integer (floorY (tv_wall v))"
  "floorToDayStart v = zoneLess Integer (floorM (tv_wall v))"
  "floorToMidnight v = zoneLess Integer (floorD (tv_wall v))"
  by (simp_all add: floorToYearMonthStart_def floorToDayStart_def floorToMidnight_def
      floorY_def floorM_def floorD_def)

lemma retag_sel [simp]:
  "tv_wall (retag v t) = tv_wall v" "tv_type (retag v t) = t" "tv_zoned (retag v t) = tv_zoned v"
  "tv_offset (retag v t) = tv_offset v"
  by (simp_all add: retag_def)

lemma floor_weaken: "floorY w = w \<Longrightarrow> floorM w = w" "floorM w = w \<Longrightarrow> floorD w = w"
proof -
  have "floorM (floorY w) = floorY w" "floorD (floorM w) = floorM w"
    by (simp_all add: floorY_def floorM_def floorD_def)
  then show "floorY w = w \<Longrightarrow> floorM w = w" "floorM w = w \<Longrightarrow> floorD w = w" by simp_all
qed

lemma up_edge_step:
  assumes "e \<in> set (upGraph (tv_type v))" and "tv_wf v"
  shows "tv_wf (ue_convert e v) \<and> tv_type (ue_convert e v) = ue_to e
    \<and> tv_wall (ue_convert e v) = tv_wall v \<and> down_rank (tv_type v) < down_rank (ue_to e)"
  using assms
  by (cases "tv_type v") (auto simp: tv_wf_def atEpochDate_def atUTC_def floor_weaken)

lemma up_dfs_spec:
  "(dst, path) \<in> set (up_dfs t s) \<Longrightarrow>
   \<exists>es. path = s @ es \<and> (\<forall>v. tv_wf v \<longrightarrow> tv_type v = t \<longrightarrow>
     tv_wall (fold ue_convert es v) = tv_wall v \<and> tv_wf (fold ue_convert es v)
     \<and> tv_type (fold ue_convert es v) = dst \<and> down_rank t < down_rank dst
     \<and> (tv_zoned (fold ue_convert es v) \<longrightarrow> tv_offset (fold ue_convert es v) = 0))"
proof (induction t s rule: up_dfs.induct)
  case (1 t s)
  from "1.prems" obtain e where e: "e \<in> set (upGraph t)"
    and m: "(dst, path) = (ue_to e, s @ [e]) \<or> (dst, path) \<in> set (up_dfs (ue_to e) (s @ [e]))"
    by (subst (asm) up_dfs.simps) auto
  have off: "tv_zoned (ue_convert e v) \<longrightarrow> tv_offset (ue_convert e v) = 0" for v
    using e by (cases t) (auto simp: atEpochDate_def atUTC_def)
  from m show ?case
  proof
    assume eq: "(dst, path) = (ue_to e, s @ [e])"
    show ?thesis
      by (rule exI [of _ "[e]"]) (use eq e up_edge_step off in auto)
  next
    assume "(dst, path) \<in> set (up_dfs (ue_to e) (s @ [e]))"
    from "1.IH" [OF e this] obtain es where es: "path = (s @ [e]) @ es"
      "\<forall>v. tv_wf v \<longrightarrow> tv_type v = ue_to e \<longrightarrow>
        tv_wall (fold ue_convert es v) = tv_wall v \<and> tv_wf (fold ue_convert es v)
        \<and> tv_type (fold ue_convert es v) = dst \<and> down_rank (ue_to e) < down_rank dst
        \<and> (tv_zoned (fold ue_convert es v) \<longrightarrow> tv_offset (fold ue_convert es v) = 0)" by blast
    show ?thesis
    proof (rule exI [of _ "e # es"], intro conjI allI impI)
      fix v assume v: "tv_wf v" "tv_type v = t"
      have "e \<in> set (upGraph (tv_type v))" using e v(2) by simp
      note st = up_edge_step [OF this v(1)]
      note r = es(2) [rule_format, of "ue_convert e v"]
      show "tv_wall (fold ue_convert (e # es) v) = tv_wall v" using r st by simp
      show "tv_wf (fold ue_convert (e # es) v)" using r st by simp
      show "tv_type (fold ue_convert (e # es) v) = dst" using r st by simp
      show "down_rank t < down_rank dst" using r st v(2) by simp
      show "tv_offset (fold ue_convert (e # es) v) = 0" if "tv_zoned (fold ue_convert (e # es) v)"
        using r st that by simp
    qed (use es(1) in simp)
  qed
qed

lemma down_dfs_rank: "(dst, path) \<in> set (down_dfs t s) \<Longrightarrow> down_rank dst < down_rank t"
proof (induction t s rule: down_dfs.induct)
  case (1 t s)
  from "1.prems" obtain e where e: "e \<in> set (downGraph t)"
    and m: "dst = de_to e \<or> (dst, path) \<in> set (down_dfs (de_to e) (s @ [e]))"
    by (subst (asm) down_dfs.simps) auto
  then show ?case using "1.IH" [OF e] down_rank_edge [OF e] by auto
qed

lemma Millis_offset0:
  "(tv_zoned v \<longrightarrow> tv_offset v = 0) \<Longrightarrow> Millis v = wall_millis (tv_wall v)"
  by (simp add: Millis_def wall_millis_def)

lemma convert_up_exact:
  assumes path: "upPaths (tv_type v) dst \<noteq> None" and wf: "tv_wf v"
  shows "convertTemporal (tv_type v) dst v p =
    Some \<lparr>tc_type = dst, tc_millis = wall_millis (tv_wall v), tc_op = p\<rparr>"
proof -
  from path obtain es where es: "upPaths (tv_type v) dst = Some es" by blast
  then have "(dst, es) \<in> set (up_dfs (tv_type v) [])"
    using map_of_SomeD [of "rev (up_dfs (tv_type v) [])" dst es] by (simp add: upPaths_def)
  from up_dfs_spec [OF this] wf
  have r: "tv_wall (fold ue_convert es v) = tv_wall v" "down_rank (tv_type v) < down_rank dst"
    "tv_zoned (fold ue_convert es v) \<longrightarrow> tv_offset (fold ue_convert es v) = 0" by auto
  have "downPaths (tv_type v) dst = None"
  proof (rule ccontr)
    assume "downPaths (tv_type v) dst \<noteq> None"
    then obtain ds where "downPaths (tv_type v) dst = Some ds" by blast
    then have "(dst, ds) \<in> set (down_dfs (tv_type v) [])"
      using map_of_SomeD [of "rev (down_dfs (tv_type v) [])" dst ds] by (simp add: downPaths_def)
    then show False using down_dfs_rank r(2) by fastforce
  qed
  then show ?thesis using es r by (simp add: convertTemporal_def Millis_offset0)
qed

subsection \<open>Parsed values are well formed\<close>

definition wall_pre :: "wall \<Rightarrow> bool" where
  "wall_pre w \<longleftrightarrow> 1 \<le> w_month w \<and> w_month w \<le> 12
     \<and> 0 \<le> w_hour w \<and> w_hour w < 24 \<and> 0 \<le> w_min w \<and> w_min w < 60
     \<and> 0 \<le> w_sec w \<and> w_sec w < 60 \<and> 0 \<le> w_nano w \<and> w_nano w < 1000000000"

lemma getnum_nonneg: "getnum f v = Some (n, r) \<Longrightarrow> 0 \<le> n"
  by (auto simp: getnum_def split: list.splits if_splits)

lemma parse_frac_bounds: "0 \<le> fst (parse_frac v) \<and> fst (parse_frac v) < 1000000000"
proof -
  let ?u = "take 9 (takeWhile is_digit (tl v))"
  have d: "\<forall>c \<in> set ?u. is_digit c" by (auto dest: in_set_takeD set_takeWhileD)
  have l: "length ?u \<le> 9" by simp
  have "dec_val ?u * 10 ^ (9 - length ?u) < 10 ^ length ?u * 10 ^ (9 - length ?u)"
    using dec_val_lt [OF d] by (intro mult_strict_right_mono) simp_all
  also have "\<dots> = 10 ^ 9" using l by (simp flip: power_add)
  finally have "int (dec_val ?u * 10 ^ (9 - length ?u)) < int (10 ^ 9)" by (simp only: of_nat_less_iff)
  then show ?thesis by (simp add: parse_frac_def Let_def)
qed

text \<open>What the layout elements keep, and which fields a layout can set.\<close>

definition same_day :: "wall \<Rightarrow> wall \<Rightarrow> bool" where
  "same_day v w \<longleftrightarrow> w_day v = w_day w"
definition same_month :: "wall \<Rightarrow> wall \<Rightarrow> bool" where
  "same_month v w \<longleftrightarrow> w_month v = w_month w"
definition same_clock :: "wall \<Rightarrow> wall \<Rightarrow> bool" where
  "same_clock v w \<longleftrightarrow> w_hour v = w_hour w \<and> w_min v = w_min w \<and> w_sec v = w_sec w \<and> w_nano v = w_nano w"

lemmas same_defs = same_day_def same_month_def same_clock_def

lemma wall_pre_upd:
  "wall_pre w \<Longrightarrow> wall_pre (w\<lparr>w_year := n\<rparr>)" "wall_pre w \<Longrightarrow> wall_pre (w\<lparr>w_day := n\<rparr>)"
  "wall_pre w \<Longrightarrow> \<not> n \<le> 0 \<Longrightarrow> \<not> 12 < n \<Longrightarrow> wall_pre (w\<lparr>w_month := n\<rparr>)"
  "wall_pre w \<Longrightarrow> 0 \<le> n \<Longrightarrow> \<not> 24 \<le> n \<Longrightarrow> wall_pre (w\<lparr>w_hour := n\<rparr>)"
  "wall_pre w \<Longrightarrow> 0 \<le> n \<Longrightarrow> \<not> 60 \<le> n \<Longrightarrow> wall_pre (w\<lparr>w_min := n\<rparr>)"
  "wall_pre w \<Longrightarrow> 0 \<le> n \<Longrightarrow> \<not> 60 \<le> n \<Longrightarrow> wall_pre (w\<lparr>w_sec := n\<rparr>)"
  "wall_pre w \<Longrightarrow> wall_pre (w\<lparr>w_nano := fst (parse_frac v)\<rparr>)"
  using parse_frac_bounds [of v] by (simp_all add: wall_pre_def)

lemmas elem_splits = list.split_asm if_split_asm option.split_asm prod.split_asm

lemma parse_elems_pre:
  "parse_elems ls v p = Some q \<Longrightarrow> wall_pre (p_wall p) \<Longrightarrow> wall_pre (p_wall q)"
proof (induction ls v p rule: parse_elems.induct)
  case (8 ls v p)
  then show ?case
    by (cases "getnum True v")
      (auto simp: Let_def wall_pre_upd getnum_nonneg split: if_split_asm)
qed (auto simp: wall_pre_upd getnum_nonneg split: elem_splits)

lemma parse_elems_day:
  "parse_elems ls v p = Some q \<Longrightarrow> LDay \<notin> set ls \<Longrightarrow> same_day (p_wall q) (p_wall p)"
  by (induction ls v p rule: parse_elems.induct)
    (auto simp: same_day_def Let_def split: elem_splits)

lemma parse_elems_month:
  "parse_elems ls v p = Some q \<Longrightarrow> LMonth \<notin> set ls \<Longrightarrow> same_month (p_wall q) (p_wall p)"
  by (induction ls v p rule: parse_elems.induct)
    (auto simp: same_month_def Let_def split: elem_splits)

lemma parse_elems_clock:
  "parse_elems ls v p = Some q \<Longrightarrow> {LHour, LMinute, LSecond, LFrac9} \<inter> set ls = {} \<Longrightarrow>
   same_clock (p_wall q) (p_wall p)"
  by (induction ls v p rule: parse_elems.induct)
    (auto simp: same_clock_def Let_def split: elem_splits)

lemma time_Parse_ok: "time_Parse ls v = Some p \<Longrightarrow> wall_ok (p_wall p)"
  using parse_elems_pre [of ls v parsed0 p]
  by (auto simp: time_Parse_def Let_def wall_ok_def wall_pre_def parsed0_def
      split: option.splits if_splits)

lemma time_Parse_elems: "time_Parse ls v = Some p \<Longrightarrow> parse_elems ls v parsed0 = Some p"
  by (auto simp: time_Parse_def Let_def split: option.splits if_splits)

lemma first_parse_ok: "first_parse lss v = Some p \<Longrightarrow> wall_ok (p_wall p)"
  by (induction lss) (auto simp: time_Parse_ok split: option.splits)

lemma wall_eqI:
  "w_year v = w_year w \<Longrightarrow> w_month v = w_month w \<Longrightarrow> w_day v = w_day w \<Longrightarrow> w_hour v = w_hour w \<Longrightarrow>
   w_min v = w_min w \<Longrightarrow> w_sec v = w_sec w \<Longrightarrow> w_nano v = w_nano w \<Longrightarrow> v = (w::wall)"
  by (cases v; cases w) simp

lemma parsed_date_floors:
  assumes p: "time_Parse ls v = Some p"
  shows "{LHour, LMinute, LSecond, LFrac9} \<inter> set ls = {} \<Longrightarrow> floorD (p_wall p) = p_wall p"
    and "{LHour, LMinute, LSecond, LFrac9, LDay} \<inter> set ls = {} \<Longrightarrow> floorM (p_wall p) = p_wall p"
    and "{LHour, LMinute, LSecond, LFrac9, LDay, LMonth} \<inter> set ls = {} \<Longrightarrow> floorY (p_wall p) = p_wall p"
  using parse_elems_clock [OF time_Parse_elems [OF p]] parse_elems_day [OF time_Parse_elems [OF p]]
    parse_elems_month [OF time_Parse_elems [OF p]]
  by (auto intro!: wall_eqI simp: floorD_def floorM_def floorY_def same_defs parsed0_def)

lemma epoch_date_ok: "wall_ok w \<Longrightarrow> wall_ok (epoch_date w)"
  by (simp add: wall_ok_def epoch_date_def days_in_def)

lemma epoch_epoch: "epoch_date (epoch_date w) = epoch_date w"
  by (simp add: epoch_date_def)

lemma ParseTemporalSubtype_wf:
  assumes "ParseTemporalSubtype s t = Some v"
  shows "tv_wf v \<and> tv_type v = t"
proof -
  have lists: "{LHour, LMinute, LSecond, LFrac9, LDay, LMonth} \<inter> set [LYear] = {}"
    "{LHour, LMinute, LSecond, LFrac9, LDay} \<inter> set [LYear, LLit CHR ''-'', LMonth] = {}"
    "{LHour, LMinute, LSecond, LFrac9} \<inter> set date_elems = {}"
    by (auto simp: date_elems_def)
  from assms show ?thesis
    using parsed_date_floors(3) [OF _ lists(1)] parsed_date_floors(2) [OF _ lists(2)]
      parsed_date_floors(1) [OF _ lists(3)]
    by (cases t)
      (auto simp: ParseTemporalSubtype_def tv_wf_def zoneLess_def time_Parse_ok first_parse_ok
        epoch_date_ok epoch_epoch split: if_splits option.splits)
qed

lemma parse_in_order_wf: "parse_in_order ts s = Some v \<Longrightarrow> tv_wf v \<and> tv_type v \<in> set ts"
  by (induction ts) (auto split: option.splits dest: ParseTemporalSubtype_wf)

lemma parseNatural_wf: "parseNatural s = Some v \<Longrightarrow> tv_wf v \<and> isTemporalSubtype (tv_type v)"
  using parse_in_order_wf [of naturalParseOrder s v]
  by (auto simp: parseNatural_def naturalParseOrder_def isTemporalSubtype_def)

subsection \<open>Reading rendered values\<close>

text \<open>Zero-padded decimal fields, and the ISO forms of a date and of an instant.\<close>

fun pad :: "nat \<Rightarrow> nat \<Rightarrow> string" where
  "pad 0 n = []"
| "pad (Suc k) n = pad k (n div 10) @ [digit_char (n mod 10)]"

lemma length_pad [simp]: "length (pad k n) = k"
  by (induction k arbitrary: n) simp_all

lemma pad_digits: "c \<in> set (pad k n) \<Longrightarrow> is_digit c"
  by (induction k arbitrary: n) auto

lemma dec_val_pad: "n < 10 ^ k \<Longrightarrow> dec_val (pad k n) = n"
proof (induction k arbitrary: n)
  case (Suc k)
  then have "n div 10 < 10 ^ k" by simp
  from Suc.IH [OF this] show ?case by simp
qed simp

lemma pad2: "pad 2 n = [digit_char (n div 10 mod 10), digit_char (n mod 10)]"
  by (simp add: numeral_2_eq_2)

lemma getnum_pad2: "n < 100 \<Longrightarrow> getnum f (pad 2 n @ r) = Some (int n, r)"
proof -
  assume "n < 100"
  then have "n div 10 mod 10 = n div 10" by simp
  then show ?thesis by (simp add: pad2 getnum_def)
qed

definition iso_date :: "nat \<Rightarrow> nat \<Rightarrow> nat \<Rightarrow> string" where
  "iso_date y m d = pad 4 y @ CHR ''-'' # pad 2 m @ CHR ''-'' # pad 2 d"

definition iso_clock :: "nat \<Rightarrow> nat \<Rightarrow> nat \<Rightarrow> string" where
  "iso_clock h mi s = pad 2 h @ CHR '':'' # pad 2 mi @ CHR '':'' # pad 2 s"

definition iso_offset :: "bool \<Rightarrow> nat \<Rightarrow> nat \<Rightarrow> string" where
  "iso_offset west hh mm = (if west then CHR ''-'' else CHR ''+'') # pad 2 hh @ CHR '':'' # pad 2 mm"

lemma parse_year_pad:
  "y < 10000 \<Longrightarrow> parse_elems (LYear # ls) (pad 4 y @ r) p =
     parse_elems ls r (p\<lparr>p_wall := (p_wall p)\<lparr>w_year := int y\<rparr>\<rparr>)"
  using pad_digits [of _ 4 y] by (auto simp: dec_val_pad)

lemma parse_date_prefix:
  assumes "y < 10000" "1 \<le> m" "m \<le> 12" "d < 100"
  shows "parse_elems (date_elems @ ls) (iso_date y m d @ r) p =
    parse_elems ls r (p\<lparr>p_wall := (p_wall p)\<lparr>w_year := int y, w_month := int m, w_day := int d\<rparr>\<rparr>)"
proof -
  have m: "m < 100" using assms by simp
  show ?thesis
    unfolding iso_date_def date_elems_def append_Cons append_assoc append_Nil parse_year_pad [OF assms(1)]
    using assms(2,3) getnum_pad2 [OF m] getnum_pad2 [OF assms(4)] by simp
qed

lemma iso_date_parses:
  assumes "y < 10000" "1 \<le> m" "m \<le> 12" "1 \<le> d" "int d \<le> days_in (int m) (int y)"
  shows "parseNatural (iso_date y m d) =
    Some (zoneLess LocalDate (mk_wall (int y) (int m) (int d) 0 0 0 0))"
proof -
  have "days_in (int m) (int y) \<le> 31" by (simp add: days_in_def)
  then have d: "d < 100" using assms(5) by simp
  note pre = parse_date_prefix [OF assms(1,2,3) d, where r = "[]", simplified]
  have none: "time_Parse (date_elems @ LLit CHR ''T'' # ls) (iso_date y m d) = None" for ls
    by (simp add: time_Parse_def pre)
  have date: "time_Parse date_elems (iso_date y m d) =
      Some (parsed0\<lparr>p_wall := mk_wall (int y) (int m) (int d) 0 0 0 0\<rparr>)"
    using parse_date_prefix [OF assms(1,2,3) d, where r = "[]" and ls = "[]"] assms
    by (simp add: time_Parse_def parsed0_def mk_wall_def)
  show ?thesis
    by (simp add: parseNatural_def naturalParseOrder_def ParseTemporalSubtype_def none date
        RFC3339Nano_def zonedDateTimeLayouts_def localDateTimeLayouts_def)
qed

lemma parse_clock_prefix:
  assumes "h < 24" "mi < 60" "s < 60" and "ls = [] \<or> hd ls \<noteq> LFrac9" and "\<not> starts_frac r"
  shows "parse_elems (hms_elems @ ls) (iso_clock h mi s @ r) p =
    parse_elems ls r (p\<lparr>p_wall := (p_wall p)\<lparr>w_hour := int h, w_min := int mi, w_sec := int s\<rparr>\<rparr>)"
  using assms getnum_pad2 [of h False] getnum_pad2 [of mi True] getnum_pad2 [of s True]
  by (simp add: iso_clock_def hms_elems_def hm_elems_def Let_def)

lemma parse_zone_offset:
  assumes "hh \<le> 24" "mm \<le> 60"
  shows "parse_zone (iso_offset west hh mm) =
    Some ((if west then -1 else 1) * (int hh * 60 + int mm) * 60, [])"
proof -
  have t: "take 2 (drop 1 (iso_offset west hh mm)) = pad 2 hh @ []"
    "take 2 (drop 4 (iso_offset west hh mm)) = pad 2 mm @ []"
    "iso_offset west hh mm ! 3 = CHR '':''" "length (iso_offset west hh mm) = 6"
    by (simp_all add: iso_offset_def pad2 numeral_3_eq_3)
  have g: "getnum True (pad 2 hh @ []) = Some (int hh, [])" "getnum True (pad 2 mm @ []) = Some (int mm, [])"
    using assms by (intro getnum_pad2; simp)+
  have h: "hd (iso_offset west hh mm) \<noteq> CHR ''Z''" by (simp add: iso_offset_def)
  show ?thesis
    unfolding parse_zone_def t g using h assms
    by (auto simp: iso_offset_def)
qed

lemma ParseTemporalMillis_instant:
  assumes "y < 10000" "1 \<le> m" "m \<le> 12" "1 \<le> d" "int d \<le> days_in (int m) (int y)"
    and "h < 24" "mi < 60" "s < 60" and "hh \<le> 24" "mm \<le> 60"
  shows "ParseTemporalMillis
      (iso_date y m d @ CHR ''T'' # iso_clock h mi s @ iso_offset west hh mm) =
    Some (wall_millis (mk_wall (int y) (int m) (int d) (int h) (int mi) (int s) 0)
      - (if west then -1 else 1) * (int hh * 60 + int mm) * 60000)"
proof -
  have "days_in (int m) (int y) \<le> 31" by (simp add: days_in_def)
  then have d: "d < 100" using assms(5) by simp
  have nf: "\<not> starts_frac (iso_offset west hh mm)" by (simp add: starts_frac_def iso_offset_def)
  let ?w = "mk_wall (int y) (int m) (int d) (int h) (int mi) (int s) 0"
  let ?off = "(if west then -1 else 1) * (int hh * 60 + int mm) * 60"
  have "time_Parse RFC3339 (iso_date y m d @ CHR ''T'' # iso_clock h mi s @ iso_offset west hh mm)
      = Some \<lparr>p_wall = ?w, p_zone = Some ?off\<rparr>"
    unfolding time_Parse_def RFC3339_def parse_date_prefix [OF assms(1,2,3) d]
    using parse_clock_prefix [OF assms(6,7,8) _ nf, of "[LZone]"] parse_zone_offset [OF assms(9,10), of west]
      assms(4,5)
    by (simp add: parsed0_def mk_wall_def)
  moreover have "(n - o' * 1000000000) div 1000000 = n div 1000000 - o' * 1000" for n o' :: int
  proof -
    have "(n + (- o' * 1000) * 1000000) div 1000000 = - o' * 1000 + n div 1000000"
      by (rule div_mult_self1) simp
    then show ?thesis by simp
  qed
  ultimately show ?thesis by (simp add: ParseTemporalMillis_def wall_millis_def)
qed

subsection \<open>Properties\<close>

text \<open>C22: for EQUALS and the four order operators, when an operand is downscaled to a calendar subtype (year,
  year-month or date), comparing the stored value's milliseconds with the floored operand under the possibly
  mutated operator decides exactly the comparison of the two wall clocks; a dropped EQUALS branch is a false
  one. NOT_EQUAL is outside: it is not mutated, so it compares with the floored operand and answers false for a
  stored value equal to the floor of a finer operand. So is the target LOCAL_TIME, which forgets the date.\<close>

theorem downscale_exact:
  assumes "parseNatural operand = Some v" and "parseNatural stored = Some w"
    and "tv_type w \<in> {Year, YearMonth, LocalDate}" and "downPaths (tv_type v) (tv_type w) \<noteq> None"
    and "p = FilterEq \<or> isComparingOp p"
  shows "temporal_branch_match (convertTemporal (tv_type v) (tv_type w) v p) (Millis w)
    = rel_op p (wall_nanos (tv_wall w)) (wall_nanos (tv_wall v))"
proof -
  have v: "tv_wf v" and w: "tv_wf w" using assms(1,2) parseNatural_wf by blast+
  have z: "\<not> tv_zoned w" and g: "wall_ok (tv_wall w)" "period_floor (tv_type w) (tv_wall w) = tv_wall w"
    using w assms(3) by (auto simp: tv_wf_def period_floor_def)
  have "Millis w = wall_millis (tv_wall w)" using z by (simp add: Millis_def)
  then show ?thesis using convert_down_exact [OF assms(4) v assms(3) g assms(5)] by simp
qed

theorem downscale_exact_witness:
  "\<exists>v w. parseNatural ''2024-03-15T10:30:00Z'' = Some v \<and> parseNatural ''2024'' = Some w
     \<and> \<not> temporal_branch_match (convertTemporal ZonedDateTime Year v FilterGte) (Millis w)
     \<and> temporal_branch_match (convertTemporal ZonedDateTime Year v FilterLt) (Millis w)"
proof -
  obtain v where v: "parseNatural ''2024-03-15T10:30:00Z'' = Some v" "tv_type v = ZonedDateTime"
    "wall_nanos (tv_wall v) = 1710498600000000000"
  proof -
    have "map_option (\<lambda>v. (tv_type v, wall_nanos (tv_wall v))) (parseNatural ''2024-03-15T10:30:00Z'')
        = Some (ZonedDateTime, 1710498600000000000)" by code_simp
    then show ?thesis using that by auto
  qed
  obtain w where w: "parseNatural ''2024'' = Some w" "tv_type w = Year"
    "wall_nanos (tv_wall w) = 1704067200000000000"
  proof -
    have "map_option (\<lambda>v. (tv_type v, wall_nanos (tv_wall v))) (parseNatural ''2024'')
        = Some (Year, 1704067200000000000)" by code_simp
    then show ?thesis using that by auto
  qed
  have "downPaths (tv_type v) (tv_type w) \<noteq> None" by (simp add: v w downPaths_coarse)
  from downscale_exact [OF v(1) w(1) _ this] show ?thesis
    using v w by (auto simp: isComparingOp_def)
qed

text \<open>upscaling an operand never drops the branch, never changes the operator, and compares with
  the start of the operand's own period.\<close>

theorem upscale_exact:
  assumes "parseNatural operand = Some v" and "upPaths (tv_type v) dst \<noteq> None"
  shows "convertTemporal (tv_type v) dst v p =
    Some \<lparr>tc_type = dst, tc_millis = wall_millis (tv_wall v), tc_op = p\<rparr>"
  using convert_up_exact [OF assms(2)] parseNatural_wf [OF assms(1)] by blast

theorem upscale_exact_witness:
  "\<exists>v. parseNatural ''2024'' = Some v \<and> convertTemporal Year ZonedDateTime v FilterGte =
     Some \<lparr>tc_type = ZonedDateTime, tc_millis = 1704067200000, tc_op = FilterGte\<rparr>"
proof -
  obtain w where w: "parseNatural ''2024'' = Some w" "tv_type w = Year"
    "wall_nanos (tv_wall w) = 1704067200000000000"
  proof -
    have "map_option (\<lambda>v. (tv_type v, wall_nanos (tv_wall v))) (parseNatural ''2024'')
        = Some (Year, 1704067200000000000)" by code_simp
    then show ?thesis using that by auto
  qed
  have "upPaths (tv_type w) ZonedDateTime \<noteq> None"
    by (simp add: w(2) upPaths_def up_dfs.simps [of Year] up_dfs.simps [of YearMonth]
        up_dfs.simps [of LocalDate] up_dfs.simps [of LocalDateTime] up_dfs.simps [of ZonedDateTime])
  from upscale_exact [OF w(1) this, of FilterGte] show ?thesis
    using w by (simp add: wall_millis_def)
qed

text \<open>every calendar date of years 0 to 9999, rendered in ISO form, is classified as a local
  date and read back as that date at midnight.\<close>

theorem iso_date_natural:
  assumes "y < 10000" and "1 \<le> m" and "m \<le> 12" and "1 \<le> d" and "int d \<le> days_in (int m) (int y)"
  shows "parseNatural (iso_date y m d) =
      Some (zoneLess LocalDate (mk_wall (int y) (int m) (int d) 0 0 0 0))
    \<and> ClassifyTemporalString (iso_date y m d) = Some LocalDate"
  using iso_date_parses [OF assms] by (simp add: ClassifyTemporalString_def)

theorem iso_date_natural_witness: "ClassifyTemporalString ''2024-02-29'' = Some LocalDate"
proof -
  have d: "iso_date 2024 2 29 = ''2024-02-29''" by code_simp
  have "int 29 \<le> days_in (int 2) (int 2024)" by code_simp
  from iso_date_natural [OF _ _ _ _ this] show ?thesis by (simp add: d)
qed

text \<open>an RFC 3339 instant with an explicit offset is read as the epoch milliseconds of its wall
  clock minus the offset.\<close>

theorem instant_millis:
  assumes "y < 10000" and "1 \<le> m" and "m \<le> 12" and "1 \<le> d" and "int d \<le> days_in (int m) (int y)"
    and "h < 24" and "mi < 60" and "s < 60" and "hh \<le> 24" and "mm \<le> 60"
  shows "ParseTemporalMillis
      (iso_date y m d @ CHR ''T'' # iso_clock h mi s @ iso_offset west hh mm) =
    Some (wall_millis (mk_wall (int y) (int m) (int d) (int h) (int mi) (int s) 0)
      - (if west then -1 else 1) * (int hh * 60 + int mm) * 60000)"
  using assms by (rule ParseTemporalMillis_instant)

theorem instant_millis_witness:
  "ParseTemporalMillis ''1970-01-01T02:00:00+01:30'' = Some 1800000"
proof -
  have s: "iso_date 1970 1 1 @ CHR ''T'' # iso_clock 2 0 0 @ iso_offset False 1 30
      = ''1970-01-01T02:00:00+01:30''" by code_simp
  have "int 1 \<le> days_in (int 1) (int 1970)" by code_simp
  from instant_millis [OF _ _ _ _ this, of 2 0 0 1 30 False]
  have "ParseTemporalMillis ''1970-01-01T02:00:00+01:30'' =
      Some (wall_millis (mk_wall 1970 1 1 2 0 0 0) - 5400000)" unfolding s by simp
  moreover have "wall_millis (mk_wall 1970 1 1 2 0 0 0) = 7200000" by code_simp
  ultimately show ?thesis by simp
qed

end
