(* ===== verification/Operand.thy ===== *)
theory Operand
  imports Filter_Op Decimals
begin

text \<open>
  Leaf operands (\<open>operand.go\<close>, and the operand half of \<open>filter_match.go\<close>): which Go values a leaf
  operator accepts, and the text the kernel reads them as. Results: \<open>ValidateOperand\<close> accepts exactly
  the declared shapes, and an accepted operand never reaches the printed form of a container.
\<close>

subsection \<open>Dynamic values\<close>

text \<open>
  A Go \<open>any\<close>, by the classes of dynamic types the code tells apart. \<open>GInt\<close> is one of the ten
  integer types, \<open>GFloat\<close> a \<open>float32\<close> or \<open>float64\<close> with its \<open>fmt.Sprint\<close> text, \<open>GNumber\<close> a
  \<open>json.Number\<close>; \<open>GMap\<close> is a map, \<open>GSlice\<close> a \<open>[]any\<close> and \<open>GTypedSlice\<close> another slice or array, all of
  unnamed types; \<open>GOther\<close> is everything else. Where only the printed form of a value can matter, it
  is carried as text.
\<close>

datatype go_any =
    GNil
  | GString string
  | GBool bool
  | GNumber string
  | GInt int
  | GFloat string
  | GMap string
  | GSlice "go_any list"
  | GTypedSlice string
  | GOther string

subsection \<open>Operand shape\<close>

datatype operand_shape = shapeScalar | shapeMissing | shapeObject | shapeArray | shapeOther

fun operandShapeOf :: "go_any \<Rightarrow> operand_shape" where
  "operandShapeOf GNil = shapeMissing"
| "operandShapeOf (GString s) = shapeScalar"
| "operandShapeOf (GBool b) = shapeScalar"
| "operandShapeOf (GNumber s) = shapeScalar"
| "operandShapeOf (GInt i) = shapeScalar"
| "operandShapeOf (GFloat s) = shapeScalar"
| "operandShapeOf (GMap s) = shapeObject"
| "operandShapeOf (GSlice vs) = shapeArray"
| "operandShapeOf (GTypedSlice s) = shapeArray"
| "operandShapeOf (GOther s) = shapeOther"

text \<open>The sentinels every refusal wraps; the count is the one the message carries.\<close>

datatype operand_error =
    ErrOperandMissing | ErrOperandObject | ErrOperandNotScalar | ErrOperandArray
  | ErrBetweenNotArray | ErrBetweenCount nat | ErrBetweenNullBound | ErrBetweenNonScalarBound

definition isRange :: "filter_op \<Rightarrow> bool" where
  "isRange p \<longleftrightarrow> p = FilterBetween \<or> p = FilterBetweenInclusive"

text \<open>The loop over the two bounds: the first bound that is no scalar decides the error.\<close>

fun check_bounds :: "go_any list \<Rightarrow> operand_error option" where
  "check_bounds [] = None"
| "check_bounds (b # bs) =
     (case operandShapeOf b of
        shapeScalar \<Rightarrow> check_bounds bs
      | shapeMissing \<Rightarrow> Some ErrBetweenNullBound
      | _ \<Rightarrow> Some ErrBetweenNonScalarBound)"

text \<open>\<open>None\<close> is the nil error.\<close>

definition ValidateOperand :: "filter_op \<Rightarrow> go_any \<Rightarrow> operand_error option" where
  "ValidateOperand p v =
     (case operandShapeOf v of
        shapeMissing \<Rightarrow>
          if p = FilterIsNull \<or> p = FilterNotNull then None else Some ErrOperandMissing
      | shapeObject \<Rightarrow> Some ErrOperandObject
      | shapeOther \<Rightarrow> Some ErrOperandNotScalar
      | shapeArray \<Rightarrow>
          if \<not> isRange p then Some ErrOperandArray
          else (case v of
                  GSlice pair \<Rightarrow>
                    if length pair \<noteq> 2 then Some (ErrBetweenCount (length pair)) else check_bounds pair
                | _ \<Rightarrow> Some ErrBetweenNotArray)
      | shapeScalar \<Rightarrow> if isRange p then Some ErrBetweenNotArray else None)"

subsection \<open>Operand text\<close>

text \<open>
  \<open>fmt.Sprint\<close> of the remaining values: integers in decimal, a \<open>[]any\<close> as its elements in brackets,
  separated by spaces.
\<close>

fun sprint :: "go_any \<Rightarrow> string" where
  "sprint GNil = ''<nil>''"
| "sprint (GString s) = s"
| "sprint (GBool b) = (if b then ''true'' else ''false'')"
| "sprint (GNumber s) = s"
| "sprint (GInt i) = big_str i"
| "sprint (GFloat s) = s"
| "sprint (GMap s) = s"
| "sprint (GSlice []) = ''[]''"
| "sprint (GSlice (v # vs)) =
     ''['' @ sprint v @ concat (map (\<lambda>w. '' '' @ sprint w) vs) @ '']''"
| "sprint (GTypedSlice s) = s"
| "sprint (GOther s) = s"

fun OperandString :: "go_any \<Rightarrow> string" where
  "OperandString GNil = []"
| "OperandString (GString s) = s"
| "OperandString (GBool b) = (if b then ''true'' else ''false'')"
| "OperandString (GNumber s) = s"
| "OperandString v = sprint v"

definition valuesToStrings :: "go_any list \<Rightarrow> string list" where
  "valuesToStrings vs = map OperandString vs"

subsection \<open>What is accepted\<close>

definition scalar :: "go_any \<Rightarrow> bool" where
  "scalar v \<longleftrightarrow> operandShapeOf v = shapeScalar"

lemma check_bounds_None: "check_bounds bs = None \<longleftrightarrow> (\<forall>b \<in> set bs. scalar b)"
  by (induction bs) (auto simp: scalar_def split: operand_shape.split)

lemma length_two: "length xs = 2 \<longleftrightarrow> (\<exists>a b. xs = [a, b])"
  by (cases xs; cases "tl xs") auto

lemma ValidateOperand_accepts:
  "ValidateOperand p v = None \<longleftrightarrow>
     (if isRange p then \<exists>lo hi. v = GSlice [lo, hi] \<and> scalar lo \<and> scalar hi
      else scalar v \<or> v = GNil \<and> (p = FilterIsNull \<or> p = FilterNotNull))"
proof (cases v)
  case (GSlice vs)
  then show ?thesis
    by (cases "length vs = 2")
      (auto simp: ValidateOperand_def scalar_def isRange_def check_bounds_None length_two)
qed (auto simp: ValidateOperand_def scalar_def isRange_def)

text \<open>A valid operand of a leaf that is no range leaf is a scalar, or missing under a presence test.\<close>

lemma ValidateOperand_scalar:
  "ValidateOperand p v = None \<Longrightarrow> \<not> isRange p \<Longrightarrow> leafKindOf p \<noteq> Some kindUnary \<Longrightarrow> scalar v"
  by (auto simp: ValidateOperand_accepts split: if_splits)

subsection \<open>Properties\<close>

text \<open>the operand rule accepts exactly a pair of scalars for a range operator, and otherwise exactly
  a scalar, or nothing under a presence test; every other value is refused.\<close>

theorem ValidateOperand_exact:
  "ValidateOperand p v = None \<longleftrightarrow>
     (if isRange p then \<exists>lo hi. v = GSlice [lo, hi] \<and> scalar lo \<and> scalar hi
      else scalar v \<or> v = GNil \<and> (p = FilterIsNull \<or> p = FilterNotNull))"
  by (rule ValidateOperand_accepts)

end
