(* ===== verification/Filter_Path.thy ===== *)
theory Filter_Path
  imports Utf8
begin

text \<open>
  The filter path grammar (\<open>filter_path.go\<close>, and the path half of \<open>condition_filter.go\<close>): parsing a
  path into hops, rendering hops back, the wire form with its leader, and the fold of positional
  subscripts to the wildcard. Results: a path parses to given hops exactly when it spells them by the
  grammar, so parsing inverts rendering, and every character of an accepted path is in the grammar's alphabet.
\<close>

subsection \<open>Hops\<close>

datatype path_sub = Wildcard | Index nat

record path_hop =
  Name :: string
  Subs :: "path_sub list"

text \<open>The reasons of a refusal; the code renders them into its messages.\<close>

datatype path_reason =
    TrailingDot | EmptySegment | SubscriptNoName | UnmatchedBracket | UnclosedSubscript
  | UnsupportedSubscript string | DisallowedChar nat

definition isPathNameByte :: "char \<Rightarrow> bool" where
  "isPathNameByte c \<longleftrightarrow>
     97 \<le> byte c \<and> byte c \<le> 122 \<or> 65 \<le> byte c \<and> byte c \<le> 90
     \<or> is_digit c \<or> c = CHR ''_'' \<or> c = CHR ''-''"

definition disallowedCharReason :: "string \<Rightarrow> path_reason" where
  "disallowedCharReason s = DisallowedChar (fst (decode_rune s))"

definition IsArrayIndex :: "string \<Rightarrow> bool" where
  "IsArrayIndex s \<longleftrightarrow> s \<noteq> [] \<and> list_all is_digit s"

definition parsePathSub :: "string \<Rightarrow> path_sub option" where
  "parsePathSub inner =
     (if inner = ''*'' then Some Wildcard
      else if \<not> IsArrayIndex inner then None
      else if int (dec_val inner) > max_i32 then None
      else Some (Index (dec_val inner)))"

subsection \<open>The scan\<close>

text \<open>The subscript loop after a name: the remaining text starts at the byte under the index.\<close>

function scan_subs :: "string \<Rightarrow> path_reason + path_sub list \<times> string" where
  "scan_subs s =
     (case s of
        [] \<Rightarrow> Ok ([], s)
      | c # r \<Rightarrow>
          if c = CHR ''['' then
            (let inner = takeWhile (\<lambda>x. x \<noteq> CHR '']'') r in
             if length inner = length r then Err UnclosedSubscript
             else (case parsePathSub inner of
                     None \<Rightarrow> Err (UnsupportedSubscript inner)
                   | Some sub \<Rightarrow>
                       (case scan_subs (drop (length inner + 1) r) of
                          Inl e \<Rightarrow> Err e
                        | Inr (subs, rest) \<Rightarrow> Ok (sub # subs, rest))))
          else Ok ([], s))"
  by pat_completeness auto
termination by (relation "measure length") auto

declare scan_subs.simps [simp del]

lemma scan_subs_stop: "s = [] \<or> hd s \<noteq> CHR ''['' \<Longrightarrow> scan_subs s = Ok ([], s)"
  by (subst scan_subs.simps) (cases s; simp)

lemma scan_subs_step:
  "scan_subs (CHR ''['' # r) =
     (let inner = takeWhile (\<lambda>x. x \<noteq> CHR '']'') r in
      if length inner = length r then Err UnclosedSubscript
      else (case parsePathSub inner of
              None \<Rightarrow> Err (UnsupportedSubscript inner)
            | Some sub \<Rightarrow>
                (case scan_subs (drop (length inner + 1) r) of
                   Inl e \<Rightarrow> Err e
                 | Inr (subs, rest) \<Rightarrow> Ok (sub # subs, rest))))"
  by (subst scan_subs.simps) simp

lemma scan_subs_length: "scan_subs s = Ok (subs, rest) \<Longrightarrow> length rest \<le> length s"
proof (induction s arbitrary: subs rule: scan_subs.induct)
  case (1 s)
  show ?case
  proof (cases "s = [] \<or> hd s \<noteq> CHR ''[''")
    case True
    then show ?thesis using 1(2) scan_subs_stop [OF True] by simp
  next
    case False
    then obtain r where s: "s = CHR ''['' # r" by (cases s) auto
    let ?inner = "takeWhile (\<lambda>x. x \<noteq> CHR '']'') r"
    from 1(2) obtain sub subs' where
      ih: "length ?inner \<noteq> length r" "parsePathSub ?inner = Some sub"
        "scan_subs (drop (length ?inner + 1) r) = Ok (subs', rest)"
      by (auto simp: s scan_subs_step Let_def split: if_splits option.splits sum.splits)
    then have "length rest \<le> length (drop (length ?inner + 1) r)"
      using 1(1) [OF s refl refl ih(1) ih(2)] by simp
    then show ?thesis by (simp add: s)
  qed
qed

function scanPathHops :: "string \<Rightarrow> path_reason + path_hop list" where
  "scanPathHops body =
     (let name = takeWhile isPathNameByte body; r = dropWhile isPathNameByte body in
      if name = [] then
        (case r of
           [] \<Rightarrow> Err TrailingDot
         | c # _ \<Rightarrow>
             if c = CHR ''.'' then Err EmptySegment
             else if c = CHR ''['' then Err SubscriptNoName
             else if c = CHR '']'' then Err UnmatchedBracket
             else Err (disallowedCharReason r))
      else
        (case scan_subs r of
           Inl e \<Rightarrow> Err e
         | Inr (subs, rest) \<Rightarrow>
             (let hop = \<lparr>Name = name, Subs = subs\<rparr> in
              case rest of
                [] \<Rightarrow> Ok [hop]
              | c # more_text \<Rightarrow>
                  if c = CHR ''.'' then
                    (if more_text = [] then Err TrailingDot
                     else (case scanPathHops more_text of Inl e \<Rightarrow> Err e | Inr hops \<Rightarrow> Ok (hop # hops)))
                  else if c = CHR '']'' then Err UnmatchedBracket
                  else Err (disallowedCharReason rest))))"
  by pat_completeness auto
termination
proof (relation "measure length", goal_cases)
  case (2 body name r p subs rest hop c more_text)
  have "length rest \<le> length r"
    using 2(4,5) scan_subs_length by auto
  moreover have "length r \<le> length body" using 2(2) by (simp add: length_dropWhile_le)
  ultimately show ?case using 2 by simp
qed simp

declare scanPathHops.simps [simp del]

text \<open>The error wraps the sentinel \<open>ErrInvalidFilterPath\<close> and echoes the path.\<close>

datatype filter_path_error = InvalidFilterPath string path_reason

definition ParseFilterPath :: "string \<Rightarrow> filter_path_error + path_hop list" where
  "ParseFilterPath p =
     (if p = [] then Ok []
      else (case scanPathHops p of Inl r \<Rightarrow> Err (InvalidFilterPath p r) | Inr hops \<Rightarrow> Ok hops))"

definition ValidateFilterPath :: "string \<Rightarrow> filter_path_error option" where
  "ValidateFilterPath p = (case ParseFilterPath p of Inl e \<Rightarrow> Some e | Inr hops \<Rightarrow> None)"

subsection \<open>Rendering\<close>

definition render_sub :: "bool \<Rightarrow> path_sub \<Rightarrow> string" where
  "render_sub foldToWildcard sub =
     (case sub of
        Wildcard \<Rightarrow> ''[*]''
      | Index n \<Rightarrow> if foldToWildcard then ''[*]'' else ''['' @ dec_str n @ '']'')"

definition render_hop :: "bool \<Rightarrow> path_hop \<Rightarrow> string" where
  "render_hop foldToWildcard hop = Name hop @ concat (map (render_sub foldToWildcard) (Subs hop))"

fun renderPathHops :: "path_hop list \<Rightarrow> bool \<Rightarrow> string" where
  "renderPathHops [] f = []"
| "renderPathHops [h] f = render_hop f h"
| "renderPathHops (h # g # hs) f = render_hop f h @ ''.'' @ renderPathHops (g # hs) f"

subsection \<open>The wire form\<close>

definition jsonPathLeader :: string where "jsonPathLeader = ''$.''"

datatype wire_reason = NoLeader | AddressesNoField | BracketQuoted | Grammar path_reason

datatype wire_path_error = InvalidPath string wire_reason

definition containsBracketQuote :: "string \<Rightarrow> bool" where
  "containsBracketQuote p \<longleftrightarrow>
     contains p [CHR ''['', CHR 0x27] \<or> contains p [CHR 0x27, CHR '']'']
     \<or> contains p [CHR ''['', CHR 0x22] \<or> contains p [CHR 0x22, CHR '']'']"

definition scanWirePathBody :: "string \<Rightarrow> path_reason option" where
  "scanWirePathBody body = (case scanPathHops body of Inl r \<Rightarrow> Some r | Inr hops \<Rightarrow> None)"

definition stripDollarDot :: "string \<Rightarrow> wire_path_error + string" where
  "stripDollarDot path =
     (case strip_prefix jsonPathLeader path of
        None \<Rightarrow> Err (InvalidPath path NoLeader)
      | Some stripped \<Rightarrow>
          if stripped = [] then Err (InvalidPath path AddressesNoField)
          else if containsBracketQuote stripped then Err (InvalidPath path BracketQuoted)
          else (case scanWirePathBody stripped of
                  Some r \<Rightarrow> Err (InvalidPath path (Grammar r))
                | None \<Rightarrow> Ok stripped))"

definition foldSubscriptWildcards :: "string \<Rightarrow> string" where
  "foldSubscriptWildcards key =
     (case strip_prefix jsonPathLeader key of
        None \<Rightarrow> key
      | Some rest \<Rightarrow>
          if \<not> contains rest ''['' then key
          else (case ParseFilterPath rest of
                  Inl e \<Rightarrow> key
                | Inr hops \<Rightarrow> jsonPathLeader @ renderPathHops hops True))"

text \<open>
  \<open>strings.TrimSpace\<close>: the UTF-8 encodings of the runes \<open>unicode.IsSpace\<close> accepts, removed from
  both ends as long as one is there.
\<close>

definition space_encodings :: "string list" where
  "space_encodings =
     map (\<lambda>n. [char_of (n::nat)]) [9, 10, 11, 12, 13, 32]
     @ map (\<lambda>n. [CHR 0xC2, char_of n]) [133, 160 :: nat]
     @ [[CHR 0xE1, CHR 0x9A, CHR 0x80]]
     @ map (\<lambda>n. [CHR 0xE2, CHR 0x80, char_of n]) ([128..<139] @ [168, 169, 175 :: nat])
     @ [[CHR 0xE2, CHR 0x81, CHR 0x9F], [CHR 0xE3, CHR 0x80, CHR 0x80]]"

fun strip_any :: "string list \<Rightarrow> string \<Rightarrow> string option" where
  "strip_any [] s = None"
| "strip_any (e # es) s =
     (case strip_prefix e s of Some t \<Rightarrow> if e = [] then strip_any es s else Some t
      | None \<Rightarrow> strip_any es s)"

lemma strip_any_shorter: "strip_any es s = Some t \<Longrightarrow> length t < length s"
  by (induction es) (auto simp: strip_prefix_Some_iff split: option.splits if_splits)

function trim_left :: "string list \<Rightarrow> string \<Rightarrow> string" where
  "trim_left es s = (case strip_any es s of None \<Rightarrow> s | Some t \<Rightarrow> trim_left es t)"
  by pat_completeness auto
termination by (relation "measure (length \<circ> snd)") (auto dest: strip_any_shorter)

declare trim_left.simps [simp del]

definition TrimSpace :: "string \<Rightarrow> string" where
  "TrimSpace s = rev (trim_left (map rev space_encodings) (rev (trim_left space_encodings s)))"

definition NormalisePath :: "string \<Rightarrow> string" where
  "NormalisePath raw =
     (let p = TrimSpace raw in
      if p = [] then p
      else if has_prefix p ''$.'' then p
      else if has_prefix p ''$'' then p
      else ''$.'' @ p)"

subsection \<open>Parsing inverts rendering\<close>

definition sub_ok :: "path_sub \<Rightarrow> bool" where
  "sub_ok s = (case s of Wildcard \<Rightarrow> True | Index n \<Rightarrow> int n \<le> max_i32)"

definition hop_ok :: "path_hop \<Rightarrow> bool" where
  "hop_ok h \<longleftrightarrow> Name h \<noteq> [] \<and> list_all isPathNameByte (Name h) \<and> list_all sub_ok (Subs h)"

definition stops :: "string \<Rightarrow> bool" where
  "stops s \<longleftrightarrow> s = [] \<or> hd s = CHR ''.''"

lemma not_name_bytes [simp]:
  "\<not> isPathNameByte CHR ''.''" "\<not> isPathNameByte CHR ''[''" "\<not> isPathNameByte CHR '']''"
  by (simp_all add: isPathNameByte_def is_digit_def)

lemma digit_not_bracket: "is_digit c \<Longrightarrow> c \<noteq> CHR '']''"
  by (auto simp: is_digit_def)

text \<open>
  The grammar, as a relation between hops and the texts that spell them: an index may have leading zeros.
\<close>

definition spelt_sub :: "path_sub \<Rightarrow> string \<Rightarrow> bool" where
  "spelt_sub sub t \<longleftrightarrow>
     (case sub of
        Wildcard \<Rightarrow> t = ''[*]''
      | Index n \<Rightarrow> \<exists>ds. t = ''['' @ ds @ '']'' \<and> ds \<noteq> [] \<and> list_all is_digit ds \<and> dec_val ds = n)"

fun spelt_subs :: "path_sub list \<Rightarrow> string \<Rightarrow> bool" where
  "spelt_subs [] t \<longleftrightarrow> t = []"
| "spelt_subs (s # ss) t \<longleftrightarrow> (\<exists>u v. t = u @ v \<and> spelt_sub s u \<and> spelt_subs ss v)"

definition spelt_hop :: "path_hop \<Rightarrow> string \<Rightarrow> bool" where
  "spelt_hop h t \<longleftrightarrow> (\<exists>v. t = Name h @ v \<and> spelt_subs (Subs h) v)"

fun spelt :: "path_hop list \<Rightarrow> string \<Rightarrow> bool" where
  "spelt [] t \<longleftrightarrow> t = []"
| "spelt [h] t \<longleftrightarrow> spelt_hop h t"
| "spelt (h # g # hs) t \<longleftrightarrow> (\<exists>u v. t = u @ ''.'' @ v \<and> spelt_hop h u \<and> spelt (g # hs) v)"

lemma parsePathSub_index:
  assumes "int (dec_val ds) \<le> max_i32" "ds \<noteq> []" "list_all is_digit ds"
  shows "parsePathSub ds = Some (Index (dec_val ds))"
proof -
  have "\<not> is_digit CHR ''*''" by (simp add: is_digit_def)
  then have "ds \<noteq> ''*''" using assms(3) by auto
  then show ?thesis using assms by (simp add: parsePathSub_def IsArrayIndex_def)
qed

lemma scan_sub_spelt:
  assumes "sub_ok sub" "spelt_sub sub u"
  shows "scan_subs (u @ rest) =
    (case scan_subs rest of Inl e \<Rightarrow> Err e | Inr (subs, r) \<Rightarrow> Ok (sub # subs, r))"
proof (cases sub)
  case Wildcard
  then show ?thesis
    using assms(2) by (simp add: spelt_sub_def scan_subs_step parsePathSub_def split: sum.split)
next
  case (Index n)
  then obtain ds where ds: "u = ''['' @ ds @ '']''" "ds \<noteq> []" "list_all is_digit ds" "dec_val ds = n"
    using assms(2) by (auto simp: spelt_sub_def)
  have t: "takeWhile (\<lambda>x. x \<noteq> CHR '']'') (ds @ CHR '']'' # rest) = ds"
    using ds(3) digit_not_bracket by (subst takeWhile_append2) (auto simp: list_all_iff)
  have "parsePathSub ds = Some sub"
    using parsePathSub_index [of ds] ds Index assms(1) by (simp add: sub_ok_def)
  then show ?thesis using t by (simp add: ds(1) scan_subs_step Let_def split: sum.split)
qed

lemma scan_subs_spelt:
  "list_all sub_ok subs \<Longrightarrow> spelt_subs subs u \<Longrightarrow> stops rest \<Longrightarrow> scan_subs (u @ rest) = Ok (subs, rest)"
proof (induction subs arbitrary: u)
  case Nil
  then show ?case by (auto simp: stops_def intro!: scan_subs_stop)
next
  case (Cons sub subs)
  then obtain a b where ab: "u = a @ b" "spelt_sub sub a" "spelt_subs subs b" by auto
  then show ?case using Cons.IH [OF _ ab(3) Cons.prems(3)] Cons.prems(1) scan_sub_spelt [OF _ ab(2), of "b @ rest"] by simp
qed

lemma spelt_subs_head:
  "stops rest \<Longrightarrow> spelt_subs subs v \<Longrightarrow> v @ rest = [] \<or> \<not> isPathNameByte (hd (v @ rest))"
proof (cases subs)
  case (Cons a list)
  assume "stops rest" "spelt_subs subs v"
  then obtain u w where "v = u @ w" "spelt_sub a u" using Cons by auto
  then show ?thesis by (cases a) (auto simp: spelt_sub_def)
qed (auto simp: stops_def)

lemma name_split:
  assumes "list_all isPathNameByte name" "t = [] \<or> \<not> isPathNameByte (hd t)"
  shows "takeWhile isPathNameByte (name @ t) = name" "dropWhile isPathNameByte (name @ t) = t"
proof -
  have "takeWhile isPathNameByte t = [] \<and> dropWhile isPathNameByte t = t"
    using assms(2) by (cases t) auto
  then show "takeWhile isPathNameByte (name @ t) = name" "dropWhile isPathNameByte (name @ t) = t"
    using assms(1) by (simp_all add: list_all_iff takeWhile_append2 dropWhile_append2)
qed

lemma scanPathHops_hop:
  assumes "hop_ok h" "spelt_hop h u" "stops rest"
  shows "scanPathHops (u @ rest) =
    (case rest of
       [] \<Rightarrow> Ok [h]
     | c # t \<Rightarrow> if t = [] then Err TrailingDot
               else (case scanPathHops t of Inl e \<Rightarrow> Err e | Inr hops \<Rightarrow> Ok (h # hops)))"
proof -
  obtain v where v: "u = Name h @ v" "spelt_subs (Subs h) v" using assms(2) by (auto simp: spelt_hop_def)
  note n = name_split [OF _ spelt_subs_head [OF assms(3) v(2)], of "Name h"]
  have s: "scan_subs (v @ rest) = Ok (Subs h, rest)"
    using assms v by (intro scan_subs_spelt) (auto simp: hop_ok_def)
  have h: "Name h \<noteq> []" "list_all isPathNameByte (Name h)" using assms(1) by (auto simp: hop_ok_def)
  have eq: "\<lparr>Name = Name h, Subs = Subs h\<rparr> = h" by simp
  show ?thesis
    using assms(3) h n [OF h(2)] s
    by (subst scanPathHops.simps)
      (cases rest; simp add: v(1) Let_def eq stops_def split: sum.split)
qed

lemma spelt_not_Nil: "hops \<noteq> [] \<Longrightarrow> list_all hop_ok hops \<Longrightarrow> spelt hops t \<Longrightarrow> t \<noteq> []"
  by (cases "(hops, t)" rule: spelt.cases) (auto simp: spelt_hop_def hop_ok_def)

lemma scan_spelt:
  "hops \<noteq> [] \<Longrightarrow> list_all hop_ok hops \<Longrightarrow> spelt hops t \<Longrightarrow> scanPathHops t = Ok hops"
proof (induction hops arbitrary: t rule: induct_list012)
  case (2 h)
  then show ?case using scanPathHops_hop [of h t "[]"] by (simp add: stops_def)
next
  case (3 h g hs)
  then obtain u v where uv: "t = u @ CHR ''.'' # v" "spelt_hop h u" "spelt (g # hs) v" by auto
  then show ?case
    using 3 scanPathHops_hop [of h u "CHR ''.'' # v"] spelt_not_Nil [of "g # hs" v] by (simp add: stops_def)
qed simp

lemma parse_spelt: "list_all hop_ok hops \<Longrightarrow> spelt hops t \<Longrightarrow> ParseFilterPath t = Ok hops"
  using scan_spelt [of hops t] spelt_not_Nil [of hops t]
  by (cases hops) (auto simp: ParseFilterPath_def)

lemma render_spelt: "spelt hops (renderPathHops hops False)"
proof -
  have sub: "spelt_sub s (render_sub False s)" for s
    using dec_str_digits by (cases s) (auto simp: spelt_sub_def render_sub_def list_all_iff)
  have subs: "spelt_subs ss (concat (map (render_sub False) ss))" for ss
    using sub by (induction ss) auto
  have hop: "spelt_hop h (render_hop False h)" for h using subs by (auto simp: spelt_hop_def render_hop_def)
  show ?thesis by (induction hops rule: induct_list012) (use hop in auto)
qed

lemma render_hop_not_Nil: "hop_ok h \<Longrightarrow> render_hop f h \<noteq> []"
  by (simp add: render_hop_def hop_ok_def)

lemma render_not_Nil: "hops \<noteq> [] \<Longrightarrow> list_all hop_ok hops \<Longrightarrow> renderPathHops hops f \<noteq> []"
  by (cases "(hops, f)" rule: renderPathHops.cases) (auto dest: render_hop_not_Nil)

lemma parse_render:
  "list_all hop_ok hops \<Longrightarrow> ParseFilterPath (renderPathHops hops False) = Ok hops"
  by (rule parse_spelt [OF _ render_spelt])

subsection \<open>What the parser accepts\<close>

lemma parsePathSub_ok: "parsePathSub inner = Some sub \<Longrightarrow> sub_ok sub"
  by (auto simp: parsePathSub_def sub_ok_def split: if_splits)

text \<open>The bytes of the grammar.\<close>

definition path_byte :: "char \<Rightarrow> bool" where
  "path_byte c \<longleftrightarrow> isPathNameByte c \<or> c \<in> {CHR ''.'', CHR ''['', CHR '']'', CHR ''*''}"

lemma digit_path_byte: "is_digit c \<Longrightarrow> path_byte c"
  by (simp add: path_byte_def isPathNameByte_def)

lemma parsePathSub_bytes: "parsePathSub inner = Some sub \<Longrightarrow> list_all path_byte inner"
proof -
  assume "parsePathSub inner = Some sub"
  then have "inner = ''*'' \<or> list_all is_digit inner"
    by (auto simp: parsePathSub_def IsArrayIndex_def split: if_splits)
  then show ?thesis using digit_path_byte by (auto simp: list_all_iff path_byte_def)
qed

lemma parsePathSub_spelt: "parsePathSub inner = Some sub \<Longrightarrow> spelt_sub sub (''['' @ inner @ '']'')"
  by (auto simp: parsePathSub_def spelt_sub_def IsArrayIndex_def split: if_splits)

lemma takeWhile_split:
  "length (takeWhile P r) \<noteq> length r \<Longrightarrow>
   \<exists>c. r = takeWhile P r @ c # drop (length (takeWhile P r) + 1) r \<and> \<not> P c"
proof -
  assume "length (takeWhile P r) \<noteq> length r"
  then have "dropWhile P r \<noteq> []" by (metis append_Nil2 takeWhile_dropWhile_id)
  then obtain c t where d: "dropWhile P r = c # t" by (cases "dropWhile P r") auto
  then have "\<not> P c" using hd_dropWhile [of P r] by simp
  moreover have r: "r = takeWhile P r @ c # t" using d takeWhile_dropWhile_id [of P r] by simp
  moreover have "drop (length (takeWhile P r) + 1) r = t" by (subst r) simp
  ultimately show ?thesis by auto
qed

lemma scan_subs_spec:
  "scan_subs s = Ok (subs, rest) \<Longrightarrow>
   list_all sub_ok subs \<and> (\<exists>pre. s = pre @ rest \<and> list_all path_byte pre \<and> spelt_subs subs pre)"
proof (induction s arbitrary: subs rule: scan_subs.induct)
  case (1 s)
  show ?case
  proof (cases "s = [] \<or> hd s \<noteq> CHR ''[''")
    case True
    then show ?thesis using 1(2) scan_subs_stop [OF True] by auto
  next
    case False
    then obtain r where s: "s = CHR ''['' # r" by (cases s) auto
    let ?inner = "takeWhile (\<lambda>x. x \<noteq> CHR '']'') r"
    from 1(2) obtain sub subs' where
      ih: "length ?inner \<noteq> length r" "parsePathSub ?inner = Some sub"
        "scan_subs (drop (length ?inner + 1) r) = Ok (subs', rest)" and subs: "subs = sub # subs'"
      by (auto simp: s scan_subs_step Let_def split: if_splits option.splits sum.splits)
    from 1(1) [OF s refl refl ih(1) ih(2) ih(3)] obtain pre where
      pre: "list_all sub_ok subs'" "drop (length ?inner + 1) r = pre @ rest" "list_all path_byte pre" "spelt_subs subs' pre"
      by blast
    have "r = ?inner @ CHR '']'' # pre @ rest"
      using takeWhile_split [OF ih(1)] pre(2) by auto
    then have "s = (CHR ''['' # ?inner @ CHR '']'' # pre) @ rest" by (simp add: s)
    moreover have "list_all path_byte (CHR ''['' # ?inner @ CHR '']'' # pre)"
      using parsePathSub_bytes [OF ih(2)] pre(3) by (simp add: path_byte_def)
    moreover have "spelt_subs subs (CHR ''['' # ?inner @ CHR '']'' # pre)"
      unfolding subs spelt_subs.simps
      using parsePathSub_spelt [OF ih(2)] pre(4) by (intro exI [of _ "''['' @ ?inner @ '']''"] exI [of _ pre]) simp
    ultimately show ?thesis using parsePathSub_ok [OF ih(2)] pre(1) subs by auto
  qed
qed

lemma scanPathHops_spec:
  "scanPathHops body = Ok hops \<Longrightarrow> hops \<noteq> [] \<and> list_all hop_ok hops \<and> list_all path_byte body \<and> spelt hops body"
proof (induction body arbitrary: hops rule: scanPathHops.induct)
  case (1 body)
  let ?name = "takeWhile isPathNameByte body" and ?r = "dropWhile isPathNameByte body"
  have ne: "?name \<noteq> []" using 1(2) by (subst (asm) scanPathHops.simps) (auto simp: Let_def split: list.splits if_splits)
  from 1(2) ne obtain subs rest where s: "scan_subs ?r = Ok (subs, rest)"
    by (subst (asm) scanPathHops.simps) (auto simp: Let_def split: sum.splits)
  let ?hop = "\<lparr>Name = ?name, Subs = subs\<rparr>"
  from scan_subs_spec [OF s] obtain pre where
    pre: "list_all sub_ok subs" "?r = pre @ rest" "list_all path_byte pre" "spelt_subs subs pre" by blast
  have nm: "list_all isPathNameByte ?name" by (auto simp: list_all_iff dest: set_takeWhileD)
  then have hop: "hop_ok ?hop" using ne pre(1) by (simp add: hop_ok_def)
  have body: "body = ?name @ pre @ rest" using takeWhile_dropWhile_id [of isPathNameByte body] pre(2) by simp
  have b: "list_all path_byte (?name @ pre)" using nm pre(3) by (auto simp: list_all_iff path_byte_def)
  have sp: "spelt_hop ?hop (?name @ pre)" using pre(4) by (auto simp: spelt_hop_def)
  have bb: "list_all path_byte rest \<Longrightarrow> list_all path_byte body" using b by (subst body) auto
  have eq: "(case rest of [] \<Rightarrow> Ok [?hop]
      | c # t \<Rightarrow> if c = CHR ''.'' then
          (if t = [] then Err TrailingDot
           else (case scanPathHops t of Inl e \<Rightarrow> Err e | Inr hops \<Rightarrow> Ok (?hop # hops)))
        else if c = CHR '']'' then Err UnmatchedBracket
        else Err (disallowedCharReason rest)) = Ok hops"
    using 1(2) ne s by (subst (asm) scanPathHops.simps) (simp add: Let_def)
  show ?case
  proof (cases rest)
    case Nil
    then have "hops = [?hop]" "body = ?name @ pre" using eq body by auto
    then show ?thesis using hop sp bb Nil by simp
  next
    case (Cons c t)
    then have c: "c = CHR ''.''" "t \<noteq> []" and "\<exists>hs. scanPathHops t = Ok hs \<and> hops = ?hop # hs"
      using eq by (auto split: if_splits sum.splits)
    then obtain hs where hs: "scanPathHops t = Ok hs" "hops = ?hop # hs" by blast
    have "hs \<noteq> [] \<and> list_all hop_ok hs \<and> list_all path_byte t \<and> spelt hs t"
      by (rule 1(1) [OF refl refl ne s refl refl Cons c hs(1)])
    moreover have "list_all path_byte body"
      using calculation c Cons by (intro bb) (simp add: path_byte_def)
    moreover have "spelt (?hop # hs) body"
    proof -
      obtain g gs where g: "hs = g # gs" using calculation(1) by (cases hs) auto
      have "body = (?name @ pre) @ ''.'' @ t" using body Cons c by simp
      then show ?thesis unfolding g spelt.simps using sp calculation(1) g by blast
    qed
    ultimately show ?thesis using hs hop by simp
  qed
qed

lemma ParseFilterPath_spec:
  "ParseFilterPath p = Ok hops \<Longrightarrow>
     list_all hop_ok hops \<and> list_all path_byte p \<and> (hops = [] \<longleftrightarrow> p = []) \<and> spelt hops p"
  by (auto simp: ParseFilterPath_def split: if_splits sum.splits dest: scanPathHops_spec)

subsection \<open>Folding subscripts\<close>

definition fold_hop :: "path_hop \<Rightarrow> path_hop" where
  "fold_hop h = h\<lparr>Subs := map (\<lambda>s. Wildcard) (Subs h)\<rparr>"

lemma render_sub_fold: "render_sub True s = render_sub False Wildcard"
  by (cases s) (simp_all add: render_sub_def)

lemma render_hop_fold: "render_hop True h = render_hop False (fold_hop h)"
proof -
  have "concat (map (render_sub True) ss) = concat (map (render_sub False) (map (\<lambda>s. Wildcard) ss))" for ss
    by (induction ss) (simp_all add: render_sub_fold)
  from this [of "Subs h"] show ?thesis by (simp add: render_hop_def fold_hop_def)
qed

lemma render_fold: "renderPathHops hops True = renderPathHops (map fold_hop hops) False"
  by (induction hops rule: induct_list012) (simp_all add: render_hop_fold)

lemma fold_hop_ok: "hop_ok h \<Longrightarrow> hop_ok (fold_hop h)"
  by (auto simp: hop_ok_def fold_hop_def list_all_iff sub_ok_def)

lemma fold_fold: "fold_hop (fold_hop h) = fold_hop h"
  by (simp add: fold_hop_def)

lemma parse_render_fold:
  "list_all hop_ok hops \<Longrightarrow> ParseFilterPath (renderPathHops hops True) = Ok (map fold_hop hops)"
  unfolding render_fold by (rule parse_render) (auto simp: list_all_iff fold_hop_ok)

text \<open>A wire path that passes the boundary has a plugin path that parses.\<close>

lemma ParseFilterPath_nonempty: "p \<noteq> [] \<Longrightarrow> (\<exists>hops. ParseFilterPath p = Ok hops) \<longleftrightarrow> scanWirePathBody p = None"
  by (simp add: ParseFilterPath_def scanWirePathBody_def split: sum.split)

lemma ValidateFilterPath_None: "ValidateFilterPath p = None \<longleftrightarrow> (\<exists>hops. ParseFilterPath p = Ok hops)"
  by (simp add: ValidateFilterPath_def split: sum.split)

lemma name_not_quote: "path_byte c \<Longrightarrow> c \<noteq> CHR 0x27 \<and> c \<noteq> CHR 0x22"
  by (auto simp: path_byte_def isPathNameByte_def is_digit_def)

lemma parsed_no_quote: "ParseFilterPath p = Ok hops \<Longrightarrow> \<not> containsBracketQuote p"
proof -
  assume "ParseFilterPath p = Ok hops"
  then have q: "CHR 0x27 \<notin> set p \<and> CHR 0x22 \<notin> set p"
    using ParseFilterPath_spec [of p hops] name_not_quote by (auto simp: list_all_iff)
  have "contains p w \<Longrightarrow> set w \<subseteq> set p" for w by (auto simp: contains_iff)
  then show ?thesis using q by (fastforce simp: containsBracketQuote_def)
qed

text \<open>The wire boundary and the parser of the plugin form accept the same paths, up to the leader.\<close>

lemma stripDollarDot_iff:
  "stripDollarDot path = Ok p \<longleftrightarrow> path = ''$.'' @ p \<and> p \<noteq> [] \<and> ValidateFilterPath p = None"
proof (cases "strip_prefix jsonPathLeader path")
  case None
  then have "path \<noteq> ''$.'' @ p" using strip_prefix_append [of jsonPathLeader p] by (auto simp: jsonPathLeader_def)
  then show ?thesis using None by (simp add: stripDollarDot_def)
next
  case (Some q)
  then have path: "path = ''$.'' @ q" by (simp add: strip_prefix_Some_iff jsonPathLeader_def)
  have "stripDollarDot path = Ok p \<longleftrightarrow> q = p \<and> q \<noteq> [] \<and> \<not> containsBracketQuote q \<and> scanWirePathBody q = None"
    by (auto simp: stripDollarDot_def Some split: option.splits if_splits)
  then show ?thesis
    using ParseFilterPath_nonempty [of q] parsed_no_quote [of q]
    unfolding path ValidateFilterPath_None by auto
qed

subsection \<open>Properties\<close>

text \<open>C25: a path is accepted, and read as given hops, exactly when the hops are well formed (names of name bytes,
  indices in int32) and the path spells them by the grammar: the names joined by dots, each subscript a
  bracketed star or digits of its value. So rendering any well-formed hops and parsing them back is the
  identity, and rendering with the fold asked for parses to the hops with every subscript a wildcard.\<close>

theorem filter_path_roundtrip:
  "(ParseFilterPath p = Ok hops \<longleftrightarrow> list_all hop_ok hops \<and> spelt hops p)
   \<and> (list_all hop_ok hops \<longrightarrow>
        ParseFilterPath (renderPathHops hops False) = Ok hops
        \<and> ParseFilterPath (renderPathHops hops True) = Ok (map fold_hop hops))"
  using ParseFilterPath_spec [of p hops] parse_spelt parse_render parse_render_fold by blast

theorem filter_path_roundtrip_witness:
  "ParseFilterPath ''tags[07].sku'' =
     Ok [\<lparr>Name = ''tags'', Subs = [Index 7]\<rparr>, \<lparr>Name = ''sku'', Subs = []\<rparr>]
   \<and> ParseFilterPath ''tags[*].sku'' =
     Ok [\<lparr>Name = ''tags'', Subs = [Wildcard]\<rparr>, \<lparr>Name = ''sku'', Subs = []\<rparr>]"
proof -
  let ?h = "[\<lparr>Name = ''tags'', Subs = [Index 7]\<rparr>, \<lparr>Name = ''sku'', Subs = []\<rparr>]"
  have p: "ParseFilterPath ''tags[07].sku'' = Ok ?h" by code_simp
  have ok: "list_all hop_ok ?h" by code_simp
  have "renderPathHops ?h True = ''tags[*].sku''" by code_simp
  then show ?thesis using filter_path_roundtrip [of "''tags[07].sku''" ?h] p ok by (simp add: fold_hop_def)
qed

text \<open>the request boundary accepts exactly the paths made of the leader and a non-empty path the
  plugin-facing validator accepts, so no path passes one check and fails the other.\<close>

theorem wire_path_agrees:
  "stripDollarDot path = Ok p \<longleftrightarrow> path = ''$.'' @ p \<and> p \<noteq> [] \<and> ValidateFilterPath p = None"
  by (rule stripDollarDot_iff)

end
