(* ===== verification/Eval_Leaf.thy ===== *)
theory Eval_Leaf
  imports Operand Parse_Typed Temporal Like_Pattern
begin

text \<open>
  The leaf comparison kernel (\<open>eval_leaf.go\<close>): an operand is expanded once against the declared
  types of the field, and the expansion is evaluated against one stored JSON value. The stored
  value is what \<open>gjson\<close> returns. The UUID library, the regular-expression engine and Unicode case
  mapping are parameters, collected in \<open>ext\<close>. The main results: on every number the declared
  types admit, a comparison decides the mathematical relation, whatever the declared types are
  and however the operand is written; absent and null values match no binary operator.
\<close>

subsection \<open>Parameters and stored values\<close>

text \<open>
  \<open>x_re_parse\<close> is \<open>syntax.Parse\<close> (the error code, if any), \<open>x_re_compile\<close> is \<open>regexp.Compile\<close> with
  the compiled expression as its match function.
\<close>

record 'u ext =
  x_uuid_parse :: "string \<Rightarrow> 'u option"
  x_uuid_version :: "'u \<Rightarrow> nat"
  x_to_lower :: "string \<Rightarrow> string"
  x_equal_fold :: "string \<Rightarrow> string \<Rightarrow> bool"
  x_re_parse :: "string \<Rightarrow> string option"
  x_re_compile :: "string \<Rightarrow> (string \<Rightarrow> bool) option"

text \<open>A \<open>gjson.Result\<close>: absent, or one of its types; a number keeps its raw text.\<close>

datatype stored =
    SAbsent | SNull | SNumber string | SString string | STrue | SFalse | SJson string

definition Exists :: "stored \<Rightarrow> bool" where
  "Exists s \<longleftrightarrow> s \<noteq> SAbsent"

subsection \<open>Pattern matchers\<close>

datatype pattern_error = BadEscape nat | BadSyntax string | NotWholeString

datatype pattern_matcher = LikeMatcher "like_tok list" | RegexMatcher "string \<Rightarrow> bool"

fun matches :: "pattern_matcher \<Rightarrow> string \<Rightarrow> bool" where
  "matches (LikeMatcher toks) s = (like_matches toks s = Some True)"
| "matches (RegexMatcher re) s = re s"

definition anchor :: "string \<Rightarrow> string" where
  "anchor body = [CHR 0x5C] @ ''A(?:'' @ body @ '')'' @ [CHR 0x5C] @ ''z''"

definition compileMatchesPattern :: "'u ext \<Rightarrow> string \<Rightarrow> pattern_error + pattern_matcher" where
  "compileMatchesPattern ext operand =
     (case x_re_parse ext operand of
        Some code \<Rightarrow> Err (BadSyntax code)
      | None \<Rightarrow>
          (case x_re_compile ext (anchor operand) of
             None \<Rightarrow> Err NotWholeString
           | Some re \<Rightarrow> Ok (RegexMatcher re)))"

text \<open>\<open>None\<close> on success is the nil matcher of an operator that compiles no pattern.\<close>

definition compileLeafPattern ::
  "'u ext \<Rightarrow> filter_op \<Rightarrow> go_any \<Rightarrow> pattern_error + pattern_matcher option" where
  "compileLeafPattern ext p value =
     (if p = FilterLike then
        (case parseLikePattern (OperandString value) of
           Inl (UnpairedEscape i) \<Rightarrow> Err (BadEscape i)
         | Inr toks \<Rightarrow> Ok (Some (LikeMatcher toks)))
      else if p = FilterMatchesRegex then
        (case compileMatchesPattern ext (OperandString value) of Inl e \<Rightarrow> Err e | Inr m \<Rightarrow> Ok (Some m))
      else Ok None)"

definition ValidateLeafPattern ::
  "'u ext \<Rightarrow> filter_op \<Rightarrow> go_any \<Rightarrow> (filter_op \<times> pattern_error) option" where
  "ValidateLeafPattern ext p value =
     (case compileLeafPattern ext p value of Inl e \<Rightarrow> Some (p, e) | Inr m \<Rightarrow> None)"

subsection \<open>The expansion\<close>

record temp_range =
  tr_type :: data_type
  tr_lo :: int
  tr_hi :: int

record 'u expansion =
  e_kind :: exp_kind
  e_op :: filter_op
  e_numeric :: "num_cond list"
  e_temporal :: "temporal_cond list"
  e_others :: "(data_type \<times> 'u typed_value) list"
  e_numTypes :: "data_type list"
  e_numLo :: decimal
  e_numHi :: decimal
  e_numOK :: bool
  e_tempRanges :: "temp_range list"
  e_strBetween :: bool
  e_strLo :: string
  e_strHi :: string
  e_strOperand :: string
  e_strMatch :: "pattern_matcher option"

definition mk_expansion :: "exp_kind \<Rightarrow> filter_op \<Rightarrow> 'u expansion" where
  "mk_expansion kind p =
     \<lparr>e_kind = kind, e_op = p, e_numeric = [], e_temporal = [], e_others = [], e_numTypes = [],
      e_numLo = zero_decimal, e_numHi = zero_decimal, e_numOK = False, e_tempRanges = [],
      e_strBetween = False, e_strLo = [], e_strHi = [], e_strOperand = [], e_strMatch = None\<rparr>"

definition maxEchoedOperandBytes :: nat where "maxEchoedOperandBytes = 200"

definition truncateOperand :: "string \<Rightarrow> string" where
  "truncateOperand s =
     (if length s \<le> maxEchoedOperandBytes then s
      else take maxEchoedOperandBytes s @ ''...(truncated)'')"

datatype expand_error =
    UnsupportedLeafOperator filter_op
  | NoDeclaredType string
  | RangeArity filter_op nat
  | RangeNoDeclaredType

definition bucketDeclared ::
  "data_type list \<Rightarrow> data_type list \<times> data_type list \<times> data_type list" where
  "bucketDeclared declared =
     (filter IsNumeric declared,
      filter (\<lambda>t. \<not> IsNumeric t \<and> isTemporalSubtype t) declared,
      filter (\<lambda>t. \<not> IsNumeric t \<and> \<not> isTemporalSubtype t) declared)"

text \<open>The loop over the other declared types: those the operand parses as.\<close>

fun parse_others ::
  "'u ext \<Rightarrow> string \<Rightarrow> data_type list \<Rightarrow> (data_type \<times> 'u typed_value) list" where
  "parse_others ext operand [] = []"
| "parse_others ext operand (t # ts) =
     (case ParseStringOrNull (x_uuid_parse ext) (x_uuid_version ext) operand t of
        Some v \<Rightarrow> (t, v) # parse_others ext operand ts
      | None \<Rightarrow> parse_others ext operand ts)"

definition expandCompare ::
  "'u ext \<Rightarrow> filter_op \<Rightarrow> string \<Rightarrow> data_type list \<Rightarrow> expand_error + 'u expansion" where
  "expandCompare ext p operand declared =
     (let (numericDeclared, temporalDeclared, otherDeclared) = bucketDeclared declared;
          num = (if numericDeclared \<noteq> [] then
                   (case ParseDecimal operand of Inl e \<Rightarrow> None
                    | Inr dec \<Rightarrow>
                        Some (ExpandNumericOperand (StripTrailingZeros dec) numericDeclared p))
                 else None);
          tmp = (if temporalDeclared \<noteq> [] then
                   (case parseNatural operand of None \<Rightarrow> None
                    | Some v \<Rightarrow> Some (ExpandTemporalOperand operand temporalDeclared p))
                 else None);
          oth = parse_others ext operand otherDeclared
      in if num = None \<and> tmp = None \<and> oth = [] then Err (NoDeclaredType (truncateOperand operand))
         else Ok ((mk_expansion kindCompare p)
           \<lparr>e_numeric := (case num of None \<Rightarrow> [] | Some l \<Rightarrow> l),
            e_temporal := (case tmp of None \<Rightarrow> [] | Some l \<Rightarrow> l),
            e_others := oth\<rparr>))"

definition resolveTemporalMillis :: "string \<Rightarrow> data_type \<Rightarrow> int option" where
  "resolveTemporalMillis operand t =
     (case parseNatural operand of
        None \<Rightarrow> None
      | Some src \<Rightarrow>
          if tv_type src = t then Some (Millis src)
          else (case convertTemporal (tv_type src) t src FilterGt of
                  Some c \<Rightarrow> Some (tc_millis c) | None \<Rightarrow> None))"

fun resolve_ranges :: "string \<Rightarrow> string \<Rightarrow> data_type list \<Rightarrow> temp_range list" where
  "resolve_ranges lo hi [] = []"
| "resolve_ranges lo hi (t # ts) =
     (case (resolveTemporalMillis lo t, resolveTemporalMillis hi t) of
        (Some l, Some h) \<Rightarrow> \<lparr>tr_type = t, tr_lo = l, tr_hi = h\<rparr> # resolve_ranges lo hi ts
      | _ \<Rightarrow> resolve_ranges lo hi ts)"

definition expandBetween ::
  "filter_op \<Rightarrow> string list \<Rightarrow> data_type list \<Rightarrow> expand_error + 'u expansion" where
  "expandBetween p vals declared =
     (if length vals \<noteq> 2 then Err (RangeArity p (length vals))
      else
        (let lo = vals ! 0; hi = vals ! 1;
             (numericDeclared, temporalDeclared, otherDeclared) = bucketDeclared declared;
             num = (if numericDeclared \<noteq> [] then
                      (case (ParseDecimal lo, ParseDecimal hi) of
                         (Inr l, Inr h) \<Rightarrow> Some (l, h) | _ \<Rightarrow> None)
                    else None);
             ranges = (if temporalDeclared \<noteq> [] \<and> parseNatural lo \<noteq> None \<and> parseNatural hi \<noteq> None
                       then resolve_ranges lo hi temporalDeclared else []);
             str = (String \<in> set otherDeclared)
         in if num = None \<and> ranges = [] \<and> \<not> str then Err RangeNoDeclaredType
            else
              (let e0 = (mk_expansion kindBetween p)\<lparr>e_tempRanges := ranges\<rparr>;
                   e1 = (case num of None \<Rightarrow> e0
                         | Some (l, h) \<Rightarrow>
                             e0\<lparr>e_numOK := True, e_numLo := l, e_numHi := h, e_numTypes := numericDeclared\<rparr>)
               in Ok (if str then e1\<lparr>e_strBetween := True, e_strLo := lo, e_strHi := hi\<rparr> else e1))))"

definition ExpandLeaf ::
  "'u ext \<Rightarrow> filter_op \<Rightarrow> string \<Rightarrow> string list \<Rightarrow> data_type list \<Rightarrow> expand_error + 'u expansion" where
  "ExpandLeaf ext p operand vals declared =
     (case leafKindOf p of
        None \<Rightarrow> Err (UnsupportedLeafOperator p)
      | Some kindUnary \<Rightarrow> Ok (mk_expansion kindUnary p)
      | Some kindStringOp \<Rightarrow>
          (let e = (mk_expansion kindStringOp p)\<lparr>e_strOperand := operand\<rparr> in
           case compileLeafPattern ext p (GString operand) of
             Inl err \<Rightarrow> Ok e
           | Inr m \<Rightarrow> Ok (e\<lparr>e_strMatch := m\<rparr>))
      | Some kindBetween \<Rightarrow> expandBetween p vals declared
      | Some kindCompare \<Rightarrow> expandCompare ext p operand declared)"

subsection \<open>String operators\<close>

definition evalStringOp :: "'u ext \<Rightarrow> 'u expansion \<Rightarrow> string \<Rightarrow> bool" where
  "evalStringOp ext e s =
     (let operand = e_strOperand e; fold = x_to_lower ext in
      case e_op e of
        FilterContains \<Rightarrow> contains s operand
      | FilterStartsWith \<Rightarrow> has_prefix s operand
      | FilterEndsWith \<Rightarrow> has_suffix s operand
      | FilterNotContains \<Rightarrow> \<not> contains s operand
      | FilterNotStartsWith \<Rightarrow> \<not> has_prefix s operand
      | FilterNotEndsWith \<Rightarrow> \<not> has_suffix s operand
      | FilterLike \<Rightarrow> (case e_strMatch e of None \<Rightarrow> False | Some m \<Rightarrow> matches m s)
      | FilterMatchesRegex \<Rightarrow> (case e_strMatch e of None \<Rightarrow> False | Some m \<Rightarrow> matches m s)
      | FilterIEq \<Rightarrow> x_equal_fold ext s operand
      | FilterINe \<Rightarrow> \<not> x_equal_fold ext s operand
      | FilterIContains \<Rightarrow> contains (fold s) (fold operand)
      | FilterINotContains \<Rightarrow> \<not> contains (fold s) (fold operand)
      | FilterIStartsWith \<Rightarrow> has_prefix (fold s) (fold operand)
      | FilterINotStartsWith \<Rightarrow> \<not> has_prefix (fold s) (fold operand)
      | FilterIEndsWith \<Rightarrow> has_suffix (fold s) (fold operand)
      | FilterINotEndsWith \<Rightarrow> \<not> has_suffix (fold s) (fold operand)
      | _ \<Rightarrow> False)"

subsection \<open>Evaluation\<close>

text \<open>
  The loops of \<open>evalCompare\<close>: they skip branches that do not apply to the stored value, remember
  that a candidate was seen, and stop at the first match. The result is \<open>(matched, hadCandidate)\<close>.
\<close>

fun evalNumeric :: "decimal \<Rightarrow> num_cond list \<Rightarrow> bool \<Rightarrow> bool \<times> bool" where
  "evalNumeric dec [] had = (False, had)"
| "evalNumeric dec (sc # scs) had =
     (if \<not> AdmitsNumeric (nc_type sc) dec then evalNumeric dec scs had
      else if nc_notnull sc then (True, True)
      else if cmpResult (Cmp dec (nc_value sc)) (nc_op sc) then (True, True)
      else evalNumeric dec scs True)"

fun evalTemporal :: "temporal_value \<Rightarrow> temporal_cond list \<Rightarrow> bool \<Rightarrow> bool \<times> bool" where
  "evalTemporal src [] had = (False, had)"
| "evalTemporal src (tc # tcs) had =
     (if tc_type tc \<noteq> tv_type src then evalTemporal src tcs had
      else if CompareTemporal (tc_op tc) (Millis src) True (tc_millis tc) True then (True, True)
      else evalTemporal src tcs True)"

definition compareRune :: "nat \<Rightarrow> nat \<Rightarrow> int" where
  "compareRune a b = (if a < b then -1 else if a > b then 1 else 0)"

text \<open>One branch of a non-temporal text comparison: \<open>None\<close> when it is no candidate.\<close>

definition evalOther ::
  "'u ext \<Rightarrow> filter_op \<Rightarrow> string \<Rightarrow> data_type \<times> 'u typed_value \<Rightarrow> bool option" where
  "evalOther ext p s oc =
     (case oc of
        (t, VString v) \<Rightarrow> if t = String then Some (cmpResult (string_compare s v) p) else None
      | (t, VRune r) \<Rightarrow>
          if t = Character \<and> length (runes s) = 1
          then Some (cmpResult (compareRune (hd (runes s)) r) p) else None
      | (t, VUuid u) \<Rightarrow>
          if t = UUIDType \<or> t = TimeUUIDType
          then (case x_uuid_parse ext s of None \<Rightarrow> None | Some uid \<Rightarrow> Some (eqNeResult (uid = u) p))
          else None
      | _ \<Rightarrow> None)"

fun evalOthers ::
  "'u ext \<Rightarrow> filter_op \<Rightarrow> string \<Rightarrow> (data_type \<times> 'u typed_value) list \<Rightarrow> bool \<Rightarrow> bool \<times> bool" where
  "evalOthers ext p s [] had = (False, had)"
| "evalOthers ext p s (oc # ocs) had =
     (case evalOther ext p s oc of
        None \<Rightarrow> evalOthers ext p s ocs had
      | Some b \<Rightarrow> if b then (True, True) else evalOthers ext p s ocs True)"

fun evalBools :: "filter_op \<Rightarrow> bool \<Rightarrow> (data_type \<times> 'u typed_value) list \<Rightarrow> bool \<Rightarrow> bool \<times> bool" where
  "evalBools p b [] had = (False, had)"
| "evalBools p b ((t, v) # ocs) had =
     (if t = Boolean then
        (if eqNeResult (v = VBool b) p then (True, True) else evalBools p b ocs True)
      else evalBools p b ocs had)"

definition evalCompare :: "'u ext \<Rightarrow> 'u expansion \<Rightarrow> stored \<Rightarrow> bool \<times> bool" where
  "evalCompare ext e st =
     (case st of
        SNumber raw \<Rightarrow>
          (case ParseDecimal raw of
             Inl err \<Rightarrow> (False, True)
           | Inr dec \<Rightarrow> evalNumeric dec (e_numeric e) False)
      | SString s \<Rightarrow>
          (let r = (if e_temporal e \<noteq> [] then
                      (case parseNatural s of
                         None \<Rightarrow> (False, False)
                       | Some src \<Rightarrow> evalTemporal src (e_temporal e) False)
                    else (False, False))
           in if fst r then r else evalOthers ext (e_op e) s (e_others e) (snd r))
      | STrue \<Rightarrow> evalBools (e_op e) True (e_others e) False
      | SFalse \<Rightarrow> evalBools (e_op e) False (e_others e) False
      | _ \<Rightarrow> (False, False))"

definition rangeMatch :: "int \<Rightarrow> int \<Rightarrow> bool \<Rightarrow> bool" where
  "rangeMatch loCmp hiCmp inclusive =
     (if inclusive then loCmp \<le> 0 \<and> hiCmp \<le> 0 else loCmp < 0 \<and> hiCmp < 0)"

definition rangeMatchMs :: "int \<Rightarrow> int \<Rightarrow> int \<Rightarrow> bool \<Rightarrow> bool" where
  "rangeMatchMs lo ms hi inclusive =
     (if inclusive then lo \<le> ms \<and> ms \<le> hi else lo < ms \<and> ms < hi)"

definition evalBetween :: "'u expansion \<Rightarrow> stored \<Rightarrow> bool" where
  "evalBetween e st =
     (let inclusive = (e_op e = FilterBetweenInclusive) in
      case st of
        SNumber raw \<Rightarrow>
          if \<not> e_numOK e then False
          else (case ParseDecimal raw of
                  Inl err \<Rightarrow> False
                | Inr dec \<Rightarrow>
                    if \<not> (\<exists>u \<in> set (e_numTypes e). AdmitsNumeric u dec) then False
                    else rangeMatch (Cmp (e_numLo e) dec) (Cmp dec (e_numHi e)) inclusive)
      | SString s \<Rightarrow>
          (e_tempRanges e \<noteq> [] \<and>
             (case parseNatural s of
                None \<Rightarrow> False
              | Some src \<Rightarrow>
                  \<exists>tr \<in> set (e_tempRanges e). tr_type tr = tv_type src
                    \<and> rangeMatchMs (tr_lo tr) (Millis src) (tr_hi tr) inclusive))
          \<or> (e_strBetween e \<and>
             rangeMatch (string_compare (e_strLo e) s) (string_compare s (e_strHi e)) inclusive)
      | _ \<Rightarrow> False)"

definition EvalLeaf :: "'u ext \<Rightarrow> 'u expansion \<Rightarrow> stored \<Rightarrow> bool" where
  "EvalLeaf ext e st =
     (if e_kind e = kindUnary then
        (let present = (Exists st \<and> st \<noteq> SNull) in
         case e_op e of FilterIsNull \<Rightarrow> \<not> present | FilterNotNull \<Rightarrow> present | _ \<Rightarrow> False)
      else if \<not> Exists st \<or> st = SNull then False
      else
        (case e_kind e of
           kindStringOp \<Rightarrow>
             (case st of SString s \<Rightarrow> evalStringOp ext e s | _ \<Rightarrow> isNegativeOp (e_op e))
         | kindCompare \<Rightarrow>
             (let (matched, had) = evalCompare ext e st in
              if matched then True else if \<not> had then isNegativeOp (e_op e) else False)
         | kindBetween \<Rightarrow> evalBetween e st
         | kindUnary \<Rightarrow> False))"

subsection \<open>Text and runes compare three-way\<close>

interpretation str: three_way string_compare "\<lambda>s. True" "map byte :: string \<Rightarrow> nat list"
  by unfold_locales (rule string_compare_cmp3)

interpretation rune: three_way compareRune "\<lambda>r. True" "\<lambda>r. r"
  by unfold_locales (auto simp: compareRune_def cmp3_def)

subsection \<open>Numbers\<close>

lemma evalNumeric_had: "fst (evalNumeric d bs True) \<or> snd (evalNumeric d bs True)"
  by (induction bs) auto

lemma evalNumeric_fst:
  "fst (evalNumeric d bs had) \<longleftrightarrow> (\<exists>b \<in> set bs. AdmitsNumeric (nc_type b) d \<and> branch_answer b d)"
  by (induction bs arbitrary: had) (auto simp: branch_answer_def)

lemma evalNumeric_snd:
  "\<not> fst (evalNumeric d bs had) \<Longrightarrow>
   snd (evalNumeric d bs had) \<longleftrightarrow> had \<or> (\<exists>b \<in> set bs. AdmitsNumeric (nc_type b) d)"
  by (induction bs arbitrary: had) (auto simp: branch_answer_def split: if_splits)

text \<open>
  The answer of the loop with the polarity rule applied, from the branches of all declared types.
\<close>

definition numeric_answer :: "filter_op \<Rightarrow> decimal \<Rightarrow> num_cond list \<Rightarrow> bool" where
  "numeric_answer p d bs =
     (let (matched, had) = evalNumeric d bs False in
      if matched then True else if \<not> had then isNegativeOp p else False)"

lemma numeric_answer_admitted:
  assumes d: "decimal_ok d" and v: "decimal_ok v" "stripped v"
    and p: "leafKindOf p = Some kindCompare" and n: "\<forall>t \<in> set ts. IsNumeric t"
    and t: "t \<in> set ts" "AdmitsNumeric t d"
  shows "numeric_answer p d (ExpandNumericOperand v ts p) = rel_op p (dval d) (dval v)"
proof -
  let ?bs = "ExpandNumericOperand v ts p"
  have answer: "branch_answer b d = rel_op p (dval d) (dval v)"
    if b: "b \<in> set ?bs" "AdmitsNumeric (nc_type b) d" for b
  proof -
    from b(1) obtain u where u: "u \<in> set ts" "b \<in> set (type_branches v p u)"
      by (auto simp: set_ExpandNumericOperand [OF n])
    have "nc_type b = u" using u(2) by (rule type_branches_type)
    then show ?thesis using type_branches_decide [OF d v _ p, of u] b(2) u(2) by (auto simp: decides_def)
  qed
  show ?thesis
  proof (cases "type_branches v p t = []")
    case True
    then have "isNegativeOp p = rel_op p (dval d) (dval v)"
      using type_branches_decide [OF d v t(2) p] by (simp add: decides_def)
    then show ?thesis
      using answer evalNumeric_fst [of d ?bs False] evalNumeric_snd [of d ?bs False]
      by (auto simp: numeric_answer_def split: prod.split)
  next
    case False
    then obtain b where b: "b \<in> set (type_branches v p t)" by (cases "type_branches v p t") auto
    then have "b \<in> set ?bs" "nc_type b = t"
      using t(1) type_branches_type by (auto simp: set_ExpandNumericOperand [OF n])
    then show ?thesis
      using answer t(2) evalNumeric_fst [of d ?bs False] evalNumeric_snd [of d ?bs False]
      by (auto simp: numeric_answer_def split: prod.split)
  qed
qed

lemma numeric_answer_not_admitted:
  assumes n: "\<forall>t \<in> set ts. IsNumeric t" and t: "\<forall>t \<in> set ts. \<not> AdmitsNumeric t d"
  shows "numeric_answer p d (ExpandNumericOperand v ts p) = isNegativeOp p"
proof -
  let ?bs = "ExpandNumericOperand v ts p"
  have "\<not> AdmitsNumeric (nc_type b) d" if "b \<in> set ?bs" for b
    using that t type_branches_type by (fastforce simp: set_ExpandNumericOperand [OF n])
  then show ?thesis
    using evalNumeric_fst [of d ?bs False] evalNumeric_snd [of d ?bs False]
    by (auto simp: numeric_answer_def split: prod.split)
qed

lemma EvalLeaf_number:
  assumes p: "leafKindOf p = Some kindCompare"
    and v: "ParseDecimal operand = Ok v" and d: "ParseDecimal raw = Ok d"
    and n: "\<exists>t \<in> set declared. IsNumeric t"
  shows "\<exists>e. ExpandLeaf ext p operand vals declared = Ok e
    \<and> EvalLeaf ext e (SNumber raw) =
        numeric_answer p d (ExpandNumericOperand (StripTrailingZeros v) (filter IsNumeric declared) p)"
proof -
  have ne: "filter IsNumeric declared \<noteq> []" using n by (auto simp: filter_empty_conv)
  show ?thesis
    using ne v d
    by (auto simp: ExpandLeaf_def p expandCompare_def bucketDeclared_def Let_def mk_expansion_def
        EvalLeaf_def Exists_def evalCompare_def numeric_answer_def split: prod.split)
qed

subsection \<open>Expansions and their operator\<close>

lemma mk_expansion_sel [simp]:
  "e_kind (mk_expansion k p) = k" "e_op (mk_expansion k p) = p" "e_numeric (mk_expansion k p) = []"
  "e_temporal (mk_expansion k p) = []" "e_others (mk_expansion k p) = []"
  "e_numOK (mk_expansion k p) = False" "e_strMatch (mk_expansion k p) = None"
  by (simp_all add: mk_expansion_def)

lemma expandCompare_head:
  "expandCompare ext p operand declared = Ok e \<Longrightarrow> e_kind e = kindCompare \<and> e_op e = p"
  by (auto simp: expandCompare_def bucketDeclared_def Let_def split: if_splits)

lemma expandBetween_head:
  "expandBetween p vals declared = Ok e \<Longrightarrow> e_kind e = kindBetween \<and> e_op e = p"
  by (auto simp: expandBetween_def bucketDeclared_def Let_def split: if_splits option.splits)

text \<open>An expansion carries the kind and the operator of the leaf it was made for.\<close>

lemma ExpandLeaf_head:
  "ExpandLeaf ext p operand vals declared = Ok e \<Longrightarrow> leafKindOf p = Some (e_kind e) \<and> e_op e = p"
  by (auto simp: ExpandLeaf_def Let_def dest: expandCompare_head expandBetween_head
      split: option.splits exp_kind.splits sum.splits)

lemma EvalLeaf_no_value:
  assumes "leafKindOf p = Some (e_kind e)" "e_op e = p" "st = SNull \<or> st = SAbsent"
  shows "EvalLeaf ext e st = (p = FilterIsNull)"
  using assms by (cases p) (auto simp: EvalLeaf_def Exists_def)

lemma ExpandNumericOperand_Nil [simp]: "ExpandNumericOperand v [] p = []"
  using set_ExpandNumericOperand [of "[]" v p] by simp

lemma expandCompare_numeric:
  "expandCompare ext p operand declared = Ok e \<Longrightarrow>
   e_numeric e = (case ParseDecimal operand of Inl err \<Rightarrow> []
     | Inr v \<Rightarrow> ExpandNumericOperand (StripTrailingZeros v) (filter IsNumeric declared) p)"
  by (auto simp: expandCompare_def bucketDeclared_def Let_def
      split: if_splits sum.splits option.splits)

lemma EvalLeaf_compare_number:
  assumes "ExpandLeaf ext p operand vals declared = Ok e" "leafKindOf p = Some kindCompare"
    "ParseDecimal raw = Ok d"
  shows "EvalLeaf ext e (SNumber raw) = numeric_answer p d (e_numeric e)"
  using assms ExpandLeaf_head [OF assms(1)]
  by (auto simp: EvalLeaf_def Exists_def evalCompare_def numeric_answer_def)

lemma numeric_answer_ok:
  assumes "ParseDecimal operand = Ok v" "decimal_ok v" "decimal_ok d"
    and "leafKindOf p = Some kindCompare" "t \<in> set declared" "AdmitsNumeric t d"
  shows "numeric_answer p d (ExpandNumericOperand (StripTrailingZeros v) (filter IsNumeric declared) p)
    = rel_op p (dval d) (dval v)"
proof -
  have "scale_ok v" using assms(2) by (simp add: decimal_ok_def)
  then show ?thesis
    using numeric_answer_admitted [OF assms(3) decimal_ok_strip [OF assms(2)] stripped_StripTrailingZeros
        assms(4), of "filter IsNumeric declared" t] assms(5,6) AdmitsNumeric_IsNumeric [of t d]
    by (simp add: dval_StripTrailingZeros)
qed

text \<open>Equality and inequality always give opposite numeric answers: whether or not a declared
  type admits the stored value.\<close>

lemma numeric_answer_opposite:
  assumes "ParseDecimal operand = Ok v" "decimal_ok v" "decimal_ok d"
  shows "numeric_answer FilterNe d
      (ExpandNumericOperand (StripTrailingZeros v) (filter IsNumeric declared) FilterNe)
    = (\<not> numeric_answer FilterEq d
      (ExpandNumericOperand (StripTrailingZeros v) (filter IsNumeric declared) FilterEq))"
proof (cases "\<exists>t \<in> set declared. AdmitsNumeric t d")
  case True
  then show ?thesis using numeric_answer_ok [OF assms] by auto
next
  case False
  then show ?thesis
    using numeric_answer_not_admitted [of "filter IsNumeric declared" d]
    by (simp add: isNegativeOp_def)
qed

lemma ExpandLeaf_between:
  assumes "p = FilterBetween \<or> p = FilterBetweenInclusive"
    and "ParseDecimal lo = Ok l" "ParseDecimal hi = Ok h" and "\<exists>t \<in> set declared. IsNumeric t"
  shows "\<exists>e. ExpandLeaf ext p operand [lo, hi] declared = Ok e \<and> e_kind e = kindBetween \<and> e_op e = p
    \<and> e_numOK e \<and> e_numLo e = l \<and> e_numHi e = h \<and> e_numTypes e = filter IsNumeric declared"
proof -
  have ne: "filter IsNumeric declared \<noteq> []" using assms(4) by (auto simp: filter_empty_conv)
  have k: "leafKindOf p = Some kindBetween" using assms(1) by auto
  show ?thesis
    using ne assms(2,3) by (simp add: ExpandLeaf_def k expandBetween_def bucketDeclared_def Let_def)
qed

lemma Cmp_value:
  "decimal_ok a \<Longrightarrow> decimal_ok b \<Longrightarrow> Cmp a b = cmp3 (dval a) (dval b)"
  by (simp add: Cmp_def Cmp_run_spec)

subsection \<open>Text operators\<close>

text \<open>What the case-sensitive text operators promise.\<close>

fun text_rel :: "filter_op \<Rightarrow> string \<Rightarrow> string \<Rightarrow> bool" where
  "text_rel FilterContains s p = (\<exists>a b. s = a @ p @ b)"
| "text_rel FilterStartsWith s p = (\<exists>b. s = p @ b)"
| "text_rel FilterEndsWith s p = (\<exists>a. s = a @ p)"
| "text_rel FilterNotContains s p = (\<not> (\<exists>a b. s = a @ p @ b))"
| "text_rel FilterNotStartsWith s p = (\<not> (\<exists>b. s = p @ b))"
| "text_rel FilterNotEndsWith s p = (\<not> (\<exists>a. s = a @ p))"
| "text_rel _ s p = False"

lemma EvalLeaf_string:
  assumes "ExpandLeaf ext p operand vals declared = Ok e" "leafKindOf p = Some kindStringOp"
  shows "EvalLeaf ext e (SString s) = evalStringOp ext e s" "e_strOperand e = operand" "e_op e = p"
    "e_strMatch e = (case compileLeafPattern ext p (GString operand) of Inl err \<Rightarrow> None | Inr m \<Rightarrow> m)"
proof -
  have h: "e_kind e = kindStringOp" "e_op e = p" using ExpandLeaf_head [OF assms(1)] assms(2) by auto
  show "EvalLeaf ext e (SString s) = evalStringOp ext e s" using h by (simp add: EvalLeaf_def Exists_def)
  show "e_op e = p" by (rule h)
  show "e_strOperand e = operand"
    "e_strMatch e = (case compileLeafPattern ext p (GString operand) of Inl err \<Rightarrow> None | Inr m \<Rightarrow> m)"
    using assms by (auto simp: ExpandLeaf_def Let_def split: sum.splits)
qed

subsection \<open>Instants and periods\<close>

lemma evalTemporal_fst:
  "fst (evalTemporal src cs had) \<longleftrightarrow>
     (\<exists>c \<in> set cs. tc_type c = tv_type src \<and> CompareTemporal (tc_op c) (Millis src) True (tc_millis c) True)"
  by (induction cs arbitrary: had) auto

lemma convertTemporal_type: "convertTemporal src dst v p = Some c \<Longrightarrow> tc_type c = dst"
  by (auto simp: convertTemporal_def split: option.splits)

lemma set_ExpandTemporalOperand:
  "parseNatural operand = Some v \<Longrightarrow>
   c \<in> set (ExpandTemporalOperand operand ts p) \<longleftrightarrow>
    (\<exists>t \<in> set ts. isTemporalSubtype t \<and>
      (if t = tv_type v then c = \<lparr>tc_type = t, tc_millis = Millis v, tc_op = p\<rparr>
       else convertTemporal (tv_type v) t v p = Some c))"
  by (force simp: ExpandTemporalOperand_def split: if_splits option.splits)

lemma ExpandTemporalOperand_type:
  assumes "parseNatural operand = Some v"
  shows "c \<in> set (ExpandTemporalOperand operand ts p) \<and> tc_type c = dst \<longleftrightarrow>
    dst \<in> set ts \<and> isTemporalSubtype dst \<and>
    (if dst = tv_type v then c = \<lparr>tc_type = dst, tc_millis = Millis v, tc_op = p\<rparr>
     else convertTemporal (tv_type v) dst v p = Some c)"
  unfolding set_ExpandTemporalOperand [OF assms]
  by (auto simp: convertTemporal_type split: if_splits dest: convertTemporal_type)

lemma EvalLeaf_instant:
  assumes "ExpandLeaf ext p operand vals declared = Ok e" "leafKindOf p = Some kindCompare"
    and "p \<noteq> FilterNe" "parseNatural operand = Some v" "parseNatural stored = Some w"
    and "\<forall>t \<in> set declared. IsNumeric t \<or> isTemporalSubtype t" "tv_type w \<in> set declared"
  shows "EvalLeaf ext e (SString stored) \<longleftrightarrow>
    (\<exists>c \<in> set (ExpandTemporalOperand operand
        (filter (\<lambda>t. \<not> IsNumeric t \<and> isTemporalSubtype t) declared) p).
      tc_type c = tv_type w \<and> rel_op (tc_op c) (Millis w) (tc_millis c))"
proof -
  let ?ts = "filter (\<lambda>t. \<not> IsNumeric t \<and> isTemporalSubtype t) declared"
  have w: "isTemporalSubtype (tv_type w)" using parseNatural_wf [OF assms(5)] by blast
  then have nn: "\<not> IsNumeric (tv_type w)" by (auto simp: IsNumeric_def isTemporalSubtype_def)
  have ne: "?ts \<noteq> []" using w nn assms(7) by (auto simp: filter_empty_conv)
  have oth: "filter (\<lambda>t. \<not> IsNumeric t \<and> \<not> isTemporalSubtype t) declared = []"
    using assms(6) by (auto simp: filter_empty_conv)
  have e: "e_temporal e = ExpandTemporalOperand operand ?ts p" "e_others e = []"
    "e_op e = p" "e_kind e = kindCompare"
    using assms(1,2,4) ne oth
    by (auto simp: ExpandLeaf_def expandCompare_def bucketDeclared_def Let_def split: if_splits)
  have neg: "\<not> isNegativeOp p" using assms(2,3) by (auto simp: leafKindOf_compare_cases isNegativeOp_def)
  show ?thesis
    using evalTemporal_fst [of w "e_temporal e" False] neg
    by (auto simp: EvalLeaf_def Exists_def e evalCompare_def assms(5) Let_def CompareTemporal_rel
        split: prod.split)
qed

lemma EvalLeaf_instant_convert:
  assumes "ExpandLeaf ext p operand vals declared = Ok e" "leafKindOf p = Some kindCompare"
    and "p \<noteq> FilterNe" "parseNatural operand = Some v" "parseNatural stored = Some w"
    and "\<forall>t \<in> set declared. IsNumeric t \<or> isTemporalSubtype t" "tv_type w \<in> set declared"
  shows "EvalLeaf ext e (SString stored) =
    (if tv_type w = tv_type v then rel_op p (Millis w) (Millis v)
     else temporal_branch_match (convertTemporal (tv_type v) (tv_type w) v p) (Millis w))"
proof -
  let ?ts = "filter (\<lambda>t. \<not> IsNumeric t \<and> isTemporalSubtype t) declared"
  have t: "isTemporalSubtype (tv_type w)" "\<not> IsNumeric (tv_type w)"
    using parseNatural_wf [OF assms(5)] by (auto simp: IsNumeric_def isTemporalSubtype_def)
  have "EvalLeaf ext e (SString stored) \<longleftrightarrow>
    (\<exists>c. (c \<in> set (ExpandTemporalOperand operand ?ts p) \<and> tc_type c = tv_type w)
      \<and> rel_op (tc_op c) (Millis w) (tc_millis c))"
    using EvalLeaf_instant [OF assms] by blast
  then show ?thesis
    unfolding ExpandTemporalOperand_type [OF assms(4)]
    using t assms(7)
    by (auto simp: temporal_branch_match_def CompareTemporal_rel split: option.splits)
qed

lemma period_millis_exact:
  assumes "tv_wf v" "tv_type v \<in> {Year, YearMonth, LocalDate}"
  shows "1000000 * Millis v = wall_nanos (tv_wall v)"
proof -
  have "tod_nanos (tv_wall v) = 0 \<and> \<not> tv_zoned v"
    using assms by (auto simp: tv_wf_def floorY_def floorM_def floorD_def tod_nanos_def dest: arg_cong [of _ _ tod_nanos])
  then show ?thesis by (simp add: Millis_def wall_millis_def wall_nanos_def)
qed

lemma rel_op_scale: "(0::int) < k \<Longrightarrow> rel_op p (k * a) (k * b) = rel_op p a b"
  by (cases p) auto

lemma compareLeaf_defined:
  assumes "leafKindOf p = Some kindCompare"
    and "(\<exists>t \<in> set declared. IsNumeric t) \<and> (\<exists>v. ParseDecimal operand = Ok v)
      \<or> (\<exists>t \<in> set declared. isTemporalSubtype t) \<and> parseNatural operand \<noteq> None"
  shows "\<exists>e. ExpandLeaf ext p operand vals declared = Ok e"
proof -
  have "\<not> IsNumeric t \<and> isTemporalSubtype t" if "isTemporalSubtype t" for t
    using that by (auto simp: IsNumeric_def isTemporalSubtype_def)
  with assms(2) have "filter IsNumeric declared \<noteq> [] \<and> (\<exists>v. ParseDecimal operand = Ok v)
      \<or> filter (\<lambda>t. \<not> IsNumeric t \<and> isTemporalSubtype t) declared \<noteq> [] \<and> parseNatural operand \<noteq> None"
    by (auto simp: filter_empty_conv)
  then show ?thesis
    using assms(1) by (auto simp: ExpandLeaf_def expandCompare_def bucketDeclared_def Let_def)
qed

lemma number_leaf_answer:
  assumes "leafKindOf p = Some kindCompare" and "ParseDecimal operand = Ok v" and "decimal_ok v"
    and "ParseDecimal raw = Ok d" and "decimal_ok d" and "t \<in> set declared" and "AdmitsNumeric t d"
  shows "\<exists>e. ExpandLeaf ext p operand vals declared = Ok e
    \<and> EvalLeaf ext e (SNumber raw) = rel_op p (dval d) (dval v)"
proof -
  have n: "\<exists>t \<in> set declared. IsNumeric t" using assms(6,7) AdmitsNumeric_IsNumeric by blast
  show ?thesis
    using EvalLeaf_number [OF assms(1,2,4) n, of ext vals]
      numeric_answer_ok [OF assms(2,3,5,1,6,7)] by simp
qed

subsection \<open>Properties\<close>

text \<open>C6: a comparison with a numeric operand decides the mathematical relation between the stored
  number and the operand, for every stored number some declared type admits: whatever the declared
  types are, however both numbers are written, and on whichever side of a type's range the operand
  lies.\<close>

theorem leaf_number_exact:
  assumes "leafKindOf p = Some kindCompare" and "ParseDecimal operand = Ok v" and "decimal_ok v"
    and "ParseDecimal raw = Ok d" and "decimal_ok d" and "t \<in> set declared" and "AdmitsNumeric t d"
  shows "\<exists>e. ExpandLeaf ext p operand vals declared = Ok e
    \<and> EvalLeaf ext e (SNumber raw) = rel_op p (dval d) (dval v)"
  using assms by (rule number_leaf_answer)

definition no_ext :: "unit ext" where
  "no_ext = \<lparr>x_uuid_parse = (\<lambda>s. None), x_uuid_version = (\<lambda>u. 0), x_to_lower = (\<lambda>s. s),
     x_equal_fold = (\<lambda>s t. s = t), x_re_parse = (\<lambda>s. None), x_re_compile = (\<lambda>s. None)\<rparr>"

theorem leaf_number_exact_witness:
  "\<exists>e. ExpandLeaf no_ext FilterGte ''0.75e1'' [] [Boolean, Integer] = Ok e
    \<and> EvalLeaf no_ext e (SNumber ''8'') \<and> ParseDecimal ''0.75e1'' = Ok (mk_decimal 75 1)"
proof -
  have v: "ParseDecimal ''0.75e1'' = Ok (mk_decimal 75 1)" and d: "ParseDecimal ''8'' = Ok (mk_decimal 8 0)"
    by code_simp+
  have ok: "decimal_ok (mk_decimal 75 1)" "decimal_ok (mk_decimal 8 0)"
    by (simp_all add: decimal_ok_small in_i32_iff)
  have a: "AdmitsNumeric Integer (mk_decimal 8 0)" by code_simp
  have "rel_op FilterGte (dval (mk_decimal 8 0)) (dval (mk_decimal 75 1))"
    by (simp add: dval_def)
  then show ?thesis
    using leaf_number_exact [OF _ v ok(1) d ok(2) _ a, of FilterGte "[Boolean, Integer]" no_ext "[]"] v by simp
qed

text \<open>C29: over a stored JSON null or an absent field, every leaf except IS_NULL is false, the negative
  operators included, and IS_NULL is true.\<close>

theorem leaf_no_value:
  assumes "ExpandLeaf ext p operand vals declared = Ok e" and "st = SNull \<or> st = SAbsent"
  shows "EvalLeaf ext e st = (p = FilterIsNull)"
  using ExpandLeaf_head [OF assms(1)] assms(2) EvalLeaf_no_value [of p e st ext] by blast

theorem leaf_no_value_witness:
  "\<exists>e. ExpandLeaf no_ext FilterNe ''x'' [] [String] = Ok e \<and> \<not> EvalLeaf no_ext e SNull"
proof -
  obtain e where e: "ExpandLeaf no_ext FilterNe ''x'' [] [String] = Ok e"
    by (simp add: ExpandLeaf_def expandCompare_def bucketDeclared_def Let_def IsNumeric_def
        isTemporalSubtype_def ParseStringOrNull_def)
  with leaf_no_value [OF e, of SNull] show ?thesis by simp
qed

text \<open>on a readable stored number NOT_EQUAL is the negation of EQUALS, also when the operand is
  not a number or no declared type admits the stored value.\<close>

theorem leaf_ne_complement:
  assumes "ExpandLeaf ext FilterEq operand vals declared = Ok e"
    and "ExpandLeaf ext FilterNe operand vals declared = Ok e'"
    and "ParseDecimal raw = Ok d" and "decimal_ok d"
    and "\<forall>v. ParseDecimal operand = Ok v \<longrightarrow> decimal_ok v"
  shows "EvalLeaf ext e' (SNumber raw) = (\<not> EvalLeaf ext e (SNumber raw))"
proof -
  have x: "expandCompare ext FilterEq operand declared = Ok e"
    "expandCompare ext FilterNe operand declared = Ok e'"
    using assms(1,2) by (simp_all add: ExpandLeaf_def)
  have "numeric_answer FilterNe d (e_numeric e') = (\<not> numeric_answer FilterEq d (e_numeric e))"
  proof (cases "ParseDecimal operand")
    case (Inl err)
    then show ?thesis using x by (simp add: expandCompare_numeric numeric_answer_def isNegativeOp_def)
  next
    case (Inr v)
    then show ?thesis using numeric_answer_opposite [of operand v d declared] x assms(4,5)
      by (simp add: expandCompare_numeric)
  qed
  then show ?thesis
    using EvalLeaf_compare_number [OF assms(1) _ assms(3)] EvalLeaf_compare_number [OF assms(2) _ assms(3)]
    by simp
qed

theorem leaf_ne_complement_witness:
  "\<exists>e e'. ExpandLeaf no_ext FilterEq ''7'' [] [Integer] = Ok e
    \<and> ExpandLeaf no_ext FilterNe ''7'' [] [Integer] = Ok e'
    \<and> EvalLeaf no_ext e' (SNumber ''7.5'') = (\<not> EvalLeaf no_ext e (SNumber ''7.5''))"
proof -
  have v: "ParseDecimal ''7'' = Ok (mk_decimal 7 0)" and d: "ParseDecimal ''7.5'' = Ok (mk_decimal 75 1)"
    by code_simp+
  have ok: "decimal_ok (mk_decimal 75 1)" "decimal_ok (mk_decimal 7 0)"
    by (simp_all add: decimal_ok_small in_i32_iff)
  have n: "(\<exists>t \<in> set [Integer]. IsNumeric t) \<and> (\<exists>v. ParseDecimal ''7'' = Ok v)"
    using v by (simp add: IsNumeric_def)
  obtain e e' where "ExpandLeaf no_ext FilterEq ''7'' [] [Integer] = Ok e"
    "ExpandLeaf no_ext FilterNe ''7'' [] [Integer] = Ok e'"
    using compareLeaf_defined [of FilterEq, OF _ disjI1 [OF n], of no_ext "[]"]
      compareLeaf_defined [of FilterNe, OF _ disjI1 [OF n], of no_ext "[]"] by auto
  with leaf_ne_complement [OF this d ok(1)] v ok(2) show ?thesis by simp
qed

text \<open>a comparison or range leaf never holds for a stored number whose text is no number, the
  negative operators included.\<close>

theorem leaf_unreadable_number:
  assumes "ExpandLeaf ext p operand vals declared = Ok e"
    and "leafKindOf p = Some kindCompare \<or> leafKindOf p = Some kindBetween"
    and "ParseDecimal raw = Err err"
  shows "\<not> EvalLeaf ext e (SNumber raw)"
  using ExpandLeaf_head [OF assms(1)] assms(2,3)
  by (auto simp: EvalLeaf_def Exists_def evalCompare_def evalBetween_def split: if_splits)

theorem leaf_unreadable_number_witness:
  "\<exists>e. ExpandLeaf no_ext FilterNe ''7'' [] [Integer] = Ok e \<and> \<not> EvalLeaf no_ext e (SNumber ''1e99999999999'')"
proof -
  have v: "ParseDecimal ''7'' = Ok (mk_decimal 7 0)" by code_simp
  have d: "\<exists>err. ParseDecimal ''1e99999999999'' = Err err"
  proof -
    have "(case ParseDecimal ''1e99999999999'' of Inl e \<Rightarrow> True | Inr d \<Rightarrow> False)" by code_simp
    then show ?thesis by (auto split: sum.splits)
  qed
  have n: "(\<exists>t \<in> set [Integer]. IsNumeric t) \<and> (\<exists>v. ParseDecimal ''7'' = Ok v)"
    using v by (simp add: IsNumeric_def)
  obtain e where "ExpandLeaf no_ext FilterNe ''7'' [] [Integer] = Ok e"
    using compareLeaf_defined [of FilterNe, OF _ disjI1 [OF n], of no_ext "[]"] by auto
  with leaf_unreadable_number [OF this] d show ?thesis by auto
qed





text \<open>the case-sensitive text operators hold for exactly the stored strings that contain, begin
  with or end with the operand, and their negations for exactly the others.\<close>

theorem leaf_text_exact:
  assumes "ExpandLeaf ext p operand vals declared = Ok e"
    and "p \<in> {FilterContains, FilterStartsWith, FilterEndsWith,
      FilterNotContains, FilterNotStartsWith, FilterNotEndsWith}"
  shows "EvalLeaf ext e (SString s) = text_rel p s operand"
proof -
  have "leafKindOf p = Some kindStringOp" using assms(2) by auto
  note e = EvalLeaf_string [OF assms(1) this]
  show ?thesis using assms(2)
    by (auto simp: e evalStringOp_def Let_def contains_iff has_prefix_iff has_suffix_iff)
qed

theorem leaf_text_exact_witness:
  "\<exists>e. ExpandLeaf no_ext FilterContains ''ell'' [] [] = Ok e
    \<and> EvalLeaf no_ext e (SString ''hello'') = text_rel FilterContains ''hello'' ''ell''"
proof -
  obtain e where e: "ExpandLeaf no_ext FilterContains ''ell'' [] [] = Ok e"
    by (simp add: ExpandLeaf_def compileLeafPattern_def)
  with leaf_text_exact [OF e] show ?thesis by simp
qed

text \<open>a LIKE leaf with a valid UTF-8 operand that parses holds for exactly the stored strings in
  the language of its tokens; a LIKE leaf whose operand does not parse holds for none.\<close>

theorem leaf_like_exact:
  assumes "ExpandLeaf ext FilterLike operand vals declared = Ok e" and "valid_utf8 operand"
  shows "EvalLeaf ext e (SString s) \<longleftrightarrow>
    (\<exists>toks. parseLikePattern operand = Ok toks \<and> like_spec toks s)"
proof -
  have k: "leafKindOf FilterLike = Some kindStringOp" by simp
  note e = EvalLeaf_string [OF assms(1) k]
  show ?thesis
  proof (cases "parseLikePattern operand")
    case (Inl err)
    then show ?thesis by (cases err) (simp add: e evalStringOp_def Let_def compileLeafPattern_def)
  next
    case (Inr toks)
    then show ?thesis using like_scan_exact [OF assms(2) Inr]
      by (simp add: e evalStringOp_def Let_def compileLeafPattern_def)
  qed
qed

theorem leaf_like_exact_witness:
  "\<exists>e. ExpandLeaf no_ext FilterLike ''a%'' [] [] = Ok e \<and> EvalLeaf no_ext e (SString ''abc'')"
proof -
  obtain e where e: "ExpandLeaf no_ext FilterLike ''a%'' [] [] = Ok e"
    by (cases "compileLeafPattern no_ext FilterLike (GString ''a%'')") (simp_all add: ExpandLeaf_def Let_def)
  have v: "valid_utf8 ''a%''" by code_simp
  have p: "parseLikePattern ''a%'' = Ok [tokLit ''a'', tokAny]" by code_simp
  have "like_matches [tokLit ''a'', tokAny] ''abc'' = Some True" by code_simp
  then have "like_spec [tokLit ''a'', tokAny] ''abc''" using like_scan_exact [OF v p] by simp
  with leaf_like_exact [OF e v] p e show ?thesis by auto
qed

text \<open>a comparison leaf is refused exactly when its operand reads as none of the declared types:
  not as a number for a numeric type, not as a date or time for a temporal one, and not as a value of
  any other declared type.\<close>

theorem leaf_compare_refused:
  assumes "leafKindOf p = Some kindCompare"
  shows "ExpandLeaf ext p operand vals declared = Err (NoDeclaredType (truncateOperand operand)) \<longleftrightarrow>
    (\<forall>t \<in> set declared.
       (if IsNumeric t then \<forall>v. ParseDecimal operand \<noteq> Ok v
        else if isTemporalSubtype t then parseNatural operand = None
        else ParseStringOrNull (x_uuid_parse ext) (x_uuid_version ext) operand t = None))"
proof -
  have o: "parse_others ext operand ts = [] \<longleftrightarrow>
      (\<forall>t \<in> set ts. ParseStringOrNull (x_uuid_parse ext) (x_uuid_version ext) operand t = None)" for ts
    by (induction ts) (auto split: option.splits)
  have "ExpandLeaf ext p operand vals declared = Err (NoDeclaredType (truncateOperand operand)) \<longleftrightarrow>
      (filter IsNumeric declared \<noteq> [] \<longrightarrow> (\<forall>v. ParseDecimal operand \<noteq> Ok v))
      \<and> (filter (\<lambda>t. \<not> IsNumeric t \<and> isTemporalSubtype t) declared \<noteq> [] \<longrightarrow> parseNatural operand = None)
      \<and> parse_others ext operand (filter (\<lambda>t. \<not> IsNumeric t \<and> \<not> isTemporalSubtype t) declared) = []"
    using assms
    by (auto simp: ExpandLeaf_def expandCompare_def bucketDeclared_def Let_def
        split: sum.splits option.splits)
  also have "\<dots> \<longleftrightarrow> (\<forall>t \<in> set declared.
       (if IsNumeric t then \<forall>v. ParseDecimal operand \<noteq> Ok v
        else if isTemporalSubtype t then parseNatural operand = None
        else ParseStringOrNull (x_uuid_parse ext) (x_uuid_version ext) operand t = None))"
    unfolding o by (auto simp: filter_empty_conv split: if_splits)
  finally show ?thesis .
qed

theorem leaf_compare_refused_witness:
  "\<exists>err. ExpandLeaf no_ext FilterGt ''x'' [] [Integer, Boolean] = Err err"
proof -
  have p: "\<forall>v. ParseDecimal ''x'' \<noteq> Ok v"
  proof -
    have "(case ParseDecimal ''x'' of Inl e \<Rightarrow> True | Inr d \<Rightarrow> False)" by code_simp
    then show ?thesis by (auto split: sum.splits)
  qed
  have b: "ParseStringOrNull (x_uuid_parse no_ext) (x_uuid_version no_ext) ''x'' Boolean = None"
    by (simp add: ParseStringOrNull_def parseBoolean_def)
  have "ExpandLeaf no_ext FilterGt ''x'' [] [Integer, Boolean] =
      Err (NoDeclaredType (truncateOperand ''x''))"
    using leaf_compare_refused [of FilterGt no_ext "''x''" "[]" "[Integer, Boolean]"] p b
    by (simp add: IsNumeric_def isTemporalSubtype_def)
  then show ?thesis by blast
qed

end
