(* ===== verification/Resolve.thy ===== *)
theory Resolve
  imports Filter_Path Eval_Leaf
begin

text \<open>
  Resolving a parsed path against a JSON document (\<open>filter_path_resolve.go\<close>). The JSON library is an
  interface: the operations \<open>ResolvePath\<close> calls on a \<open>gjson.Result\<close> are the fields of \<open>gj\<close>, and what
  the code relies on is the locale \<open>json_doc\<close>, interpreted on JSON trees. Results: the breadth-first
  loops compute the depth-first meaning of a path; a wildcard addresses exactly the positions of the
  array; a path without wildcards addresses exactly one value.
\<close>

subsection \<open>The JSON library\<close>

text \<open>
  \<open>gj_parse\<close> is \<open>ParseBytes\<close>, \<open>gj_get r k\<close> is \<open>r.Get(k)\<close> for a single key, \<open>gj_each\<close> the elements \<open>ForEach\<close>
  visits, \<open>gj_array\<close> is \<open>Array\<close>, \<open>gj_absent\<close> the zero \<open>Result\<close>; \<open>gj_stored\<close> is what the leaf kernel reads
  off a result.
\<close>

record ('d, 'r) gj =
  gj_parse :: "'d \<Rightarrow> 'r"
  gj_is_object :: "'r \<Rightarrow> bool"
  gj_is_array :: "'r \<Rightarrow> bool"
  gj_get :: "'r \<Rightarrow> string \<Rightarrow> 'r"
  gj_each :: "'r \<Rightarrow> 'r list"
  gj_array :: "'r \<Rightarrow> 'r list"
  gj_absent :: 'r
  gj_stored :: "'r \<Rightarrow> stored"

subsection \<open>The loops\<close>

definition fieldResult :: "('d, 'r) gj \<Rightarrow> 'r \<Rightarrow> string \<Rightarrow> 'r" where
  "fieldResult g r name = (if \<not> gj_is_object g r then gj_absent g else gj_get g r name)"

definition indexResult :: "('d, 'r) gj \<Rightarrow> 'r \<Rightarrow> nat \<Rightarrow> 'r" where
  "indexResult g r idx =
     (if \<not> gj_is_array g r then gj_absent g
      else (let arr = gj_array g r in
            if idx \<ge> length arr then gj_absent g else arr ! idx))"

text \<open>One subscript applied to every current result.\<close>

definition resolve_sub :: "('d, 'r) gj \<Rightarrow> path_sub \<Rightarrow> 'r list \<Rightarrow> 'r list" where
  "resolve_sub g sub results =
     (case sub of
        Wildcard \<Rightarrow> concat (map (\<lambda>r. if \<not> gj_is_array g r then [] else gj_each g r) results)
      | Index n \<Rightarrow> map (\<lambda>r. indexResult g r n) results)"

fun resolve_hops :: "('d, 'r) gj \<Rightarrow> path_hop list \<Rightarrow> 'r list \<Rightarrow> 'r list" where
  "resolve_hops g [] results = results"
| "resolve_hops g (hop # hops) results =
     resolve_hops g hops
       (fold (resolve_sub g) (Subs hop) (map (\<lambda>r. fieldResult g r (Name hop)) results))"

definition ResolvePath :: "('d, 'r) gj \<Rightarrow> 'd \<Rightarrow> path_hop list \<Rightarrow> 'r list" where
  "ResolvePath g data hops = resolve_hops g hops [gj_parse g data]"

subsection \<open>The meaning of a path\<close>

text \<open>What a path addresses below one result, hop by hop and subscript by subscript.\<close>

definition member_at :: "('d, 'r) gj \<Rightarrow> 'r \<Rightarrow> string \<Rightarrow> 'r" where
  "member_at g r name = (if gj_is_object g r then gj_get g r name else gj_absent g)"

definition element_at :: "('d, 'r) gj \<Rightarrow> 'r \<Rightarrow> nat \<Rightarrow> 'r" where
  "element_at g r n = (if gj_is_array g r \<and> n < length (gj_array g r) then gj_array g r ! n else gj_absent g)"

fun sub_values :: "('d, 'r) gj \<Rightarrow> path_sub \<Rightarrow> 'r \<Rightarrow> 'r list" where
  "sub_values g Wildcard r = (if gj_is_array g r then gj_each g r else [])"
| "sub_values g (Index n) r = [element_at g r n]"

fun subs_values :: "('d, 'r) gj \<Rightarrow> path_sub list \<Rightarrow> 'r \<Rightarrow> 'r list" where
  "subs_values g [] r = [r]"
| "subs_values g (s # ss) r = concat (map (subs_values g ss) (sub_values g s r))"

fun addressed :: "('d, 'r) gj \<Rightarrow> path_hop list \<Rightarrow> 'r \<Rightarrow> 'r list" where
  "addressed g [] r = [r]"
| "addressed g (h # hs) r =
     concat (map (addressed g hs) (subs_values g (Subs h) (member_at g r (Name h))))"

lemma fieldResult_member: "fieldResult g r name = member_at g r name"
  by (simp add: fieldResult_def member_at_def)

lemma indexResult_element: "indexResult g r n = element_at g r n"
  by (simp add: indexResult_def element_at_def Let_def)

lemma resolve_sub_concat: "resolve_sub g s rs = concat (map (sub_values g s) rs)"
  by (cases s; induction rs) (auto simp: resolve_sub_def indexResult_element)

lemma concat_map_concat: "concat (map f (concat (map g xs))) = concat (map (\<lambda>x. concat (map f (g x))) xs)"
  by (induction xs) auto

lemma fold_subs: "fold (resolve_sub g) ss rs = concat (map (subs_values g ss) rs)"
proof (induction ss arbitrary: rs)
  case Nil
  then show ?case by (induction rs) auto
next
  case (Cons s ss)
  then show ?case by (simp add: resolve_sub_concat concat_map_concat)
qed

lemma resolve_hops_addressed: "resolve_hops g hops rs = concat (map (addressed g hops) rs)"
proof (induction hops arbitrary: rs)
  case Nil
  then show ?case by (induction rs) auto
next
  case (Cons h hs)
  show ?case by (simp add: Cons fold_subs concat_map_concat comp_def fieldResult_member)
qed

lemma ResolvePath_addressed: "ResolvePath g data hops = addressed g hops (gj_parse g data)"
  by (simp add: ResolvePath_def resolve_hops_addressed)

lemma addressed_append:
  "addressed g (hs @ ks) r = concat (map (addressed g ks) (addressed g hs r))"
  by (induction hs arbitrary: r) (simp_all add: concat_map_concat cong: map_cong)

lemma subs_values_append:
  "subs_values g (ss @ ts) r = concat (map (subs_values g ts) (subs_values g ss r))"
  by (induction ss arbitrary: r) (simp_all add: concat_map_concat cong: map_cong)

text \<open>Without a wildcard a path addresses exactly one value.\<close>

definition no_wildcard :: "path_hop list \<Rightarrow> bool" where
  "no_wildcard hops \<longleftrightarrow> (\<forall>h \<in> set hops. Wildcard \<notin> set (Subs h))"

lemma subs_values_single: "Wildcard \<notin> set ss \<Longrightarrow> \<exists>v. subs_values g ss r = [v]"
proof (induction ss arbitrary: r)
  case (Cons s ss)
  then obtain n where "s = Index n" by (cases s) auto
  then show ?case using Cons by simp
qed simp

lemma addressed_single: "no_wildcard hops \<Longrightarrow> \<exists>v. addressed g hops r = [v]"
proof (induction hops arbitrary: r)
  case (Cons h hs)
  then obtain v where "subs_values g (Subs h) (member_at g r (Name h)) = [v]"
    using subs_values_single [of "Subs h" g] by (fastforce simp: no_wildcard_def)
  moreover have "\<exists>w. addressed g hs v = [w]" using Cons by (simp add: no_wildcard_def)
  ultimately show ?case by simp
qed simp

subsection \<open>The interface\<close>

definition positions :: "('d, 'r) gj \<Rightarrow> 'r \<Rightarrow> nat" where
  "positions g r = (if gj_is_array g r then length (gj_array g r) else 0)"

text \<open>
  What the code relies on: both ways to enumerate an array agree, a result is not both an array and an
  object, and the zero result is neither and does not exist.
\<close>

locale json_doc =
  fixes g :: "('d, 'r) gj"
  assumes each_array: "gj_is_array g r \<Longrightarrow> gj_each g r = gj_array g r"
    and array_no_object: "gj_is_array g r \<Longrightarrow> \<not> gj_is_object g r"
    and absent_array: "\<not> gj_is_array g (gj_absent g)"
    and absent_object: "\<not> gj_is_object g (gj_absent g)"
    and absent_stored: "gj_stored g (gj_absent g) = SAbsent"
begin

lemma wildcard_positions:
  "sub_values g Wildcard r = map (element_at g r) [0..<positions g r]"
proof (cases "gj_is_array g r")
  case True
  have "map (\<lambda>i. gj_array g r ! i) [0..<length (gj_array g r)] = gj_array g r" by (rule map_nth)
  moreover have "map (element_at g r) [0..<length (gj_array g r)]
      = map (\<lambda>i. gj_array g r ! i) [0..<length (gj_array g r)]"
    using True by (auto simp: element_at_def)
  ultimately show ?thesis
    using True each_array by (simp add: positions_def)
qed (simp add: positions_def)

lemma field_of_array: "gj_is_array g r \<Longrightarrow> member_at g r name = gj_absent g"
  using array_no_object by (simp add: member_at_def)

end

subsection \<open>JSON trees provide the interface\<close>

datatype json =
    JNull | JTrue | JFalse | JNumber string | JString string
  | JArray "json list" | JObject "(string \<times> json) list"

fun tree_stored :: "json option \<Rightarrow> stored" where
  "tree_stored None = SAbsent"
| "tree_stored (Some JNull) = SNull"
| "tree_stored (Some JTrue) = STrue"
| "tree_stored (Some JFalse) = SFalse"
| "tree_stored (Some (JNumber s)) = SNumber s"
| "tree_stored (Some (JString s)) = SString s"
| "tree_stored (Some (JArray js)) = SJson ''[]''"
| "tree_stored (Some (JObject ms)) = SJson ''{}''"

fun tree_elems :: "json option \<Rightarrow> json option list" where
  "tree_elems (Some (JArray js)) = map Some js"
| "tree_elems _ = []"

fun tree_get :: "json option \<Rightarrow> string \<Rightarrow> json option" where
  "tree_get (Some (JObject ms)) k = map_of ms k"
| "tree_get _ k = None"

fun is_array :: "json option \<Rightarrow> bool" where
  "is_array (Some (JArray js)) = True"
| "is_array _ = False"

fun is_object :: "json option \<Rightarrow> bool" where
  "is_object (Some (JObject ms)) = True"
| "is_object _ = False"

definition tree_gj :: "(json, json option) gj" where
  "tree_gj = \<lparr>gj_parse = Some, gj_is_object = is_object, gj_is_array = is_array, gj_get = tree_get,
     gj_each = tree_elems, gj_array = tree_elems, gj_absent = None, gj_stored = tree_stored\<rparr>"

lemma is_array_no_object: "is_array r \<Longrightarrow> \<not> is_object r"
  by (cases r rule: is_array.cases) auto

interpretation tree: json_doc tree_gj
  by unfold_locales (simp_all add: tree_gj_def is_array_no_object)

subsection \<open>Properties\<close>

text \<open>C5: the breadth-first loops over hops and subscripts return exactly what the path addresses, hop by
  hop below the document root and in document order; a path without a wildcard addresses exactly one
  value, which may be the absent one.\<close>

theorem resolve_meaning:
  "ResolvePath g data hops = addressed g hops (gj_parse g data)
   \<and> (no_wildcard hops \<longrightarrow> length (ResolvePath g data hops) = 1)"
  using ResolvePath_addressed [of g data hops] addressed_single [of hops g "gj_parse g data"] by auto

theorem resolve_meaning_witness:
  "length (ResolvePath tree_gj (JObject [(''a'', JArray [JTrue])]) [\<lparr>Name = ''a'', Subs = [Index 3]\<rparr>]) = 1"
proof -
  have n: "no_wildcard [\<lparr>Name = ''a'', Subs = [Index 3]\<rparr>]" by (simp add: no_wildcard_def)
  show ?thesis
    using resolve_meaning [of tree_gj "JObject [(''a'', JArray [JTrue])]" "[\<lparr>Name = ''a'', Subs = [Index 3]\<rparr>]"] n
    by blast
qed

text \<open>a trailing wildcard addresses exactly the values of the positional subscripts, in order, below
  every container the rest of the path addresses; and a field name, digits included, never addresses
  into an array.\<close>

theorem resolve_wildcard:
  assumes "json_doc g"
  shows "ResolvePath g data (hops @ [\<lparr>Name = n, Subs = ss @ [Wildcard]\<rparr>]) =
      concat (map (\<lambda>r. map (element_at g r) [0..<positions g r])
        (ResolvePath g data (hops @ [\<lparr>Name = n, Subs = ss\<rparr>])))
    \<and> ResolvePath g data (hops @ [\<lparr>Name = n, Subs = ss @ [Index i]\<rparr>]) =
      map (\<lambda>r. element_at g r i) (ResolvePath g data (hops @ [\<lparr>Name = n, Subs = ss\<rparr>]))
    \<and> (gj_is_array g r \<longrightarrow> member_at g r n = gj_absent g)"
proof -
  note step = ResolvePath_addressed addressed_append subs_values_append
  have id: "concat (map (\<lambda>x. [x]) xs) = xs" for xs :: "'b list" by (induction xs) auto
  have idx: "sub_values g (Index i) = (\<lambda>r. [element_at g r i])"
    by (rule ext) simp
  have cm: "concat (map (\<lambda>r. [f r]) xs) = map f xs" for f :: "'b \<Rightarrow> 'b" and xs by (induction xs) auto
  have wild: "sub_values g Wildcard = (\<lambda>r. map (element_at g r) [0..<positions g r])"
    by (rule ext) (rule json_doc.wildcard_positions [OF assms])
  show ?thesis
  proof (intro conjI impI)
    show "ResolvePath g data (hops @ [\<lparr>Name = n, Subs = ss @ [Wildcard]\<rparr>]) =
        concat (map (\<lambda>r. map (element_at g r) [0..<positions g r])
          (ResolvePath g data (hops @ [\<lparr>Name = n, Subs = ss\<rparr>])))"
      by (simp add: step concat_map_concat id wild cong: map_cong)
    show "ResolvePath g data (hops @ [\<lparr>Name = n, Subs = ss @ [Index i]\<rparr>]) =
        map (\<lambda>r. element_at g r i) (ResolvePath g data (hops @ [\<lparr>Name = n, Subs = ss\<rparr>]))"
      by (simp add: step map_concat comp_def id idx cm cong: map_cong)
    show "gj_is_array g r \<Longrightarrow> member_at g r n = gj_absent g"
      by (rule json_doc.field_of_array [OF assms])
  qed
qed

theorem resolve_wildcard_witness:
  "ResolvePath tree_gj (JObject [(''a'', JArray [JTrue, JNull])]) [\<lparr>Name = ''a'', Subs = [Wildcard]\<rparr>]
   = [Some JTrue, Some JNull]"
proof -
  let ?d = "JObject [(''a'', JArray [JTrue, JNull])]"
  have p: "ResolvePath tree_gj ?d [\<lparr>Name = ''a'', Subs = []\<rparr>] = [Some (JArray [JTrue, JNull])]"
    by code_simp
  have q: "map (element_at tree_gj (Some (JArray [JTrue, JNull])))
      [0..<positions tree_gj (Some (JArray [JTrue, JNull]))] = [Some JTrue, Some JNull]" by code_simp
  show ?thesis
    using resolve_wildcard [OF tree.json_doc_axioms, of ?d "[]" "''a''" "[]"] p q by simp
qed

end
