(* ===== verification/Entity_Meta.thy ===== *)
theory Entity_Meta
  imports Eval_Leaf
begin

text \<open>
  Entities and their metadata (\<open>types.go\<close>, \<open>context.go\<close>), and the bridge from a metadata field to the
  leaf kernel (\<open>filter_match.go\<close>). A \<open>time.Time\<close> is a wall clock with its offset from UTC. Result: a
  metadata instant reaches the kernel as the epoch milliseconds of the instant, an unset one as an
  absent value.
\<close>

subsection \<open>Instants\<close>

record go_time =
  t_wall :: wall
  t_offset :: int

definition t_nanos :: "go_time \<Rightarrow> int" where
  "t_nanos t = wall_nanos (t_wall t) - t_offset t * 1000000000"

definition zero_time :: go_time where
  "zero_time = \<lparr>t_wall = mk_wall 1 1 1 0 0 0 0, t_offset = 0\<rparr>"

definition IsZeroTime :: "go_time \<Rightarrow> bool" where
  "IsZeroTime t \<longleftrightarrow> t_nanos t = t_nanos zero_time"

definition UnixMicro :: "go_time \<Rightarrow> int" where
  "UnixMicro t = t_nanos t div 1000"

definition timeToMicro :: "go_time \<Rightarrow> int" where
  "timeToMicro t = (if IsZeroTime t then 0 else UnixMicro t)"

text \<open>
  \<open>Time.MarshalJSON\<close>: RFC 3339 with a trimmed fraction; a year outside 0 to 9999 or an offset of a day
  or more is an error.
\<close>

definition strip_zeros :: "string \<Rightarrow> string" where
  "strip_zeros s = rev (dropWhile (\<lambda>c. c = CHR ''0'') (rev s))"

definition frac_text :: "int \<Rightarrow> string" where
  "frac_text n = (let f = strip_zeros (pad 9 (nat n)) in if f = [] then [] else CHR ''.'' # f)"

definition zone_text :: "int \<Rightarrow> string" where
  "zone_text off =
     (if off = 0 then ''Z''
      else iso_offset (off \<le> -60) (nat (\<bar>off\<bar> div 3600)) (nat (\<bar>off\<bar> div 60 mod 60)))"

definition time_json :: "go_time \<Rightarrow> string option" where
  "time_json t =
     (let w = t_wall t in
      if w_year w < 0 \<or> 9999 < w_year w \<or> \<bar>t_offset t\<bar> \<ge> 86400 then None
      else Some (iso_date (nat (w_year w)) (nat (w_month w)) (nat (w_day w)) @ CHR ''T''
        # iso_clock (nat (w_hour w)) (nat (w_min w)) (nat (w_sec w)) @ frac_text (w_nano w)
        @ zone_text (t_offset t)))"

subsection \<open>Entities\<close>

type_synonym principal_kind = string

record Principal =
  p_ID :: string
  p_Kind :: principal_kind

definition zero_principal :: Principal where "zero_principal = \<lparr>p_ID = [], p_Kind = []\<rparr>"

record ModelRef =
  EntityName :: string
  ModelVersion :: string

record EntityMeta =
  ID :: string
  TenantID :: string
  ModelRefOf :: ModelRef
  State :: string
  Version :: int
  CreationDate :: go_time
  LastModifiedDate :: go_time
  TransactionID :: string
  ChangeType :: string
  ChangeUser :: string
  ChangeUserKind :: principal_kind
  ChangeExecutor :: Principal
  TransitionForLatestSave :: string

record 'd Entity =
  Meta :: EntityMeta
  Data :: 'd

subsection \<open>Metadata values\<close>

datatype meta_value = MetaString string | MetaInt int | MetaTime go_time

definition extractFilterMetaValue :: "string \<Rightarrow> EntityMeta \<Rightarrow> meta_value option" where
  "extractFilterMetaValue path m =
     (if path = ''entity_id'' then Some (MetaString (ID m))
      else if path = ''state'' then Some (MetaString (State m))
      else if path = ''version'' then Some (MetaInt (Version m))
      else if path = ''created_at'' then Some (MetaInt (timeToMicro (CreationDate m)))
      else if path = ''updated_at'' then Some (MetaInt (timeToMicro (LastModifiedDate m)))
      else if path = ''model_name'' then Some (MetaString (EntityName (ModelRefOf m)))
      else if path = ''model_version'' then Some (MetaString (ModelVersion (ModelRefOf m)))
      else if path = ''change_type'' then Some (MetaString (ChangeType m))
      else if path = ''transaction_id'' then Some (MetaString (TransactionID m))
      else if path = ''id'' then Some (MetaString (ID m))
      else if path = ''creationDate'' then Some (MetaTime (CreationDate m))
      else if path = ''lastUpdateTime'' then Some (MetaTime (LastModifiedDate m))
      else if path = ''transitionForLatestSave'' then Some (MetaString (TransitionForLatestSave m))
      else if path = ''transactionId'' then Some (MetaString (TransactionID m))
      else None)"

definition zero_meta :: EntityMeta where
  "zero_meta = \<lparr>ID = [], TenantID = [], ModelRefOf = \<lparr>EntityName = [], ModelVersion = []\<rparr>, State = [],
     Version = 0, CreationDate = zero_time, LastModifiedDate = zero_time, TransactionID = [],
     ChangeType = [], ChangeUser = [], ChangeUserKind = [], ChangeExecutor = zero_principal,
     TransitionForLatestSave = []\<rparr>"

definition isRecognizedMetaPath :: "string \<Rightarrow> bool" where
  "isRecognizedMetaPath path \<longleftrightarrow> extractFilterMetaValue path zero_meta \<noteq> None"

text \<open>
  \<open>json.Marshal\<close> of a string replaces every byte that is not UTF-8 by the encoding of U+FFFD; the JSON
  library reads the rest back unchanged.
\<close>

function coerce_utf8 :: "string \<Rightarrow> string" where
  "coerce_utf8 s =
     (if s = [] then []
      else (if rune_ok s then take (rune_size s) s else [CHR 0xEF, CHR 0xBF, CHR 0xBD])
        @ coerce_utf8 (drop (rune_size s) s))"
  by pat_completeness auto
termination by (relation "measure length") (simp_all add: drop_rune_less)

declare coerce_utf8.simps [simp del]

definition metaGjsonResult :: "string \<Rightarrow> EntityMeta \<Rightarrow> stored" where
  "metaGjsonResult path m =
     (case extractFilterMetaValue path m of
        None \<Rightarrow> SAbsent
      | Some (MetaString s) \<Rightarrow> SString (coerce_utf8 s)
      | Some (MetaInt n) \<Rightarrow> SNumber (big_str n)
      | Some (MetaTime t) \<Rightarrow>
          if IsZeroTime t then SAbsent
          else (case time_json t of None \<Rightarrow> SAbsent | Some s \<Rightarrow> SString s))"

lemma isRecognizedMetaPath_iff:
  "isRecognizedMetaPath path \<longleftrightarrow> extractFilterMetaValue path m \<noteq> None"
  by (simp add: isRecognizedMetaPath_def extractFilterMetaValue_def)

subsection \<open>A rendered instant reads back\<close>

lemma dropWhile_zeros_rev:
  "\<exists>k. xs = strip_zeros xs @ replicate k (CHR ''0'') \<and> k + length (strip_zeros xs) = length xs"
proof -
  let ?P = "\<lambda>c. c = CHR ''0''"
  have "takeWhile ?P (rev xs) = replicate (length (takeWhile ?P (rev xs))) (CHR ''0'')"
    by (rule replicate_length_same [symmetric]) (auto dest: set_takeWhileD)
  then have "rev xs = replicate (length (takeWhile ?P (rev xs))) (CHR ''0'') @ dropWhile ?P (rev xs)"
    by (metis takeWhile_dropWhile_id)
  then have "xs = strip_zeros xs @ replicate (length (takeWhile ?P (rev xs))) (CHR ''0'')"
    unfolding strip_zeros_def by (metis rev_append rev_replicate rev_rev_ident)
  then show ?thesis by (metis add.commute length_append length_replicate)
qed

lemma dec_val_replicate0: "dec_val (replicate k (CHR ''0'')) = 0"
proof -
  have "dec_val (replicate k (CHR ''0'')) = dec_val (rev (replicate k (CHR ''0'')))" by simp
  also have "\<dots> = 0" by (induction k) (simp_all add: digit_val_def)
  finally show ?thesis .
qed

lemma pad_zero: "pad k 0 = replicate k (CHR ''0'')"
proof -
  have z: "digit_char 0 = CHR ''0''" using digit_char_zero [of 0] by simp
  show ?thesis by (induction k) (simp_all add: z replicate_append_same)
qed

lemma strip_zeros_value:
  assumes "n < 10 ^ 9"
  shows "dec_val (strip_zeros (pad 9 n)) * 10 ^ (9 - length (strip_zeros (pad 9 n))) = n"
    "length (strip_zeros (pad 9 n)) \<le> 9" "\<forall>c \<in> set (strip_zeros (pad 9 n)). is_digit c"
proof -
  obtain k where k: "pad 9 n = strip_zeros (pad 9 n) @ replicate k (CHR ''0'')"
    "k + length (strip_zeros (pad 9 n)) = 9" using dropWhile_zeros_rev [of "pad 9 n"] by auto
  have "n = dec_val (pad 9 n)" using assms by (simp add: dec_val_pad)
  also have "\<dots> = dec_val (strip_zeros (pad 9 n)) * 10 ^ k"
    by (subst k(1)) (simp add: dec_val_append dec_val_replicate0)
  finally show "dec_val (strip_zeros (pad 9 n)) * 10 ^ (9 - length (strip_zeros (pad 9 n))) = n"
    using k(2) by (metis diff_add_inverse2)
  show "length (strip_zeros (pad 9 n)) \<le> 9" using k(2) by simp
  have "set (strip_zeros (pad 9 n)) \<subseteq> set (pad 9 n)" by (subst (2) k(1)) auto
  then show "\<forall>c \<in> set (strip_zeros (pad 9 n)). is_digit c" using pad_digits [of _ 9 n] by blast
qed

text \<open>The fraction element consumes the rendered fraction and reads its nanoseconds.\<close>

lemma parse_frac_text:
  assumes "0 \<le> n" "n < 1000000000" "r \<noteq> []" "\<not> is_digit (hd r)" "hd r \<noteq> CHR ''.''" "hd r \<noteq> CHR '',''"
  shows "parse_elems (LFrac9 # ls) (frac_text n @ r) p =
    parse_elems ls r (if n = 0 then p else p\<lparr>p_wall := (p_wall p)\<lparr>w_nano := n\<rparr>\<rparr>)"
proof -
  let ?f = "strip_zeros (pad 9 (nat n))"
  have b: "nat n < 10 ^ 9" using assms(1,2) by simp
  note f = strip_zeros_value [OF b]
  show ?thesis
  proof (cases "?f = []")
    case True
    then have "n = 0" using f(1) assms(1) by simp
    moreover have "\<not> starts_frac r" using assms(5,6) by (cases r) (auto simp: starts_frac_def)
    ultimately show ?thesis using True by (simp add: frac_text_def)
  next
    case False
    then have nz: "n \<noteq> 0"
    proof (rule contrapos_nn)
      assume "n = 0"
      then show "?f = []" by (simp add: pad_zero strip_zeros_def)
    qed
    have t: "takeWhile is_digit (?f @ r) = ?f" "dropWhile is_digit (?f @ r) = r"
      using f(3) assms(3,4) by (cases r; simp add: takeWhile_append2 dropWhile_append2)+
    have "starts_frac (CHR ''.'' # ?f @ r)" using False f(3) by (cases ?f) (auto simp: starts_frac_def)
    moreover have "int (dec_val ?f) * 10 ^ (9 - length ?f) = n"
      using f(1) assms(1) by (metis int_nat_eq of_nat_mult of_nat_numeral of_nat_power)
    ultimately show ?thesis using False nz f(2) t by (simp add: frac_text_def Let_def parse_frac_def)
  qed
qed

lemma parse_clock_frac:
  assumes "h < 24" "mi < 60" "s < 60"
  shows "parse_elems (hms_elems @ LFrac9 # ls) (iso_clock h mi s @ r) p =
    parse_elems (LFrac9 # ls) r (p\<lparr>p_wall := (p_wall p)\<lparr>w_hour := int h, w_min := int mi, w_sec := int s\<rparr>\<rparr>)"
  using assms getnum_pad2 [of h False] getnum_pad2 [of mi True] getnum_pad2 [of s True]
  by (simp add: iso_clock_def hms_elems_def hm_elems_def Let_def)

text \<open>An offset of whole minutes below a day reads back.\<close>

lemma zone_text_head: "zone_text off \<noteq> [] \<and> \<not> is_digit (hd (zone_text off))
    \<and> hd (zone_text off) \<noteq> CHR ''.'' \<and> hd (zone_text off) \<noteq> CHR '',''"
  by (auto simp: zone_text_def iso_offset_def is_digit_def)

lemma parse_zone_text:
  assumes "\<bar>off\<bar> < 86400" "off mod 60 = 0"
  shows "parse_zone (zone_text off) = Some (off, [])"
proof (cases "off = 0")
  case True
  then show ?thesis by (simp add: zone_text_def parse_zone_def)
next
  case False
  obtain k where k: "off = 60 * k" using assms(2) by (metis mod_eq_0_iff_dvd dvdE)
  have b: "\<bar>k\<bar> < 1440" using assms(1) k by simp
  have q: "\<bar>off\<bar> div 3600 = \<bar>k\<bar> div 60" "\<bar>off\<bar> div 60 mod 60 = \<bar>k\<bar> mod 60"
    using k by (simp_all add: abs_mult)
  have h: "nat (\<bar>k\<bar> div 60) \<le> 24" "nat (\<bar>k\<bar> mod 60) \<le> 60" using b by auto
  have w: "(off \<le> -60) = (k < 0)" using k False by auto
  have "(if k < 0 then -1 else 1) * (\<bar>k\<bar> div 60 * 60 + \<bar>k\<bar> mod 60) * 60 = off"
  proof -
    have "\<bar>k\<bar> div 60 * 60 + \<bar>k\<bar> mod 60 = \<bar>k\<bar>" by (rule div_mult_mod_eq)
    then show ?thesis using k by auto
  qed
  moreover have "int (nat (\<bar>k\<bar> div 60)) = \<bar>k\<bar> div 60" "int (nat (\<bar>k\<bar> mod 60)) = \<bar>k\<bar> mod 60" by simp_all
  ultimately show ?thesis
    using False parse_zone_offset [OF h, of "k < 0"] by (simp only: zone_text_def q w if_False)
qed

lemma time_json_parses:
  assumes "wall_ok (t_wall t)" "t_offset t mod 60 = 0" "time_json t = Some s"
  shows "parseNatural s = Some \<lparr>tv_type = ZonedDateTime, tv_wall = t_wall t, tv_offset = t_offset t,
    tv_zoned = True\<rparr>"
proof -
  let ?w = "t_wall t"
  let ?y = "nat (w_year ?w)" and ?m = "nat (w_month ?w)" and ?d = "nat (w_day ?w)"
  let ?h = "nat (w_hour ?w)" and ?mi = "nat (w_min ?w)" and ?s = "nat (w_sec ?w)"
  from assms(3) have b: "0 \<le> w_year ?w" "w_year ?w \<le> 9999" "\<bar>t_offset t\<bar> < 86400"
    and s: "s = iso_date ?y ?m ?d @ (CHR ''T'' # (iso_clock ?h ?mi ?s @ (frac_text (w_nano ?w) @ zone_text (t_offset t))))"
    by (auto simp: time_json_def Let_def split: if_splits)
  have ok: "1 \<le> w_month ?w" "w_month ?w \<le> 12" "1 \<le> w_day ?w" "w_day ?w \<le> days_in (w_month ?w) (w_year ?w)"
    "0 \<le> w_hour ?w" "w_hour ?w < 24" "0 \<le> w_min ?w" "w_min ?w < 60" "0 \<le> w_sec ?w" "w_sec ?w < 60"
    "0 \<le> w_nano ?w" "w_nano ?w < 1000000000"
    using assms(1) by (auto simp: wall_ok_def)
  have "days_in (w_month ?w) (w_year ?w) \<le> 31" by (simp add: days_in_def)
  then have n: "?y < 10000" "1 \<le> ?m" "?m \<le> 12" "?d < 100" "?h < 24" "?mi < 60" "?s < 60"
    using ok b by auto
  have nat_int: "int ?y = w_year ?w" "int ?m = w_month ?w" "int ?d = w_day ?w"
    "int ?h = w_hour ?w" "int ?mi = w_min ?w" "int ?s = w_sec ?w" using ok b by auto
  note z = zone_text_head [of "t_offset t"]
  let ?dw = "(p_wall parsed0)\<lparr>w_year := int ?y, w_month := int ?m, w_day := int ?d\<rparr>"
  let ?cw = "?dw\<lparr>w_hour := int ?h, w_min := int ?mi, w_sec := int ?s\<rparr>"
  let ?q = "parsed0\<lparr>p_wall := ?cw\<rparr>"
  have e: "RFC3339Nano = date_elems @ (LLit CHR ''T'' # (hms_elems @ LFrac9 # [LZone]))"
    by (simp add: RFC3339Nano_def)
  have "parse_elems RFC3339Nano s parsed0 =
      parse_elems (LFrac9 # [LZone]) (frac_text (w_nano ?w) @ zone_text (t_offset t))
        (parsed0\<lparr>p_wall := ?cw\<rparr>)"
    unfolding s e parse_date_prefix [OF n(1-4)]
    by (simp add: parse_clock_frac [OF n(5-7)] del: parse_elems.simps(9) append.simps)
  also have "\<dots> = parse_elems [LZone] (zone_text (t_offset t))
      (if w_nano ?w = 0 then ?q else ?q\<lparr>p_wall := (p_wall ?q)\<lparr>w_nano := w_nano ?w\<rparr>\<rparr>)"
    by (rule parse_frac_text [OF ok(11,12)]) (use z in auto)
  also have "\<dots> = Some \<lparr>p_wall = ?w, p_zone = Some (t_offset t)\<rparr>"
  proof -
    have "?cw\<lparr>w_nano := w_nano ?w\<rparr> = ?w" "w_nano ?w = 0 \<Longrightarrow> ?cw = ?w"
      unfolding nat_int by (simp_all add: parsed0_def mk_wall_def)
    then show ?thesis
      using parse_zone_text [OF b(3) assms(2)] by (auto simp: parsed0_def)
  qed
  finally have "time_Parse RFC3339Nano s = Some \<lparr>p_wall = ?w, p_zone = Some (t_offset t)\<rparr>"
    using ok(3,4) by (simp add: time_Parse_def)
  then show ?thesis
    by (simp add: parseNatural_def naturalParseOrder_def ParseTemporalSubtype_def)
qed

subsection \<open>Properties\<close>

text \<open>a metadata instant with a whole-minute offset reaches the leaf kernel as an RFC 3339 string
  that it reads back as a zoned instant with exactly the milliseconds of the instant.\<close>

theorem meta_instant_exact:
  assumes "wall_ok (t_wall (CreationDate m))" and "t_offset (CreationDate m) mod 60 = 0"
    and "time_json (CreationDate m) = Some s" and "\<not> IsZeroTime (CreationDate m)"
  shows "metaGjsonResult ''creationDate'' m = SString s
    \<and> (\<exists>v. parseNatural s = Some v \<and> tv_type v = ZonedDateTime
        \<and> Millis v = t_nanos (CreationDate m) div 1000000)"
  using time_json_parses [OF assms(1-3)] assms(3,4)
  by (simp add: metaGjsonResult_def extractFilterMetaValue_def Millis_def t_nanos_def)

theorem meta_instant_exact_witness:
  "\<exists>v. parseNatural ''2024-03-15T10:30:00.25+01:00'' = Some v \<and> Millis v = 1710495000250"
proof -
  let ?t = "\<lparr>t_wall = mk_wall 2024 3 15 10 30 0 250000000, t_offset = 3600\<rparr>"
  let ?m = "zero_meta\<lparr>CreationDate := ?t\<rparr>"
  have j: "time_json ?t = Some ''2024-03-15T10:30:00.25+01:00''" by code_simp
  have ok: "wall_ok (t_wall ?t)" by code_simp
  have z: "\<not> IsZeroTime ?t" by code_simp
  have n: "t_nanos ?t div 1000000 = 1710495000250" by code_simp
  show ?thesis using meta_instant_exact [of ?m] j ok z n by auto
qed

end
