(* ===== verification/Prepared_Filter.thy ===== *)
theory Prepared_Filter
  imports Operand Resolve Entity_Meta
begin

text \<open>
  The search filter tree and its evaluator (\<open>filter.go\<close>, \<open>prepared_filter.go\<close>): \<open>Prepare\<close> compiles a
  filter once, \<open>Match\<close> walks the prepared tree per row. Results: where every leaf names a source, \<open>Prepare\<close> succeeds on
  exactly the well-formed filters; on those \<open>Match\<close> decides the Boolean meaning of the tree, in which NOT is the
  complement and a leaf holds when some addressed value satisfies it; the branch the code calls
  impossible is.
\<close>

subsection \<open>Filters\<close>

text \<open>\<open>FieldSource\<close> is a Go string type: any other value is \<open>SourceOther\<close>.\<close>

datatype field_source = SourceData | SourceMeta | SourceOther string

datatype filter_coercion = CoerceNone | CoerceTemporal

datatype filter =
  Filter (Op: filter_op) (Path: string) (Source: field_source) (Value: go_any)
    (Values: "go_any list") (Children: "filter list") (Coercion: filter_coercion)
    (Declared: "data_type list")

definition zero_filter :: filter where
  "zero_filter = Filter (FilterOpOther []) [] (SourceOther []) GNil [] [] CoerceNone []"

subsection \<open>Prepared filters\<close>

datatype 'u prepared_node =
    Group filter_op "'u prepared_node list"
  | Leaf filter_op field_source string "path_hop list" "'u expansion"

text \<open>A \<open>PreparedFilter\<close> is its root; a nil root matches everything.\<close>

type_synonym 'u prepared = "'u prepared_node option"

datatype prepare_error =
    NotArity nat
  | UnsupportedOperator filter_op
  | EmptyPath
  | BadPath filter_path_error
  | BadMetaPath string
  | BadOperand string filter_op operand_error
  | RangePairInValue string filter_op operand_error
  | BadExpansion string filter_op expand_error
  | BadPattern filter_op pattern_error
  | PatternDiverged

text \<open>The addressing of a leaf: the hops of a data path, and the checks on both kinds of path.\<close>

definition prepare_path :: "field_source \<Rightarrow> string \<Rightarrow> prepare_error + path_hop list" where
  "prepare_path src path =
     (if src = SourceData then
        (if path = [] then Err EmptyPath
         else (case ParseFilterPath path of Inl e \<Rightarrow> Err (BadPath e) | Inr hops \<Rightarrow> Ok hops))
      else if src = SourceMeta \<and> \<not> isRecognizedMetaPath path then Err (BadMetaPath path)
      else Ok [])"

definition prepare_leaf :: "'u ext \<Rightarrow> filter \<Rightarrow> prepare_error + 'u prepared_node" where
  "prepare_leaf ext f =
     (let p = Op f in
      if leafKindOf p = None then Err (UnsupportedOperator p)
      else
        (case prepare_path (Source f) (Path f) of
           Inl e \<Rightarrow> Err e
         | Inr hops \<Rightarrow>
             (case ValidateOperand p (if isRange p then GSlice (Values f) else Value f) of
                Some e \<Rightarrow>
                  if isRange p \<and> Values f = [] \<and> Value f \<noteq> GNil
                  then Err (RangePairInValue (Path f) p e)
                  else Err (BadOperand (Path f) p e)
              | None \<Rightarrow>
                  (let operandStr = OperandString (Value f) in
                   case ExpandLeaf ext p operandStr (valuesToStrings (Values f)) (Declared f) of
                     Inl e \<Rightarrow> Err (BadExpansion (truncateOperand operandStr) p e)
                   | Inr e \<Rightarrow>
                       if (p = FilterLike \<or> p = FilterMatchesRegex) \<and> e_strMatch e = None then
                         (case ValidateLeafPattern ext p (Value f) of
                            Some (q, pe) \<Rightarrow> Err (BadPattern q pe)
                          | None \<Rightarrow> Err PatternDiverged)
                       else Ok (Leaf p (Source f) (Path f) hops e)))))"

fun prepareNode :: "'u ext \<Rightarrow> filter \<Rightarrow> prepare_error + 'u prepared_node" where
  "prepareNode ext (Filter p path src v vs cs co decl) =
     (if p = FilterAnd \<or> p = FilterOr then
        (case map_res (prepareNode ext) cs of Inl e \<Rightarrow> Err e | Inr ns \<Rightarrow> Ok (Group p ns))
      else if p = FilterNot then
        (case cs of
           [c] \<Rightarrow> (case prepareNode ext c of Inl e \<Rightarrow> Err e | Inr n \<Rightarrow> Ok (Group FilterNot [n]))
         | _ \<Rightarrow> Err (NotArity (length cs)))
      else prepare_leaf ext (Filter p path src v vs cs co decl))"

definition Prepare :: "'u ext \<Rightarrow> filter \<Rightarrow> prepare_error + 'u prepared" where
  "Prepare ext f =
     (if Op f = FilterOpOther [] then Ok None
      else (case prepareNode ext f of Inl e \<Rightarrow> Err e | Inr n \<Rightarrow> Ok (Some n)))"

subsection \<open>Matching\<close>

definition storedAll ::
  "('d, 'r) gj \<Rightarrow> field_source \<Rightarrow> string \<Rightarrow> path_hop list \<Rightarrow> 'd \<Rightarrow> EntityMeta \<Rightarrow> stored list" where
  "storedAll g src path hops data meta =
     (if src = SourceMeta then [metaGjsonResult path meta]
      else map (gj_stored g) (ResolvePath g data hops))"

fun match_node ::
  "('d, 'r) gj \<Rightarrow> 'u ext \<Rightarrow> 'd \<Rightarrow> EntityMeta \<Rightarrow> 'u prepared_node \<Rightarrow> bool" where
  "match_node g ext data meta (Group p ns) =
     (if p = FilterAnd then list_all (match_node g ext data meta) ns
      else if p = FilterOr then list_ex (match_node g ext data meta) ns
      else (case ns of n # _ \<Rightarrow> \<not> match_node g ext data meta n | [] \<Rightarrow> False))"
| "match_node g ext data meta (Leaf p src path hops e) =
     list_ex (EvalLeaf ext e) (storedAll g src path hops data meta)"

definition Match :: "('d, 'r) gj \<Rightarrow> 'u ext \<Rightarrow> 'u prepared \<Rightarrow> 'd \<Rightarrow> EntityMeta \<Rightarrow> bool" where
  "Match g ext pf data meta =
     (case pf of None \<Rightarrow> True | Some n \<Rightarrow> match_node g ext data meta n)"

subsection \<open>Well-formed filters\<close>

definition leaf_ok :: "'u ext \<Rightarrow> filter \<Rightarrow> bool" where
  "leaf_ok ext f \<longleftrightarrow>
     leafKindOf (Op f) \<noteq> None
     \<and> (Source f = SourceData \<and> Path f \<noteq> [] \<and> ValidateFilterPath (Path f) = None
          \<or> Source f = SourceMeta \<and> isRecognizedMetaPath (Path f))
     \<and> ValidateOperand (Op f) (if isRange (Op f) then GSlice (Values f) else Value f) = None
     \<and> is_ok (ExpandLeaf ext (Op f) (OperandString (Value f)) (valuesToStrings (Values f)) (Declared f))
     \<and> ValidateLeafPattern ext (Op f) (Value f) = None"

text \<open>Every leaf reads the data or the metadata. The code checks no path of a leaf that names neither source.\<close>

fun sourced :: "filter \<Rightarrow> bool" where
  "sourced (Filter p path src v vs cs co decl) =
     (if p = FilterAnd \<or> p = FilterOr \<or> p = FilterNot then list_all sourced cs else src \<in> {SourceData, SourceMeta})"

fun filter_ok :: "'u ext \<Rightarrow> filter \<Rightarrow> bool" where
  "filter_ok ext (Filter p path src v vs cs co decl) =
     (if p = FilterAnd \<or> p = FilterOr then list_all (filter_ok ext) cs
      else if p = FilterNot then (case cs of [c] \<Rightarrow> filter_ok ext c | _ \<Rightarrow> False)
      else leaf_ok ext (Filter p path src v vs cs co decl))"

lemma prepare_path_ok:
  "is_ok (prepare_path src path) \<longleftrightarrow>
     (src = SourceData \<longrightarrow> path \<noteq> [] \<and> ValidateFilterPath path = None)
     \<and> (src = SourceMeta \<longrightarrow> isRecognizedMetaPath path)"
  by (simp add: prepare_path_def ValidateFilterPath_def split: sum.split)

lemma compile_OperandString: "compileLeafPattern ext p (GString (OperandString v)) = compileLeafPattern ext p v"
  by (simp add: compileLeafPattern_def)

text \<open>The matcher is missing exactly when the validator refuses the pattern.\<close>

lemma strMatch_missing:
  assumes "ExpandLeaf ext p (OperandString v) vals decl = Ok e" "p = FilterLike \<or> p = FilterMatchesRegex"
  shows "e_strMatch e = None \<longleftrightarrow> ValidateLeafPattern ext p v \<noteq> None"
proof -
  have k: "leafKindOf p = Some kindStringOp" using assms(2) by auto
  have m: "e_strMatch e = (case compileLeafPattern ext p v of Inl err \<Rightarrow> None | Inr m \<Rightarrow> m)"
    using EvalLeaf_string(4) [OF assms(1) k] by (simp add: compile_OperandString)
  have "compileLeafPattern ext p v \<noteq> Ok None"
    using assms(2) by (auto simp: compileLeafPattern_def split: sum.splits like_error.splits)
  then show ?thesis
    unfolding m by (auto simp: ValidateLeafPattern_def split: sum.splits)
qed

lemma ValidateLeafPattern_other:
  "p \<noteq> FilterLike \<Longrightarrow> p \<noteq> FilterMatchesRegex \<Longrightarrow> ValidateLeafPattern ext p v = None"
  by (simp add: ValidateLeafPattern_def compileLeafPattern_def)

lemma prepare_leaf_ok:
  assumes "Source f \<in> {SourceData, SourceMeta}"
  shows "is_ok (prepare_leaf ext f) \<longleftrightarrow> leaf_ok ext f"
proof -
  have "is_ok (prepare_leaf ext f) \<longleftrightarrow> leafKindOf (Op f) \<noteq> None
      \<and> is_ok (prepare_path (Source f) (Path f))
      \<and> ValidateOperand (Op f) (if isRange (Op f) then GSlice (Values f) else Value f) = None
      \<and> (\<exists>e. ExpandLeaf ext (Op f) (OperandString (Value f)) (valuesToStrings (Values f)) (Declared f) = Ok e
          \<and> \<not> ((Op f = FilterLike \<or> Op f = FilterMatchesRegex) \<and> e_strMatch e = None))"
    by (auto simp: prepare_leaf_def Let_def split: sum.splits option.splits if_splits)
  moreover have "\<not> ((Op f = FilterLike \<or> Op f = FilterMatchesRegex) \<and> e_strMatch e = None)
      \<longleftrightarrow> ValidateLeafPattern ext (Op f) (Value f) = None"
    if "ExpandLeaf ext (Op f) (OperandString (Value f)) (valuesToStrings (Values f)) (Declared f) = Ok e" for e
    using strMatch_missing [OF that] ValidateLeafPattern_other [of "Op f" ext "Value f"] by blast
  moreover have "is_ok r \<longleftrightarrow> (\<exists>x. r = Ok x)" for r :: "'c + 'd" by (cases r) auto
  ultimately show ?thesis using assms unfolding leaf_ok_def prepare_path_ok by auto
qed

lemma prepareNode_ok: "sourced f \<Longrightarrow> is_ok (prepareNode ext f) \<longleftrightarrow> filter_ok ext f"
proof (induction ext f rule: prepareNode.induct)
  case (1 ext p path src v vs cs co decl)
  show ?case
  proof (cases "p = FilterAnd \<or> p = FilterOr")
    case True
    have "is_ok (prepareNode ext (Filter p path src v vs cs co decl)) \<longleftrightarrow> is_ok (map_res (prepareNode ext) cs)"
      using True by (auto split: sum.splits)
    then show ?thesis using True 1(1,3) by (auto simp: map_res_ok_iff_all list_all_iff)
  next
    case False
    show ?thesis
    proof (cases "p = FilterNot")
      case True
      show ?thesis
      proof (cases "\<exists>c. cs = [c]")
        case sg: True
        then obtain c where c: "cs = [c]" by blast
        have "is_ok (prepareNode ext c) \<longleftrightarrow> filter_ok ext c" using 1(2) [OF False True c] 1(3) c True by simp
        then show ?thesis using False True c by (auto split: sum.splits)
      next
        case sg: False
        then show ?thesis using True by (auto split: list.splits)
      qed
    next
      case False2: False
      then show ?thesis using False 1(3) by (simp add: prepare_leaf_ok)
    qed
  qed
qed

lemma filter_ok_sourced: "filter_ok ext f \<Longrightarrow> sourced f"
proof (induction ext f rule: filter_ok.induct)
  case (1 ext p path src v vs cs co decl)
  then show ?case by (auto simp: leaf_ok_def list_all_iff split: if_splits list.splits)
qed

lemma filter_ok_prepares: "filter_ok ext f \<Longrightarrow> \<exists>pf. Prepare ext f = Ok pf"
  using prepareNode_ok [of f ext] filter_ok_sourced [of ext f] by (auto simp: Prepare_def elim!: is_okE)

subsection \<open>The meaning of a filter\<close>

text \<open>The values a leaf addresses in a row, and the Boolean meaning of a filter tree over them.\<close>

definition leaf_values :: "('d, 'r) gj \<Rightarrow> filter \<Rightarrow> 'd \<Rightarrow> EntityMeta \<Rightarrow> stored list" where
  "leaf_values g f data meta =
     (if Source f = SourceMeta then [metaGjsonResult (Path f) meta]
      else if Source f = SourceData then
        (case ParseFilterPath (Path f) of
           Inl e \<Rightarrow> [] | Inr hops \<Rightarrow> map (gj_stored g) (addressed g hops (gj_parse g data)))
      else [gj_stored g (gj_parse g data)])"

definition leaf_holds :: "'u ext \<Rightarrow> filter \<Rightarrow> stored \<Rightarrow> bool" where
  "leaf_holds ext f st =
     (case ExpandLeaf ext (Op f) (OperandString (Value f)) (valuesToStrings (Values f)) (Declared f) of
        Inl e \<Rightarrow> False | Inr e \<Rightarrow> EvalLeaf ext e st)"

fun holds :: "('d, 'r) gj \<Rightarrow> 'u ext \<Rightarrow> 'd \<Rightarrow> EntityMeta \<Rightarrow> filter \<Rightarrow> bool" where
  "holds g ext data meta (Filter p path src v vs cs co decl) =
     (if p = FilterAnd then \<forall>c \<in> set cs. holds g ext data meta c
      else if p = FilterOr then \<exists>c \<in> set cs. holds g ext data meta c
      else if p = FilterNot then \<not> (\<exists>c \<in> set cs. holds g ext data meta c)
      else (\<exists>st \<in> set (leaf_values g (Filter p path src v vs cs co decl) data meta).
              leaf_holds ext (Filter p path src v vs cs co decl) st))"

lemma prepare_leaf_match:
  assumes "prepare_leaf ext f = Ok n"
  shows "match_node g ext data meta n \<longleftrightarrow>
    (\<exists>st \<in> set (leaf_values g f data meta). leaf_holds ext f st)"
proof -
  from assms obtain hops e where
    hops: "prepare_path (Source f) (Path f) = Ok hops" and
    e: "ExpandLeaf ext (Op f) (OperandString (Value f)) (valuesToStrings (Values f)) (Declared f) = Ok e" and
    n: "n = Leaf (Op f) (Source f) (Path f) hops e"
    by (auto simp: prepare_leaf_def Let_def split: sum.splits option.splits if_splits)
  have "storedAll g (Source f) (Path f) hops data meta = leaf_values g f data meta"
    using hops
    by (auto simp: storedAll_def leaf_values_def prepare_path_def ResolvePath_addressed
        split: if_splits sum.splits)
  then show ?thesis by (simp add: n list_ex_iff leaf_holds_def e)
qed

lemma prepareNode_match:
  "prepareNode ext f = Ok n \<Longrightarrow> match_node g ext data meta n = holds g ext data meta f"
proof (induction ext f arbitrary: n rule: prepareNode.induct)
  case (1 ext p path src v vs cs co decl)
  show ?case
  proof (cases "p = FilterAnd \<or> p = FilterOr")
    case True
    then obtain ns where ns: "map_res (prepareNode ext) cs = Ok ns" "n = Group p ns"
      using 1(3) by (auto split: sum.splits)
    have all2: "list_all2 (\<lambda>c m. match_node g ext data meta m = holds g ext data meta c) cs ns"
      using ns(1) unfolding map_res_Ok_iff
      by (rule list.rel_mono_strong) (rule 1(1) [OF True])
    have "list_all (match_node g ext data meta) ns = (\<forall>c \<in> set cs. holds g ext data meta c)"
      "list_ex (match_node g ext data meta) ns = (\<exists>c \<in> set cs. holds g ext data meta c)"
      using all2 by (induction rule: list_all2_induct) auto
    then show ?thesis using True ns(2) by auto
  next
    case False
    show ?thesis
    proof (cases "p = FilterNot")
      case True
      then obtain c m where c: "cs = [c]" "prepareNode ext c = Ok m" "n = Group FilterNot [m]"
        using 1(3) by (auto split: list.splits sum.splits)
      then show ?thesis using 1(2) [OF False True c(1) refl c(2)] True by simp
    next
      case False2: False
      then have "prepare_leaf ext (Filter p path src v vs cs co decl) = Ok n" using 1(3) False by simp
      then show ?thesis using False False2 by (simp add: prepare_leaf_match)
    qed
  qed
qed

lemma Prepare_cases:
  "Prepare ext f = Ok pf \<longleftrightarrow>
     (Op f = FilterOpOther [] \<and> pf = None)
     \<or> (Op f \<noteq> FilterOpOther [] \<and> (\<exists>n. prepareNode ext f = Ok n \<and> pf = Some n))"
  by (auto simp: Prepare_def split: sum.splits)

lemma prepareNode_no_divergence: "prepareNode ext f \<noteq> Err PatternDiverged"
proof (induction ext f rule: prepareNode.induct)
  case (1 ext p path src v vs cs co decl)
  let ?f = "Filter p path src v vs cs co decl"
  have leaf: "prepare_leaf ext ?f \<noteq> Err PatternDiverged"
  proof
    assume "prepare_leaf ext ?f = Err PatternDiverged"
    then obtain e where "ExpandLeaf ext p (OperandString v) (valuesToStrings vs) decl = Ok e"
      "p = FilterLike \<or> p = FilterMatchesRegex" "e_strMatch e = None" "ValidateLeafPattern ext p v = None"
      by (auto simp: prepare_leaf_def prepare_path_def Let_def split: sum.splits option.splits if_splits)
    with strMatch_missing show False by blast
  qed
  have "map_res (prepareNode ext) cs \<noteq> Err PatternDiverged" if "p = FilterAnd \<or> p = FilterOr"
    using 1(1) [OF that] map_res_Err [of "prepareNode ext" cs PatternDiverged] by auto
  then show ?case using leaf 1(2) by (auto split: sum.splits list.splits)
qed

text \<open>A number operand reaches the kernel with its exact text.\<close>

lemma data_leaf_ok:
  assumes "leafKindOf p = Some kindCompare" "path \<noteq> []" "ParseFilterPath path = Ok hops"
    and "ExpandLeaf ext p operand [] decl = Ok e"
  shows "prepareNode ext (Filter p path SourceData (GNumber operand) [] [] co decl)
    = Ok (Leaf p SourceData path hops e)"
proof -
  have p: "p \<noteq> FilterAnd" "p \<noteq> FilterOr" "p \<noteq> FilterNot" "\<not> isRange p" "p \<noteq> FilterLike" "p \<noteq> FilterMatchesRegex"
    using assms(1) by (auto simp: isRange_def)
  moreover have "ValidateOperand p (GNumber operand) = None"
    using p by (simp add: ValidateOperand_accepts scalar_def)
  ultimately show ?thesis
    using assms by (simp add: prepare_leaf_def prepare_path_def Let_def valuesToStrings_def)
qed

lemma compare_op_not_zero: "leafKindOf p = Some kindCompare \<Longrightarrow> p \<noteq> FilterOpOther []"
  by auto

subsection \<open>Properties\<close>

text \<open>C4: a prepared filter matches a row exactly when the filter tree holds there: AND of all children,
  OR of some child, NOT as the complement of its child, and a leaf when some value its path addresses
  satisfies it.\<close>

theorem Match_meaning:
  assumes "Prepare ext f = Ok pf" and "Op f \<noteq> FilterOpOther []"
  shows "Match g ext pf data meta = holds g ext data meta f"
  using assms prepareNode_match [of ext f _ g data meta] by (auto simp: Prepare_cases Match_def)

theorem Match_meaning_witness:
  "\<exists>pf. Prepare no_ext (Filter FilterNot [] (SourceOther []) GNil []
      [Filter FilterIsNull ''a'' SourceData GNil [] [] CoerceNone []] CoerceNone []) = Ok pf
    \<and> Match tree_gj no_ext pf (JObject [(''a'', JTrue)]) zero_meta"
proof -
  let ?c = "Filter FilterIsNull ''a'' SourceData GNil [] [] CoerceNone []"
  let ?f = "Filter FilterNot [] (SourceOther []) GNil [] [?c] CoerceNone []"
  have h: "ParseFilterPath ''a'' = Ok [\<lparr>Name = ''a'', Subs = []\<rparr>]" by code_simp
  have e: "ExpandLeaf no_ext FilterIsNull [] [] [] = Ok (mk_expansion kindUnary FilterIsNull)"
    by (simp add: ExpandLeaf_def)
  have "filter_ok no_ext ?f"
    by (simp add: leaf_ok_def ValidateFilterPath_def h ValidateOperand_accepts isRange_def scalar_def
        valuesToStrings_def e ValidateLeafPattern_other)
  then obtain pf where pf: "Prepare no_ext ?f = Ok pf" using filter_ok_prepares by blast
  have "addressed tree_gj [\<lparr>Name = ''a'', Subs = []\<rparr>] (gj_parse tree_gj (JObject [(''a'', JTrue)])) = [Some JTrue]"
    by code_simp
  then have "holds tree_gj no_ext (JObject [(''a'', JTrue)]) zero_meta ?f"
    by (simp add: leaf_values_def h leaf_holds_def valuesToStrings_def e EvalLeaf_def Exists_def tree_gj_def)
  with Match_meaning [OF pf, of tree_gj "JObject [(''a'', JTrue)]" zero_meta] pf show ?thesis by simp
qed

text \<open>C33: for a filter whose leaves read the data or the metadata, preparing succeeds exactly on the root match-all
  filter and on the filters that are well-formed throughout: every NOT with exactly one child, every leaf with a
  supported operator, an addressable path of its source, an accepted operand that expands, and a pattern that
  compiles. A well-formed filter always prepares.\<close>

theorem Prepare_accepts:
  "(sourced f \<longrightarrow> (is_ok (Prepare ext f) \<longleftrightarrow> Op f = FilterOpOther [] \<or> filter_ok ext f))
   \<and> (filter_ok ext f \<longrightarrow> is_ok (Prepare ext f))"
  using prepareNode_ok [of f ext] filter_ok_prepares [of ext f] by (auto simp: Prepare_def split: sum.splits)

theorem Prepare_accepts_witness:
  "\<not> is_ok (Prepare no_ext (Filter FilterNot [] SourceData GNil [] [] CoerceNone []))"
proof -
  have "sourced (Filter FilterNot [] SourceData GNil [] [] CoerceNone [])" by simp
  then show ?thesis using Prepare_accepts [of "Filter FilterNot [] SourceData GNil [] [] CoerceNone []" no_ext] by simp
qed

text \<open>A leaf that names neither source is accepted with an empty path.\<close>

lemma Prepare_unsourced:
  "is_ok (Prepare no_ext (Filter FilterIsNull [] (SourceOther []) GNil [] [] CoerceNone []))"
proof -
  have "ExpandLeaf no_ext FilterIsNull [] [] [] = Ok (mk_expansion kindUnary FilterIsNull)" by (simp add: ExpandLeaf_def)
  moreover have "ValidateOperand FilterIsNull GNil = None" by code_simp
  ultimately show ?thesis
    by (simp add: Prepare_def prepare_leaf_def prepare_path_def Let_def isRange_def valuesToStrings_def)
qed

text \<open>the branch of the pattern check that the code calls impossible is never taken, whatever filter
  is prepared.\<close>

theorem Prepare_no_divergence: "Prepare ext f \<noteq> Err PatternDiverged"
  using prepareNode_no_divergence [of ext f] by (auto simp: Prepare_def split: sum.splits)

text \<open>end to end, a comparison of a data path with a number: over rows whose addressed values are
  numbers some declared type admits, the filter prepares and matches exactly the rows where some
  addressed number stands in the relation to the operand.\<close>

theorem number_search_exact:
  assumes "leafKindOf p = Some kindCompare" and "path \<noteq> []" and "ParseFilterPath path = Ok hops"
    and "ParseDecimal operand = Ok v" and "decimal_ok v" and "\<exists>t \<in> set decl. IsNumeric t"
    and "\<forall>st \<in> set (map (gj_stored g) (addressed g hops (gj_parse g data))).
      \<exists>raw d. st = SNumber raw \<and> ParseDecimal raw = Ok d \<and> decimal_ok d
        \<and> (\<exists>t \<in> set decl. AdmitsNumeric t d)"
  shows "\<exists>pf. Prepare ext (Filter p path SourceData (GNumber operand) [] [] co decl) = Ok pf
    \<and> (Match g ext pf data meta \<longleftrightarrow>
        (\<exists>raw d. SNumber raw \<in> set (map (gj_stored g) (addressed g hops (gj_parse g data)))
          \<and> ParseDecimal raw = Ok d \<and> rel_op p (dval d) (dval v)))"
proof -
  let ?vals = "map (gj_stored g) (addressed g hops (gj_parse g data))"
  obtain e where e: "ExpandLeaf ext p operand [] decl = Ok e"
    using compareLeaf_defined [OF assms(1), of decl operand ext "[]"] assms(4,6) by auto
  note node = data_leaf_ok [OF assms(1-3) e, of co]
  have answer: "EvalLeaf ext e st \<longleftrightarrow>
      (\<exists>raw d. st = SNumber raw \<and> ParseDecimal raw = Ok d \<and> rel_op p (dval d) (dval v))"
    if st: "st \<in> set ?vals" for st
  proof -
    obtain raw d t where r: "st = SNumber raw" "ParseDecimal raw = Ok d" "decimal_ok d"
      "t \<in> set decl" "AdmitsNumeric t d" using assms(7) st by blast
    have "EvalLeaf ext e (SNumber raw) = rel_op p (dval d) (dval v)"
      using number_leaf_answer [OF assms(1,4,5) r(2-5), of ext "[]"] e by simp
    then show ?thesis using r(1,2) by simp
  qed
  have "match_node g ext data meta (Leaf p SourceData path hops e) \<longleftrightarrow> (\<exists>st \<in> set ?vals. EvalLeaf ext e st)"
    by (simp add: storedAll_def list_ex_iff ResolvePath_addressed)
  also have "\<dots> \<longleftrightarrow> (\<exists>raw d. SNumber raw \<in> set ?vals \<and> ParseDecimal raw = Ok d \<and> rel_op p (dval d) (dval v))"
    using answer by blast
  finally show ?thesis
    using node compare_op_not_zero [OF assms(1)] by (simp add: Prepare_cases Match_def)
qed

theorem number_search_exact_witness:
  "\<exists>pf. Prepare no_ext (Filter FilterGt ''a[*]'' SourceData (GNumber ''1.5'') [] [] CoerceNone [Integer]) = Ok pf
    \<and> Match tree_gj no_ext pf (JObject [(''a'', JArray [JNumber ''1'', JNumber ''2''])]) zero_meta"
proof -
  let ?h = "[\<lparr>Name = ''a'', Subs = [Wildcard]\<rparr>]" and ?d = "JObject [(''a'', JArray [JNumber ''1'', JNumber ''2''])]"
  have h: "ParseFilterPath ''a[*]'' = Ok ?h" by code_simp
  have v: "ParseDecimal ''1.5'' = Ok (mk_decimal 15 1)" "ParseDecimal ''1'' = Ok (mk_decimal 1 0)"
    "ParseDecimal ''2'' = Ok (mk_decimal 2 0)" by code_simp+
  have ok: "decimal_ok (mk_decimal 15 1)" "decimal_ok (mk_decimal 1 0)" "decimal_ok (mk_decimal 2 0)"
    by (simp_all add: decimal_ok_small in_i32_iff)
  have a: "AdmitsNumeric Integer (mk_decimal 1 0)" "AdmitsNumeric Integer (mk_decimal 2 0)" by code_simp+
  have vals: "map (gj_stored tree_gj) (addressed tree_gj ?h (gj_parse tree_gj ?d)) = [SNumber ''1'', SNumber ''2'']"
    by code_simp
  have n: "\<exists>t \<in> set [Integer]. IsNumeric t" by (simp add: IsNumeric_def)
  have rows: "\<forall>st \<in> set (map (gj_stored tree_gj) (addressed tree_gj ?h (gj_parse tree_gj ?d))).
      \<exists>raw d. st = SNumber raw \<and> ParseDecimal raw = Ok d \<and> decimal_ok d
        \<and> (\<exists>t \<in> set [Integer]. AdmitsNumeric t d)"
    unfolding vals using v ok a by auto
  have gt: "rel_op FilterGt (dval (mk_decimal 2 0)) (dval (mk_decimal 15 1))" by (simp add: dval_def)
  show ?thesis
    using number_search_exact [OF _ _ h v(1) ok(1) n rows, of FilterGt no_ext CoerceNone zero_meta] v gt
    unfolding vals by auto
qed

end
