(* ===== verification/Ordering.thy ===== *)
theory Ordering
  imports Prepared_Filter
begin

text \<open>
  Ordering classes (\<open>order_class.go\<close>) and the comparator of sort keys (\<open>order_compare.go\<close>, with the
  key types of \<open>searcher.go\<close>). The contract of a comparator is the locale \<open>weak_cmp\<close>: antisymmetric in
  sign and transitive. Results: every sort key satisfies it on values that are not NaN, so does their
  lexicographic combination, and \<open>LessByOrder\<close> is irreflexive and total on entities with distinct
  identifiers, and transitive on those none of whose keys reads as NaN.
\<close>

subsection \<open>Ordering classes\<close>

datatype order_kind = OrderText | OrderNumeric | OrderBool | OrderTemporal

datatype class_error = NotSortable data_type | MixedClasses | NoScalarType

definition scalarClass :: "data_type \<Rightarrow> class_error + order_kind" where
  "scalarClass t =
     (if IsNumeric t then Ok OrderNumeric
      else if t = Boolean then Ok OrderBool
      else if t \<in> {String, Character, UUIDType, TimeUUIDType} then Ok OrderText
      else if t \<in> {LocalDate, LocalDateTime, LocalTime, ZonedDateTime, Year, YearMonth} then Ok OrderTemporal
      else Err (NotSortable t))"

text \<open>The loop over the declared types; the accumulator is the class found so far.\<close>

fun classify_loop ::
  "(order_kind \<Rightarrow> order_kind) option \<Rightarrow> order_kind option \<Rightarrow> data_type list \<Rightarrow> class_error + order_kind option" where
  "classify_loop fld acc [] = Ok acc"
| "classify_loop fld acc (t # ts) =
     (if t = Null then classify_loop fld acc ts
      else
        (case scalarClass t of
           Inl e \<Rightarrow> Err e
         | Inr k0 \<Rightarrow>
             (let k = (case fld of None \<Rightarrow> k0 | Some f \<Rightarrow> f k0) in
              case acc of
                None \<Rightarrow> classify_loop fld (Some k) ts
              | Some kind \<Rightarrow> if k \<noteq> kind then Err MixedClasses else classify_loop fld acc ts)))"

definition ClassifyTypesFold ::
  "data_type list \<Rightarrow> (order_kind \<Rightarrow> order_kind) option \<Rightarrow> class_error + order_kind" where
  "ClassifyTypesFold types fld =
     (case classify_loop fld None types of
        Inl e \<Rightarrow> Err e
      | Inr None \<Rightarrow> Err NoScalarType
      | Inr (Some k) \<Rightarrow> Ok k)"

definition ClassifyType :: "data_type list \<Rightarrow> class_error + order_kind" where
  "ClassifyType types = ClassifyTypesFold types None"

record MetaField =
  mf_Source :: field_source
  mf_Path :: string
  mf_Kind :: order_kind

definition meta_field :: "string \<Rightarrow> order_kind \<Rightarrow> string \<times> MetaField" where
  "meta_field name k = (name, \<lparr>mf_Source = SourceMeta, mf_Path = name, mf_Kind = k\<rparr>)"

definition sortableMetaFields :: "(string \<times> MetaField) list" where
  "sortableMetaFields =
     [meta_field ''state'' OrderText, meta_field ''creationDate'' OrderTemporal,
      meta_field ''lastUpdateTime'' OrderTemporal, meta_field ''transitionForLatestSave'' OrderText,
      meta_field ''transactionId'' OrderText, meta_field ''id'' OrderText]"

definition ResolveMetaField :: "string \<Rightarrow> MetaField option" where
  "ResolveMetaField name = map_of sortableMetaFields name"

definition MetaFieldNames :: "string list" where
  "MetaFieldNames = sort_key (map byte) (map fst sortableMetaFields)"

definition IsTemporalMetaField :: "string \<Rightarrow> bool" where
  "IsTemporalMetaField field =
     (case ResolveMetaField field of None \<Rightarrow> False | Some mf \<Rightarrow> mf_Kind mf = OrderTemporal)"

lemma classify_loop_spec:
  "classify_loop fld acc types = Ok (Some k) \<longleftrightarrow>
     (acc = None \<longrightarrow> (\<exists>t \<in> set types. t \<noteq> Null)) \<and> (acc \<noteq> None \<longrightarrow> acc = Some k)
     \<and> (\<forall>t \<in> set types. t \<noteq> Null \<longrightarrow>
          (\<exists>k0. scalarClass t = Ok k0 \<and> (case fld of None \<Rightarrow> k0 | Some f \<Rightarrow> f k0) = k))"
proof (induction types arbitrary: acc)
  case (Cons t ts)
  show ?case
    by (cases "t = Null"; cases "scalarClass t"; cases acc) (auto simp: Cons Let_def)
qed auto

lemma ClassifyTypesFold_spec:
  "ClassifyTypesFold types fld = Ok k \<longleftrightarrow>
     (\<exists>t \<in> set types. t \<noteq> Null)
     \<and> (\<forall>t \<in> set types. t \<noteq> Null \<longrightarrow>
          (\<exists>k0. scalarClass t = Ok k0 \<and> (case fld of None \<Rightarrow> k0 | Some f \<Rightarrow> f k0) = k))"
  using classify_loop_spec [of fld None types k]
  by (auto simp: ClassifyTypesFold_def split: sum.splits option.splits)

subsection \<open>Sort keys\<close>

record OrderSpec =
  os_Path :: string
  os_Source :: field_source
  os_Desc :: bool
  os_Kind :: order_kind

text \<open>
  A float64 is NaN, which is neither below nor above anything, or one of the values of \<open>'f\<close>, which are linearly
  ordered (the infinities among them, and the two zeros one value).
\<close>

datatype 'f float64 = NaN | Flt 'f

fun float_less :: "'f::linorder float64 \<Rightarrow> 'f float64 \<Rightarrow> bool" where
  "float_less (Flt a) (Flt b) \<longleftrightarrow> a < b"
| "float_less _ _ \<longleftrightarrow> False"

text \<open>
  The scalar readings of a result the comparator uses: \<open>Float\<close>, \<open>Bool\<close>, \<open>String\<close> and the field \<open>Num\<close>,
  and the two results the code builds itself, of type string and of type number. \<open>Float\<close> parses the text of a
  stored string, so it can be NaN.
\<close>

record ('r, 'f) scalar =
  sc_Float :: "'r \<Rightarrow> 'f float64"
  sc_Bool :: "'r \<Rightarrow> bool"
  sc_String :: "'r \<Rightarrow> string"
  sc_Num :: "'r \<Rightarrow> 'f float64"
  sc_of_string :: "string \<Rightarrow> 'r"
  sc_of_int :: "int \<Rightarrow> 'r"

definition cmpOrderFloat :: "'f::linorder float64 \<Rightarrow> 'f float64 \<Rightarrow> int" where
  "cmpOrderFloat a b = (if float_less a b then -1 else if float_less b a then 1 else 0)"

definition cmpOrderBool :: "bool \<Rightarrow> bool \<Rightarrow> int" where
  "cmpOrderBool a b = (if \<not> a \<and> b then -1 else if a \<and> \<not> b then 1 else 0)"

definition compareOrderValues :: "('r, 'f::linorder) scalar \<Rightarrow> 'r \<Rightarrow> 'r \<Rightarrow> order_kind \<Rightarrow> int" where
  "compareOrderValues sc av bv kind =
     (case kind of
        OrderNumeric \<Rightarrow> cmpOrderFloat (sc_Float sc av) (sc_Float sc bv)
      | OrderBool \<Rightarrow> cmpOrderBool (sc_Bool sc av) (sc_Bool sc bv)
      | OrderTemporal \<Rightarrow> cmpOrderFloat (sc_Num sc av) (sc_Num sc bv)
      | OrderText \<Rightarrow> string_compare (sc_String sc av) (sc_String sc bv))"

text \<open>Integer division truncates: \<open>sdiv\<close> is Go's \<open>/\<close>.\<close>

definition orderTimeResult :: "('r, 'f) scalar \<Rightarrow> go_time \<Rightarrow> 'r option" where
  "orderTimeResult sc t = (if IsZeroTime t then None else Some (sc_of_int sc (timeToMicro t sdiv 1000)))"

definition string_leaf :: "('r, 'f) scalar \<Rightarrow> string \<Rightarrow> 'r option" where
  "string_leaf sc s = (if s \<noteq> [] then Some (sc_of_string sc s) else None)"

definition orderMetaLeaf :: "('r, 'f) scalar \<Rightarrow> EntityMeta \<Rightarrow> string \<Rightarrow> 'r option" where
  "orderMetaLeaf sc m path =
     (if path = ''state'' then string_leaf sc (State m)
      else if path = ''transitionForLatestSave'' then string_leaf sc (TransitionForLatestSave m)
      else if path = ''transactionId'' then string_leaf sc (TransactionID m)
      else if path = ''id'' then string_leaf sc (ID m)
      else if path = ''creationDate'' then orderTimeResult sc (CreationDate m)
      else if path = ''lastUpdateTime'' then orderTimeResult sc (LastModifiedDate m)
      else None)"

definition orderLeafValue ::
  "('d, 'r) gj \<Rightarrow> ('r, 'f) scalar \<Rightarrow> 'd Entity \<Rightarrow> OrderSpec \<Rightarrow> 'r option" where
  "orderLeafValue g sc e s =
     (if os_Source s = SourceMeta then orderMetaLeaf sc (Meta e) (os_Path s)
      else if os_Path s = [] then None
      else
        (case ParseFilterPath (os_Path s) of
           Inl err \<Rightarrow> None
         | Inr hops \<Rightarrow>
             (case ResolvePath g (Data e) hops of
                [r] \<Rightarrow>
                  if \<not> Exists (gj_stored g r) \<or> gj_stored g r = SNull then None else Some r
              | _ \<Rightarrow> None)))"

text \<open>\<open>lessByOrderKey\<close> returns whether this key decides, and the order if so.\<close>

definition lessByOrderKey ::
  "('d, 'r) gj \<Rightarrow> ('r, 'f::linorder) scalar \<Rightarrow> 'd Entity \<Rightarrow> 'd Entity \<Rightarrow> OrderSpec \<Rightarrow> bool \<times> bool" where
  "lessByOrderKey g sc a b s =
     (case (orderLeafValue g sc a s, orderLeafValue g sc b s) of
        (Some av, Some bv) \<Rightarrow>
          (let c = (if os_Source s = SourceMeta \<and> os_Path s = ''id''
                    then string_compare (sc_String sc av) (sc_String sc bv)
                    else compareOrderValues sc av bv (os_Kind s))
           in if c = 0 then (False, False)
              else if os_Desc s then (True, c > 0) else (True, c < 0))
      | (None, None) \<Rightarrow> (False, False)
      | (av, _) \<Rightarrow> (True, av \<noteq> None))"

fun LessByOrder ::
  "('d, 'r) gj \<Rightarrow> ('r, 'f::linorder) scalar \<Rightarrow> 'd Entity \<Rightarrow> 'd Entity \<Rightarrow> OrderSpec list \<Rightarrow> bool" where
  "LessByOrder g sc a b [] = (string_compare (ID (Meta a)) (ID (Meta b)) < 0)"
| "LessByOrder g sc a b (s # ss) =
     (let (decided, less) = lessByOrderKey g sc a b s in
      if decided then less else LessByOrder g sc a b ss)"

subsection \<open>Comparators\<close>

locale weak_cmp =
  fixes c :: "'a \<Rightarrow> 'a \<Rightarrow> int"
  assumes swap: "sgn (c b a) = - sgn (c a b)"
    and trans: "c x y \<le> 0 \<Longrightarrow> c y z \<le> 0 \<Longrightarrow> c x z \<le> 0"
begin

lemma self: "c a a = 0"
  using swap [of a a] by (simp add: sgn_if split: if_splits)

lemma pos_iff: "0 < c a b \<longleftrightarrow> c b a < 0"
  using swap [of a b] by (auto simp: sgn_if split: if_splits)

lemma zero_sym: "c a b = 0 \<longleftrightarrow> c b a = 0"
  using swap [of a b] by (auto simp: sgn_if split: if_splits)

lemma le_swap: "c a b \<le> 0 \<longleftrightarrow> 0 \<le> c b a"
  using swap [of a b] by (auto simp: sgn_if split: if_splits)

lemma less_le_trans: "c x y < 0 \<Longrightarrow> c y z \<le> 0 \<Longrightarrow> c x z < 0"
  using trans [of y z x] le_swap [of x z] le_swap [of y x] by (meson le_swap not_less order.strict_implies_order)

lemma le_less_trans: "c x y \<le> 0 \<Longrightarrow> c y z < 0 \<Longrightarrow> c x z < 0"
  using trans [of z x y] le_swap by (meson not_less order.strict_implies_order)

lemma zero_trans: "c x y = 0 \<Longrightarrow> c y z = 0 \<Longrightarrow> c x z = 0"
  using trans [of x y z] trans [of z y x] zero_sym le_swap by (metis order.antisym order.refl)

end

text \<open>One key after another.\<close>

definition then_cmp :: "('a \<Rightarrow> 'a \<Rightarrow> int) \<Rightarrow> ('a \<Rightarrow> 'a \<Rightarrow> int) \<Rightarrow> 'a \<Rightarrow> 'a \<Rightarrow> int" where
  "then_cmp c d a b = (if c a b \<noteq> 0 then c a b else d a b)"

lemma weak_then:
  assumes c: "weak_cmp c" and d: "weak_cmp d"
  shows "weak_cmp (then_cmp c d)"
proof (rule weak_cmp.intro)
  fix a b x y z
  show "sgn (then_cmp c d b a) = - sgn (then_cmp c d a b)"
    using weak_cmp.swap [OF c, of b a] weak_cmp.swap [OF d, of b a] weak_cmp.zero_sym [OF c, of a b]
    by (simp add: then_cmp_def)
  assume xy: "then_cmp c d x y \<le> 0" and yz: "then_cmp c d y z \<le> 0"
  have le: "c x y \<le> 0" "c y z \<le> 0" using xy yz by (auto simp: then_cmp_def split: if_splits)
  show "then_cmp c d x z \<le> 0"
  proof (cases "c x y = 0 \<and> c y z = 0")
    case True
    then show ?thesis using xy yz weak_cmp.zero_trans [OF c, of x y z] weak_cmp.trans [OF d, of x y z]
      by (simp add: then_cmp_def)
  next
    case False
    then have "c x z < 0"
      using le weak_cmp.less_le_trans [OF c, of x y z] weak_cmp.le_less_trans [OF c, of x y z] by force
    then show ?thesis by (simp add: then_cmp_def)
  qed
qed

text \<open>A comparison of keys in a linear order, in either direction, with missing keys last.\<close>

lemma cmp3_le: "cmp3 a b \<le> 0 \<longleftrightarrow> a \<le> b"
  by (auto simp: cmp3_def)

lemma weak_key: "weak_cmp (\<lambda>a b. cmp3 (k a) (k b))"
proof (rule weak_cmp.intro)
  fix a b x y z
  show "sgn (cmp3 (k b) (k a)) = - sgn (cmp3 (k a) (k b))"
    using cmp3_swap [of "k b" "k a"] by simp
  assume "cmp3 (k x) (k y) \<le> 0" "cmp3 (k y) (k z) \<le> 0"
  then show "cmp3 (k x) (k z) \<le> 0" unfolding cmp3_le by (rule order.trans)
qed

definition last_cmp :: "('a \<Rightarrow> 'k option) \<Rightarrow> bool \<Rightarrow> ('k \<Rightarrow> 'k \<Rightarrow> int) \<Rightarrow> 'a \<Rightarrow> 'a \<Rightarrow> int" where
  "last_cmp key desc c a b =
     (case (key a, key b) of
        (Some x, Some y) \<Rightarrow> if desc then - c x y else c x y
      | (Some x, None) \<Rightarrow> -1
      | (None, Some y) \<Rightarrow> 1
      | (None, None) \<Rightarrow> 0)"

lemma weak_last:
  assumes "weak_cmp c"
  shows "weak_cmp (last_cmp key desc c)"
proof (rule weak_cmp.intro)
  fix a b x y z
  show "sgn (last_cmp key desc c b a) = - sgn (last_cmp key desc c a b)"
    using weak_cmp.swap [OF assms, of "the (key b)" "the (key a)"]
    by (cases "key a"; cases "key b") (simp_all add: last_cmp_def)
  assume "last_cmp key desc c x y \<le> 0" "last_cmp key desc c y z \<le> 0"
  then show "last_cmp key desc c x z \<le> 0"
    using weak_cmp.trans [OF assms, of "the (key x)" "the (key y)" "the (key z)"]
      weak_cmp.trans [OF assms, of "the (key z)" "the (key y)" "the (key x)"]
      weak_cmp.le_swap [OF assms, of "the (key y)" "the (key x)"]
      weak_cmp.le_swap [OF assms, of "the (key z)" "the (key y)"]
      weak_cmp.le_swap [OF assms, of "the (key z)" "the (key x)"]
    by (cases "key x"; cases "key y"; cases "key z"; cases desc) (simp_all add: last_cmp_def)
qed

subsection \<open>\<open>LessByOrder\<close> is a comparator\<close>

definition value_cmp :: "('r, 'f::linorder) scalar \<Rightarrow> OrderSpec \<Rightarrow> 'r \<Rightarrow> 'r \<Rightarrow> int" where
  "value_cmp sc s av bv =
     (if os_Source s = SourceMeta \<and> os_Path s = ''id''
      then string_compare (sc_String sc av) (sc_String sc bv)
      else compareOrderValues sc av bv (os_Kind s))"

text \<open>The order the comparator has on the values that are not NaN, made total by putting NaN last.\<close>

definition float_value :: "'f float64 \<Rightarrow> 'f option" where
  "float_value x = (case x of NaN \<Rightarrow> None | Flt v \<Rightarrow> Some v)"

definition float_order :: "'f::linorder float64 \<Rightarrow> 'f float64 \<Rightarrow> int" where
  "float_order = last_cmp float_value False cmp3"

definition value_order :: "('r, 'f::linorder) scalar \<Rightarrow> OrderSpec \<Rightarrow> 'r \<Rightarrow> 'r \<Rightarrow> int" where
  "value_order sc s av bv =
     (if \<not> (os_Source s = SourceMeta \<and> os_Path s = ''id'') \<and> os_Kind s = OrderNumeric
        then float_order (sc_Float sc av) (sc_Float sc bv)
      else if \<not> (os_Source s = SourceMeta \<and> os_Path s = ''id'') \<and> os_Kind s = OrderTemporal
        then float_order (sc_Num sc av) (sc_Num sc bv)
      else value_cmp sc s av bv)"

definition ordinary :: "('r, 'f) scalar \<Rightarrow> OrderSpec \<Rightarrow> 'r \<Rightarrow> bool" where
  "ordinary sc s r \<longleftrightarrow>
     (os_Source s = SourceMeta \<and> os_Path s = ''id'')
     \<or> (os_Kind s = OrderNumeric \<longrightarrow> sc_Float sc r \<noteq> NaN) \<and> (os_Kind s = OrderTemporal \<longrightarrow> sc_Num sc r \<noteq> NaN)"

text \<open>None of the keys of an entity reads as NaN.\<close>

definition number_keys ::
  "('d, 'r) gj \<Rightarrow> ('r, 'f) scalar \<Rightarrow> OrderSpec list \<Rightarrow> 'd Entity \<Rightarrow> bool" where
  "number_keys g sc specs e \<longleftrightarrow>
     list_all (\<lambda>s. case orderLeafValue g sc e s of None \<Rightarrow> True | Some r \<Rightarrow> ordinary sc s r) specs"

lemma weak_on: "weak_cmp c \<Longrightarrow> weak_cmp (\<lambda>a b. c (k a) (k b))"
  unfolding weak_cmp_def by meson

lemma weak_float: "weak_cmp float_order"
  unfolding float_order_def by (rule weak_last) (rule weak_key [where k = "\<lambda>x. x"])

lemma cmpOrderFloat_order: "a \<noteq> NaN \<Longrightarrow> b \<noteq> NaN \<Longrightarrow> cmpOrderFloat a b = float_order a b"
  by (cases a; cases b) (simp_all add: cmpOrderFloat_def float_order_def last_cmp_def float_value_def cmp3_def)

lemma value_cmp_order: "ordinary sc s a \<Longrightarrow> ordinary sc s b \<Longrightarrow> value_cmp sc s a b = value_order sc s a b"
  by (auto simp: ordinary_def value_order_def value_cmp_def compareOrderValues_def cmpOrderFloat_order split: order_kind.split)

lemma cmpOrderBool_cmp3: "cmpOrderBool a b = cmp3 a b"
  by (auto simp: cmpOrderBool_def cmp3_def)

lemma weak_value: "weak_cmp (value_order sc s)"
proof (cases "os_Source s = SourceMeta \<and> os_Path s = ''id'' \<or> os_Kind s = OrderText")
  case True
  then have "value_order sc s = (\<lambda>a b. cmp3 (map byte (sc_String sc a)) (map byte (sc_String sc b)))"
    by (auto simp: value_order_def value_cmp_def compareOrderValues_def string_compare_cmp3 fun_eq_iff)
  then show ?thesis using weak_key by metis
next
  case False
  then have "value_order sc s = (\<lambda>a b. case os_Kind s of
      OrderNumeric \<Rightarrow> float_order (sc_Float sc a) (sc_Float sc b)
    | OrderTemporal \<Rightarrow> float_order (sc_Num sc a) (sc_Num sc b)
    | _ \<Rightarrow> cmp3 (sc_Bool sc a) (sc_Bool sc b))"
    by (auto simp: value_order_def value_cmp_def compareOrderValues_def cmpOrderBool_cmp3 fun_eq_iff split: order_kind.split)
  then show ?thesis
    using weak_on [OF weak_float, of "sc_Float sc"] weak_on [OF weak_float, of "sc_Num sc"] weak_key [of "sc_Bool sc"] False
    by (cases "os_Kind s") simp_all
qed

fun order_cmp ::
  "('d, 'r) gj \<Rightarrow> ('r, 'f::linorder) scalar \<Rightarrow> OrderSpec list \<Rightarrow> 'd Entity \<Rightarrow> 'd Entity \<Rightarrow> int" where
  "order_cmp g sc [] = (\<lambda>a b. cmp3 (map byte (ID (Meta a))) (map byte (ID (Meta b))))"
| "order_cmp g sc (s # ss) =
     then_cmp (last_cmp (\<lambda>e. orderLeafValue g sc e s) (os_Desc s) (value_order sc s)) (order_cmp g sc ss)"

lemma weak_order_cmp: "weak_cmp (order_cmp g sc specs)"
  by (induction specs) (auto intro: weak_key weak_then weak_last weak_value)

interpretation ord: weak_cmp "order_cmp g sc specs" for g sc specs
  by (rule weak_order_cmp)

lemma lessByOrderKey_cmp:
  "lessByOrderKey g sc a b s =
    (let c = last_cmp (\<lambda>e. orderLeafValue g sc e s) (os_Desc s) (value_cmp sc s) a b in (c \<noteq> 0, c < 0))"
  by (auto simp: lessByOrderKey_def last_cmp_def value_cmp_def Let_def split: option.splits)

lemma LessByOrder_cmp:
  "number_keys g sc specs a \<Longrightarrow> number_keys g sc specs b \<Longrightarrow> LessByOrder g sc a b specs \<longleftrightarrow> order_cmp g sc specs a b < 0"
proof (induction specs)
  case (Cons s ss)
  have "last_cmp (\<lambda>e. orderLeafValue g sc e s) (os_Desc s) (value_cmp sc s) a b
      = last_cmp (\<lambda>e. orderLeafValue g sc e s) (os_Desc s) (value_order sc s) a b"
    using Cons.prems value_cmp_order [of sc s] by (auto simp: last_cmp_def number_keys_def split: option.splits)
  then show ?case using Cons by (auto simp: lessByOrderKey_cmp then_cmp_def Let_def number_keys_def)
qed (simp add: string_compare_cmp3)

text \<open>NaN or not, a key that decides decides one way round.\<close>

lemma value_cmp_swap: "sgn (value_cmp sc s b a) = - sgn (value_cmp sc s a b)"
proof -
  have flt: "sgn (cmpOrderFloat y x) = - sgn (cmpOrderFloat x y)" for x y :: "'f::linorder float64"
    by (cases x; cases y) (auto simp: cmpOrderFloat_def)
  show ?thesis
    using flt cmp3_swap [of "map byte (sc_String sc b)" "map byte (sc_String sc a)"]
    by (auto simp: value_cmp_def compareOrderValues_def cmpOrderBool_def string_compare_cmp3 split: order_kind.split)
qed

lemma lessByOrderKey_swap:
  "fst (lessByOrderKey g sc b a s) = fst (lessByOrderKey g sc a b s)"
  "fst (lessByOrderKey g sc a b s) \<Longrightarrow> snd (lessByOrderKey g sc b a s) = (\<not> snd (lessByOrderKey g sc a b s))"
  using value_cmp_swap [of sc s "the (orderLeafValue g sc b s)" "the (orderLeafValue g sc a s)"]
  by (auto simp: lessByOrderKey_cmp last_cmp_def Let_def sgn_if split: option.splits if_splits)

lemma LessByOrder_swap:
  "ID (Meta a) \<noteq> ID (Meta b) \<Longrightarrow> LessByOrder g sc a b specs \<longleftrightarrow> \<not> LessByOrder g sc b a specs"
proof (induction specs)
  case Nil
  then have "map byte (ID (Meta a)) \<noteq> map byte (ID (Meta b))" by (simp add: map_byte_inj)
  then show ?case
    using less_linear [of "map byte (ID (Meta a))" "map byte (ID (Meta b))"]
    by (auto simp: string_compare_cmp3 cmp3_def)
next
  case (Cons s ss)
  then show ?case using lessByOrderKey_swap [of g sc a b s] by (auto simp: case_prod_beta)
qed

lemma LessByOrder_irrefl: "\<not> LessByOrder g sc a a specs"
proof (induction specs)
  case (Cons s ss)
  then show ?case using lessByOrderKey_swap(2) [of g sc a a s] by (auto simp: case_prod_beta)
qed (simp add: string_compare_cmp3 cmp3_def)

subsection \<open>Properties\<close>

text \<open>C23: the sort order is irreflexive and total on entities with distinct identifiers, whatever the sort keys, their
  kinds and directions, and whatever values are missing: of two such entities exactly one comes first. It is
  transitive on entities none of whose keys reads as NaN, so there it is a strict total order.\<close>

theorem LessByOrder_total:
  "\<not> LessByOrder g sc a a specs
   \<and> (ID (Meta a) \<noteq> ID (Meta b) \<longrightarrow> (LessByOrder g sc a b specs \<longleftrightarrow> \<not> LessByOrder g sc b a specs))
   \<and> (number_keys g sc specs a \<and> number_keys g sc specs b \<and> number_keys g sc specs c
      \<and> LessByOrder g sc a b specs \<and> LessByOrder g sc b c specs \<longrightarrow> LessByOrder g sc a c specs)"
proof (intro conjI impI)
  show "\<not> LessByOrder g sc a a specs" by (rule LessByOrder_irrefl)
  show "LessByOrder g sc a b specs \<longleftrightarrow> \<not> LessByOrder g sc b a specs" if "ID (Meta a) \<noteq> ID (Meta b)"
    using that by (rule LessByOrder_swap)
  show "LessByOrder g sc a c specs"
    if "number_keys g sc specs a \<and> number_keys g sc specs b \<and> number_keys g sc specs c
      \<and> LessByOrder g sc a b specs \<and> LessByOrder g sc b c specs"
    using that ord.less_le_trans [of g sc specs a b c] LessByOrder_cmp [of g sc specs a b]
      LessByOrder_cmp [of g sc specs b c] LessByOrder_cmp [of g sc specs a c] by simp
qed

definition sample_entity :: "string \<Rightarrow> json \<Rightarrow> json Entity" where
  "sample_entity i d = \<lparr>Meta = zero_meta\<lparr>ID := i\<rparr>, Data = d\<rparr>"

definition sample_scalar :: "(json option, int) scalar" where
  "sample_scalar = \<lparr>sc_Float = (\<lambda>r. case r of Some (JString s) \<Rightarrow> if s = ''NaN'' then NaN else Flt 0 | Some (JNumber n) \<Rightarrow> Flt (int (dec_val n)) | _ \<Rightarrow> Flt 0), sc_Bool = (\<lambda>r. r = Some JTrue),
     sc_String = (\<lambda>r. case r of Some (JString s) \<Rightarrow> s | _ \<Rightarrow> []), sc_Num = (\<lambda>r. Flt 0),
     sc_of_string = (\<lambda>s. Some (JString s)), sc_of_int = (\<lambda>n. None)\<rparr>"

definition number_spec :: OrderSpec where
  "number_spec = \<lparr>os_Path = ''n'', os_Source = SourceData, os_Desc = False, os_Kind = OrderNumeric\<rparr>"

definition number_entity :: "string \<Rightarrow> json \<Rightarrow> json Entity" where
  "number_entity i v = sample_entity i (JObject [(''n'', v)])"

text \<open>With a stored string that parses as NaN the order has a cycle.\<close>

lemma LessByOrder_NaN_cycle:
  "LessByOrder tree_gj sample_scalar (number_entity ''a'' (JNumber ''2'')) (number_entity ''b'' (JString ''NaN'')) [number_spec]
   \<and> LessByOrder tree_gj sample_scalar (number_entity ''b'' (JString ''NaN'')) (number_entity ''c'' (JNumber ''1'')) [number_spec]
   \<and> LessByOrder tree_gj sample_scalar (number_entity ''c'' (JNumber ''1'')) (number_entity ''a'' (JNumber ''2'')) [number_spec]"
  by code_simp

theorem LessByOrder_total_witness:
  "LessByOrder tree_gj sample_scalar (number_entity ''c'' (JNumber ''1'')) (number_entity ''b'' (JNumber ''3'')) [number_spec]
   \<and> \<not> LessByOrder tree_gj sample_scalar (number_entity ''b'' (JNumber ''3'')) (number_entity ''c'' (JNumber ''1'')) [number_spec]"
proof -
  let ?a = "number_entity ''c'' (JNumber ''1'')" and ?b = "number_entity ''a'' (JNumber ''2'')" and ?c = "number_entity ''b'' (JNumber ''3'')"
  have "number_keys tree_gj sample_scalar [number_spec] ?a" "number_keys tree_gj sample_scalar [number_spec] ?b"
    "number_keys tree_gj sample_scalar [number_spec] ?c" "LessByOrder tree_gj sample_scalar ?a ?b [number_spec]"
    "LessByOrder tree_gj sample_scalar ?b ?c [number_spec]" by code_simp+
  moreover have "ID (Meta ?a) \<noteq> ID (Meta ?c)" by (simp add: number_entity_def sample_entity_def)
  ultimately show ?thesis
    using LessByOrder_total [of tree_gj sample_scalar ?a "[number_spec]" ?b ?c] LessByOrder_total [of tree_gj sample_scalar ?a "[number_spec]" ?c ?b]
    by blast
qed

text \<open>a declared type list has an ordering class exactly when some member is not NULL and all such
  members fall into that one class; the order of the list and NULL members do not matter.\<close>

theorem ClassifyType_exact:
  "ClassifyType types = Ok k \<longleftrightarrow>
     (\<exists>t. t \<in> set types \<and> t \<noteq> Null) \<and> scalarClass ` (set types - {Null}) \<subseteq> {Ok k}"
  unfolding ClassifyType_def ClassifyTypesFold_spec by auto

end
