(* ===== verification/Merges.thy ===== *)
theory Merges
  imports Ordering "HOL-Library.Multiset"
begin

text \<open>
  The k-way merges of a committed stream with a transaction's buffered writes (\<open>merge_bounded.go\<close>,
  \<open>merge_ordered.go\<close>), and the sequential save (\<open>default_save_all.go\<close>). A pull function is the list of
  what its calls return, an error last; after the end it keeps answering that there is no more.
  Results: for a limit below the greatest \<open>int\<close> a bounded merge fails exactly when more than the limit
  survives, and otherwise returns all survivors, in order if no key reads as NaN; the streaming merge yields the ordered union in which buffered writes shadow.
\<close>

subsection \<open>Pull streams\<close>

type_synonym ('e, 'a) stream = "('e + 'a) list"

text \<open>\<open>advance\<close>: the next committed row that is not deleted, buffered one ahead.\<close>

fun advance :: "(string \<Rightarrow> bool) \<Rightarrow> ('e, 'd Entity) stream \<Rightarrow> 'e + 'd Entity option \<times> ('e, 'd Entity) stream" where
  "advance del [] = Ok (None, [])"
| "advance del (Inl err # s) = Err err"
| "advance del (Inr e # s) = (if del (ID (Meta e)) then advance del s else Ok (Some e, s))"

datatype 'e merge_error = BadLimit | StreamError 'e | ErrSearchResultLimitExceeded nat

subsection \<open>The bounded merge\<close>

lemma advance_length: "advance del s = Ok (Some e, s') \<Longrightarrow> length s' < length s"
  by (induction del s rule: advance.induct) (auto split: if_splits)

lemma advance_None: "advance del s = Ok (None, s') \<Longrightarrow> s' = []"
  by (induction del s rule: advance.induct) (auto split: if_splits)

text \<open>The merge loop; \<open>room\<close> is how many rows \<open>out\<close> may still take before it holds \<open>need\<close>.\<close>

function merge_loop ::
  "('d Entity \<Rightarrow> 'd Entity \<Rightarrow> bool) \<Rightarrow> (string \<Rightarrow> bool) \<Rightarrow> nat \<Rightarrow> 'd Entity list \<Rightarrow> 'd Entity option
    \<Rightarrow> ('e, 'd Entity) stream \<Rightarrow> 'd Entity list \<Rightarrow> 'e + 'd Entity list" where
  "merge_loop lt del need adds cur s out =
     (case (cur, adds) of
        (None, []) \<Rightarrow> Ok out
      | (None, a # as) \<Rightarrow>
          if length out + 1 \<ge> need then Ok (out @ [a])
          else merge_loop lt del need as None s (out @ [a])
      | (Some c, []) \<Rightarrow>
          (case advance del s of
             Inl err \<Rightarrow> Err err
           | Inr (cur', s') \<Rightarrow>
               if length out + 1 \<ge> need then Ok (out @ [c])
               else merge_loop lt del need [] cur' s' (out @ [c]))
      | (Some c, a # as) \<Rightarrow>
          if lt a c then
            (if length out + 1 \<ge> need then Ok (out @ [a])
             else merge_loop lt del need as (Some c) s (out @ [a]))
          else
            (case advance del s of
               Inl err \<Rightarrow> Err err
             | Inr (cur', s') \<Rightarrow>
                 if length out + 1 \<ge> need then Ok (out @ [c])
                 else merge_loop lt del need (a # as) cur' s' (out @ [c])))"
  by pat_completeness auto
termination by (relation "measure (\<lambda>(lt, del, need, adds, cur, s, out). need - length out)") auto

declare merge_loop.simps [simp del]

text \<open>
  A nil \<open>deleted\<close> deletes nothing, so it is the constant \<open>False\<close>. \<open>need\<close> is an \<open>int\<close> and wraps at the greatest limit;
  a negative \<open>need\<close> is reached by any length, as zero is.
\<close>

definition MergeBounded ::
  "('d, 'r) gj \<Rightarrow> ('r, 'f::linorder) scalar \<Rightarrow> ('e, 'd Entity) stream \<Rightarrow> 'd Entity list
    \<Rightarrow> (string \<Rightarrow> bool) \<Rightarrow> OrderSpec list \<Rightarrow> int \<Rightarrow> 'e merge_error + 'd Entity list" where
  "MergeBounded g sc s adds del specs limit =
     (if limit \<le> 0 then Err BadLimit
      else
        (case advance del s of
           Inl err \<Rightarrow> Err (StreamError err)
         | Inr (cur, s') \<Rightarrow>
             (case merge_loop (\<lambda>a b. LessByOrder g sc a b specs) del (nat (i64 (limit + 1))) adds cur s' [] of
                Inl err \<Rightarrow> Err (StreamError err)
              | Inr out \<Rightarrow>
                  if int (length out) > limit then Err (ErrSearchResultLimitExceeded (length out))
                  else Ok out)))"

subsection \<open>The rows of a stream\<close>

text \<open>What survives of a stream that does not fail.\<close>

definition rows :: "'d Entity list \<Rightarrow> ('e, 'd Entity) stream" where
  "rows es = map Inr es"

definition survivors :: "(string \<Rightarrow> bool) \<Rightarrow> 'd Entity list \<Rightarrow> 'd Entity list" where
  "survivors del es = filter (\<lambda>e. \<not> del (ID (Meta e))) es"

text \<open>The reference merge of two lists.\<close>

fun merge_lists :: "('a \<Rightarrow> 'a \<Rightarrow> bool) \<Rightarrow> 'a list \<Rightarrow> 'a list \<Rightarrow> 'a list" where
  "merge_lists lt [] cs = cs"
| "merge_lists lt as [] = as"
| "merge_lists lt (a # as) (c # cs) =
     (if lt a c then a # merge_lists lt as (c # cs) else c # merge_lists lt (a # as) cs)"

lemma advance_rows:
  "\<exists>es'. advance del (rows es) = Ok (case survivors del es of [] \<Rightarrow> None | c # _ \<Rightarrow> Some c, rows es')
     \<and> survivors del es' = tl (survivors del es)"
  by (induction es) (auto simp: rows_def survivors_def)

definition pending :: "(string \<Rightarrow> bool) \<Rightarrow> 'd Entity option \<Rightarrow> 'd Entity list \<Rightarrow> 'd Entity list" where
  "pending del cur es = (case cur of None \<Rightarrow> survivors del es | Some c \<Rightarrow> c # survivors del es)"

lemma merge_loop_rows:
  "length out < need \<Longrightarrow> (cur = None \<Longrightarrow> survivors del es = []) \<Longrightarrow>
   (merge_loop lt del need adds cur (rows es) out :: 'e + 'd Entity list) =
     Ok (out @ take (need - length out) (merge_lists lt adds (pending del cur es)))"
proof (induction "need - length out" arbitrary: adds cur es out)
  case (Suc n)
  have ih: "(merge_loop lt del need adds' cur' (rows es') (out @ [x]) :: 'e + 'd Entity list) =
      Ok (out @ take (need - length out) (x # merge_lists lt adds' (pending del cur' es')))"
    if "length out + 1 < need" "cur' = None \<Longrightarrow> survivors del es' = []" for adds' cur' es' x
  proof -
    have "n = need - length (out @ [x])" using Suc.hyps(2) by simp
    moreover obtain k where "need - length out = Suc k" "need - length (out @ [x]) = k"
      using that(1) by (metis Suc.hyps(2) calculation)
    ultimately show ?thesis using Suc.hyps(1) [of "out @ [x]" cur' es' adds'] that by simp
  qed
  have last: "take (need - length out) (x # xs) = [x]" if "\<not> length out + 1 < need" for x and xs :: "'d Entity list"
  proof -
    have "need - length out = 1" using that Suc.prems(1) by simp
    then show ?thesis by simp
  qed
  show ?case
  proof (cases cur)
    case None
    then have p: "pending del cur es = []" using Suc.prems(2) by (simp add: pending_def)
    show ?thesis
    proof (cases adds)
      case Nil
      then show ?thesis using None p by (subst merge_loop.simps) simp
    next
      case (Cons a as)
      have ml: "merge_lists lt adds [] = a # merge_lists lt as []" using Cons by (cases as) auto
      show ?thesis
        using Cons None p ml ih [of None es as a] last [of a] Suc.prems(2)
        by (subst merge_loop.simps) (auto simp: pending_def)
    qed
  next
    case (Some c)
    obtain es' where es': "advance del (rows es) =
        (Ok (case survivors del es of [] \<Rightarrow> None | c # _ \<Rightarrow> Some c, rows es') :: 'e + _)"
      "survivors del es' = tl (survivors del es)" using advance_rows by blast
    let ?cur' = "case survivors del es of [] \<Rightarrow> None | c # _ \<Rightarrow> Some c"
    have p': "pending del ?cur' es' = survivors del es" and n': "?cur' = None \<Longrightarrow> survivors del es' = []"
      using es'(2) by (auto simp: pending_def split: list.splits)
    have p: "pending del cur es = c # survivors del es" using Some by (simp add: pending_def)
    show ?thesis
    proof (cases adds)
      case Nil
      have ml: "merge_lists lt [] (c # survivors del es) = c # merge_lists lt [] (pending del ?cur' es')"
        by (simp add: p')
      show ?thesis
        using Nil Some p ml ih [where cur' = ?cur' and es' = es' and adds' = "[]" and x = c] n' last [of c] es'(1)
        by (subst merge_loop.simps) (simp add: p' del: merge_lists.simps(1))
    next
      case (Cons a as)
      show ?thesis
        using Cons Some p ih [where cur' = ?cur' and es' = es' and adds' = adds and x = c] n'
          ih [where cur' = cur and es' = es and adds' = as and x = a] last [of c] last [of a] es'(1) p'
        by (subst merge_loop.simps) (auto simp: pending_def)
    qed
  qed
qed simp

abbreviation MaxInt :: int where "MaxInt \<equiv> 9223372036854775807"

lemma need_of: "0 < limit \<Longrightarrow> limit < MaxInt \<Longrightarrow> nat (i64 (limit + 1)) = nat limit + 1"
  by (subst i64_id) (simp_all add: nat_add_distrib)

lemma MergeBounded_rows:
  assumes "0 < limit" "limit < MaxInt"
  shows "(MergeBounded g sc (rows es) adds del specs limit :: 'e merge_error + 'd Entity list) =
    (let all = merge_lists (\<lambda>a b. LessByOrder g sc a b specs) adds (survivors del es) in
     if int (length all) > limit then Err (ErrSearchResultLimitExceeded (nat limit + 1)) else Ok all)"
proof -
  obtain es' where es': "advance del (rows es) =
      (Ok (case survivors del es of [] \<Rightarrow> None | c # _ \<Rightarrow> Some c, rows es') :: 'e + _)"
    "survivors del es' = tl (survivors del es)" using advance_rows by blast
  let ?cur' = "case survivors del es of [] \<Rightarrow> None | c # _ \<Rightarrow> Some c"
  have p': "pending del ?cur' es' = survivors del es" and n': "?cur' = None \<Longrightarrow> survivors del es' = []"
    using es'(2) by (auto simp: pending_def split: list.splits)
  let ?lt = "\<lambda>a b. LessByOrder g sc a b specs"
  have "merge_loop ?lt del (nat limit + 1) adds ?cur' (rows es') [] =
      (Ok (take (nat limit + 1) (merge_lists ?lt adds (survivors del es))) :: 'e + _)"
    using merge_loop_rows [of "[]" "nat limit + 1" ?cur' del es' ?lt adds] n' p' by simp
  then show ?thesis using assms es'(1) by (auto simp: MergeBounded_def need_of Let_def min_def)
qed

subsection \<open>What the reference merge keeps\<close>

lemma merge_lists_mset: "mset (merge_lists lt as cs) = mset as + mset cs"
  by (induction lt as cs rule: merge_lists.induct) auto

lemma merge_lists_set: "set (merge_lists lt as cs) = set as \<union> set cs"
  by (metis merge_lists_mset set_mset_mset set_mset_union)

lemma merge_lists_length: "length (merge_lists lt as cs) = length as + length cs"
  by (metis merge_lists_mset size_mset size_union)

text \<open>Rows are in order when none sorts strictly before an earlier one.\<close>

definition in_order ::
  "('d, 'r) gj \<Rightarrow> ('r, 'f::linorder) scalar \<Rightarrow> OrderSpec list \<Rightarrow> 'd Entity list \<Rightarrow> bool" where
  "in_order g sc specs xs = sorted_wrt (\<lambda>a b. \<not> LessByOrder g sc b a specs) xs"

text \<open>Sorted inputs: nothing comes after something that it precedes.\<close>

context weak_cmp
begin

lemma merge_lists_sorted:
  "sorted_wrt (\<lambda>a b. c a b \<le> 0) as \<Longrightarrow> sorted_wrt (\<lambda>a b. c a b \<le> 0) cs \<Longrightarrow>
   sorted_wrt (\<lambda>a b. c a b \<le> 0) (merge_lists (\<lambda>a b. c a b < 0) as cs)"
proof (induction "\<lambda>a b. c a b < 0" as cs rule: merge_lists.induct)
  case (3 a as e cs)
  have "c a y \<le> 0" if "c a e < 0" "y \<in> set as \<union> set (e # cs)" for y
    using that 3(3,4) trans [of a e y] by (auto simp: le_less)
  moreover have "c e y \<le> 0" if "\<not> c a e < 0" "y \<in> set (a # as) \<union> set cs" for y
  proof -
    have "c e a \<le> 0" using that(1) le_swap [of e a] by simp
    then show ?thesis using that(2) 3(3,4) trans [of e a y] by auto
  qed
  ultimately show ?case using 3 by (cases "c a e < 0") (simp_all add: merge_lists_set)
qed simp_all

end

lemma advance_failing:
  "advance del s = Ok (cur, s') \<Longrightarrow> Inl err \<in> set s \<Longrightarrow> Inl err \<in> set s' \<and> cur \<noteq> None"
  by (induction del s rule: advance.induct) (auto split: if_splits)

lemma merge_loop_failing:
  "merge_loop lt del need adds cur s out = Ok res \<Longrightarrow> Inl err \<in> set s \<Longrightarrow> cur \<noteq> None \<Longrightarrow>
   need \<le> length res"
proof (induction "need - length out" arbitrary: adds cur s out rule: less_induct)
  case less
  obtain e where cur: "cur = Some e" using less.prems(3) by blast
  have take: "need \<le> length res"
    if "(if length out + 1 \<ge> need then Ok (out @ [x]) else merge_loop lt del need adds' cur' s' (out @ [x])) = Ok res"
      "Inl err \<in> set s'" "cur' \<noteq> None" for x adds' cur' s'
    using that less.hyps [of "out @ [x]" adds' cur' s'] by (auto split: if_splits)
  have pull: "need \<le> length res"
    if "(case advance del s of Inl err \<Rightarrow> Err err
         | Inr (cur', s') \<Rightarrow> if length out + 1 \<ge> need then Ok (out @ [e])
             else merge_loop lt del need adds' cur' s' (out @ [e])) = Ok res" for adds'
    using that take [of e adds'] advance_failing [OF _ less.prems(2)]
    by (auto split: sum.splits prod.splits simp del: not_None_eq)
  show ?case
  proof (cases adds)
    case Nil
    then show ?thesis using less.prems(1) cur pull by (subst (asm) merge_loop.simps) simp
  next
    case (Cons a as)
    then show ?thesis using less.prems cur pull take
      by (subst (asm) merge_loop.simps) (auto split: if_splits)
  qed
qed

lemma merge_lists_cong:
  "(\<And>a c. a \<in> set as \<Longrightarrow> c \<in> set cs \<Longrightarrow> lt a c = lt' a c) \<Longrightarrow> merge_lists lt as cs = merge_lists lt' as cs"
  by (induction lt as cs rule: merge_lists.induct) auto

lemma in_order_cmp:
  assumes "list_all (number_keys g sc specs) xs"
  shows "in_order g sc specs xs \<longleftrightarrow> sorted_wrt (\<lambda>a b. order_cmp g sc specs a b \<le> 0) xs"
proof -
  have "\<not> LessByOrder g sc b a specs \<longleftrightarrow> order_cmp g sc specs a b \<le> 0" if "a \<in> set xs" "b \<in> set xs" for a b
    using that assms by (simp add: list_all_iff LessByOrder_cmp ord.le_swap [of g sc specs a b] not_less)
  then show ?thesis unfolding in_order_def by (auto intro: sorted_wrt_mono_rel [rotated])
qed

lemma merge_lists_ordered:
  assumes "in_order g sc specs as" "in_order g sc specs cs" and keys: "list_all (number_keys g sc specs) (as @ cs)"
  shows "in_order g sc specs (merge_lists (\<lambda>a b. LessByOrder g sc a b specs) as cs)"
proof -
  have m: "merge_lists (\<lambda>a b. LessByOrder g sc a b specs) as cs = merge_lists (\<lambda>a b. order_cmp g sc specs a b < 0) as cs"
    using keys by (intro merge_lists_cong) (auto simp: list_all_iff LessByOrder_cmp)
  have k: "list_all (number_keys g sc specs) (merge_lists (\<lambda>a b. order_cmp g sc specs a b < 0) as cs)"
    using keys by (simp add: list_all_iff merge_lists_set)
  show ?thesis
    unfolding m in_order_cmp [OF k] using assms ord.merge_lists_sorted [of g sc specs as cs] by (simp add: in_order_cmp)
qed

lemma in_order_survivors: "in_order g sc specs es \<Longrightarrow> in_order g sc specs (survivors del es)"
  by (simp add: in_order_def survivors_def sorted_wrt_filter)

subsection \<open>The streaming merge\<close>

text \<open>
  \<open>MergeOrdered\<close> returns a closure; its captured variables are a state record, one call of it is
  \<open>mo_next\<close>. The slice \<open>adds[ai:]\<close> is \<open>mo_adds\<close>, and the source answers from \<open>mo_src\<close>.
\<close>

record ('e, 'd) mo_state =
  mo_adds :: "'d Entity list"
  mo_cur :: "'d Entity option"
  mo_pendingErr :: "'e option"
  mo_started :: bool
  mo_src :: "('e, 'd Entity) stream"

definition MergeOrdered :: "('e, 'd Entity) stream \<Rightarrow> 'd Entity list \<Rightarrow> ('e, 'd) mo_state" where
  "MergeOrdered s adds = \<lparr>mo_adds = adds, mo_cur = None, mo_pendingErr = None, mo_started = False, mo_src = s\<rparr>"

fun mo_advance :: "(string \<Rightarrow> bool) \<Rightarrow> ('e, 'd) mo_state \<Rightarrow> ('e, 'd) mo_state" where
  "mo_advance del st =
     (case advance del (mo_src st) of
        Inl err \<Rightarrow> st\<lparr>mo_cur := None, mo_pendingErr := Some err, mo_src := []\<rparr>
      | Inr (cur, s') \<Rightarrow> st\<lparr>mo_cur := cur, mo_src := s'\<rparr>)"

definition mo_next ::
  "('d Entity \<Rightarrow> 'd Entity \<Rightarrow> int) \<Rightarrow> (string \<Rightarrow> bool) \<Rightarrow> ('e, 'd) mo_state
    \<Rightarrow> ('e + 'd Entity option) \<times> ('e, 'd) mo_state" where
  "mo_next c del st0 =
     (let st = (if mo_started st0 then st0 else mo_advance del (st0\<lparr>mo_started := True\<rparr>)) in
      case mo_pendingErr st of
        Some err \<Rightarrow> (Err err, st)
      | None \<Rightarrow>
          (case (mo_cur st, mo_adds st) of
             (Some x, a # as) \<Rightarrow>
               if c a x \<le> 0 then
                 (let st1 = st\<lparr>mo_adds := as\<rparr> in
                  (Ok (Some a), if c a x = 0 then mo_advance del st1 else st1))
               else (Ok (Some x), mo_advance del st)
           | (None, a # as) \<Rightarrow> (Ok (Some a), st\<lparr>mo_adds := as\<rparr>)
           | (Some x, []) \<Rightarrow> (Ok (Some x), mo_advance del st)
           | (None, []) \<Rightarrow> (Ok None, st)))"

text \<open>What \<open>n\<close> successive calls return.\<close>

fun pulls ::
  "('d Entity \<Rightarrow> 'd Entity \<Rightarrow> int) \<Rightarrow> (string \<Rightarrow> bool) \<Rightarrow> nat \<Rightarrow> ('e, 'd) mo_state
    \<Rightarrow> ('e + 'd Entity option) list" where
  "pulls c del 0 st = []"
| "pulls c del (Suc n) st = (let (r, st') = mo_next c del st in r # pulls c del n st')"

text \<open>The abstract stream: the rows that are not deleted up to the first error, overlaid by the adds.\<close>

fun live :: "(string \<Rightarrow> bool) \<Rightarrow> ('e, 'd Entity) stream \<Rightarrow> ('e, 'd Entity) stream" where
  "live del [] = []"
| "live del (Inl err # s) = [Inl err]"
| "live del (Inr x # s) = (if del (ID (Meta x)) then live del s else Inr x # live del s)"

fun overlay :: "('a \<Rightarrow> 'a \<Rightarrow> int) \<Rightarrow> 'a list \<Rightarrow> ('e, 'a) stream \<Rightarrow> ('e, 'a) stream" where
  "overlay c as (Inl err # s) = [Inl err]"
| "overlay c [] [] = []"
| "overlay c (a # as) [] = Inr a # overlay c as []"
| "overlay c [] (Inr x # s) = Inr x # overlay c [] s"
| "overlay c (a # as) (Inr x # s) =
     (if c a x \<le> 0 then Inr a # overlay c as (if c a x = 0 then s else Inr x # s)
      else Inr x # overlay c (a # as) s)"

text \<open>A list as a pull stream: the end and an error are answered for ever.\<close>

fun pull :: "('e, 'a) stream \<Rightarrow> ('e + 'a option) \<times> ('e, 'a) stream" where
  "pull [] = (Ok None, [])"
| "pull (Inl err # s) = (Err err, [Inl err])"
| "pull (Inr x # s) = (Ok (Some x), s)"

definition mo_live :: "(string \<Rightarrow> bool) \<Rightarrow> ('e, 'd) mo_state \<Rightarrow> ('e, 'd Entity) stream" where
  "mo_live del st =
     (if \<not> mo_started st then live del (mo_src st)
      else case mo_pendingErr st of
             Some err \<Rightarrow> [Inl err]
           | None \<Rightarrow> (case mo_cur st of None \<Rightarrow> [] | Some x \<Rightarrow> Inr x # live del (mo_src st)))"

definition mo_abs ::
  "('d Entity \<Rightarrow> 'd Entity \<Rightarrow> int) \<Rightarrow> (string \<Rightarrow> bool) \<Rightarrow> ('e, 'd) mo_state \<Rightarrow> ('e, 'd Entity) stream" where
  "mo_abs c del st = overlay c (mo_adds st) (mo_live del st)"

lemma live_advance:
  "live del s = (case advance del s of Inl err \<Rightarrow> [Inl err] | Inr (None, s') \<Rightarrow> []
                 | Inr (Some x, s') \<Rightarrow> Inr x # live del s')"
  by (induction del s rule: advance.induct) auto

lemma mo_advance_live:
  assumes "mo_started st" "mo_pendingErr st = None"
  shows "mo_live del (mo_advance del st) = live del (mo_src st)"
    "mo_adds (mo_advance del st) = mo_adds st"
    "mo_started (mo_advance del st)"
  using assms live_advance [of del "mo_src st"]
  by (auto simp: mo_live_def split: sum.splits option.splits)

declare mo_advance.simps [simp del]

text \<open>Before the first call there is no error and no current row.\<close>

definition mo_ok :: "('e, 'd) mo_state \<Rightarrow> bool" where
  "mo_ok st = (mo_started st \<or> mo_pendingErr st = None \<and> mo_cur st = None)"

lemma mo_next_started:
  assumes "mo_started st"
  shows "(let (r, st') = mo_next c del st in (r, mo_abs c del st')) = pull (mo_abs c del st)
    \<and> mo_started (snd (mo_next c del st))"
proof (cases "mo_pendingErr st")
  case None
  then show ?thesis
    using assms mo_advance_live [OF assms None] mo_advance_live [of "st\<lparr>mo_adds := tl (mo_adds st)\<rparr>"]
    by (cases "mo_cur st"; cases "mo_adds st") (auto simp: mo_next_def mo_abs_def mo_live_def Let_def)
qed (use assms in \<open>simp add: mo_next_def mo_abs_def mo_live_def\<close>)

lemma mo_next_abs:
  assumes "mo_ok st"
  shows "(let (r, st') = mo_next c del st in (r, mo_abs c del st')) = pull (mo_abs c del st)
    \<and> mo_ok (snd (mo_next c del st))"
proof (cases "mo_started st")
  case True
  then show ?thesis using mo_next_started [OF True, of c del] by (simp add: mo_ok_def)
next
  case False
  let ?st = "mo_advance del (st\<lparr>mo_started := True\<rparr>)"
  have err: "mo_pendingErr st = None" using assms False by (simp add: mo_ok_def)
  have st: "mo_started ?st" "mo_abs c del ?st = mo_abs c del st"
    using False mo_advance_live [of "st\<lparr>mo_started := True\<rparr>" del] err by (simp_all add: mo_abs_def mo_live_def)
  moreover have "mo_next c del st = mo_next c del ?st" using False st(1) by (simp add: mo_next_def)
  ultimately show ?thesis using mo_next_started [of ?st c del] by (simp add: mo_ok_def)
qed

fun pull_n :: "nat \<Rightarrow> ('e, 'a) stream \<Rightarrow> ('e + 'a option) list" where
  "pull_n 0 s = []"
| "pull_n (Suc n) s = (let (r, s') = pull s in r # pull_n n s')"

lemma pulls_abs: "mo_ok st \<Longrightarrow> pulls c del n st = pull_n n (mo_abs c del st)"
proof (induction n arbitrary: st)
  case (Suc n)
  show ?case using mo_next_abs [OF Suc.prems, of c del] Suc.IH [of "snd (mo_next c del st)"]
    by (cases "mo_next c del st"; cases "pull (mo_abs c del st)") (auto simp: Let_def)
qed simp

lemma replicate_pos: "k < n \<Longrightarrow> replicate (n - k) x = x # replicate (n - Suc k) x"
  by (metis Suc_diff_Suc replicate_Suc)

lemma pull_n_rows: "pull_n n (map Inr zs) = take n (map (Ok \<circ> Some) zs @ replicate n (Ok None))"
proof (induction n arbitrary: zs)
  case (Suc n)
  show ?case using Suc.IH [of "[]"] Suc.IH [of "tl zs"]
    by (cases zs) (auto simp: take_Cons' min_def replicate_pos)
qed simp

lemma pull_n_failing:
  "pull_n n (map Inr zs @ [Inl err]) = take n (map (Ok \<circ> Some) zs @ replicate n (Err err))"
proof (induction n arbitrary: zs)
  case (Suc n)
  show ?case using Suc.IH [of "[]"] Suc.IH [of "tl zs"]
    by (cases zs) (auto simp: take_Cons' min_def replicate_pos)
qed simp

context weak_cmp
begin

definition strict :: "'a list \<Rightarrow> bool" where
  "strict xs = sorted_wrt (\<lambda>a b. c a b < 0) xs"

text \<open>What an overlay of the rows \<open>cs\<close> yields before its tail \<open>t\<close>, which is empty or an error.\<close>

definition overlaid :: "'a list \<Rightarrow> 'a list \<Rightarrow> ('e, 'a) stream \<Rightarrow> 'a list \<Rightarrow> bool" where
  "overlaid as cs t zs \<longleftrightarrow> overlay c as (map Inr cs @ t) = map Inr zs @ t \<and> strict zs
    \<and> set zs = {a \<in> set as. t = [] \<or> (\<exists>x\<in>set cs. c a x \<le> 0)} \<union> {x \<in> set cs. \<forall>a\<in>set as. c a x \<noteq> 0}"

lemma overlaid_empty: "strict as \<Longrightarrow> t = [] \<or> (\<exists>err. t = [Inl err]) \<Longrightarrow> \<exists>zs. overlaid as [] t zs"
proof (induction as)
  case (Cons a as)
  then obtain zs where zs: "overlaid as [] t zs" by (auto simp: strict_def)
  show ?case
  proof (cases "t = []")
    case True
    then have "overlaid (a # as) [] t (a # zs)" using zs Cons.prems by (auto simp: overlaid_def strict_def)
    then show ?thesis by blast
  next
    case False
    then have "overlaid (a # as) [] t []" using Cons.prems by (auto simp: overlaid_def strict_def)
    then show ?thesis by blast
  qed
next
  case Nil
  then have "overlaid [] [] t []" by (auto simp: overlaid_def strict_def)
  then show ?case by blast
qed

text \<open>The three steps: the overlay goes first, shadows the row, or comes after it.\<close>

lemma overlaid_add:
  assumes zs: "overlaid as (x # cs) t zs" and a: "\<forall>b \<in> set as. c a b < 0" and x: "\<forall>y \<in> set cs. c x y < 0"
    and ax: "c a x < 0"
  shows "overlaid (a # as) (x # cs) t (a # zs)"
proof -
  have lt: "c a y < 0" if "y \<in> set (x # cs)" for y using that ax x less_le_trans [of a x y] by force
  have "strict (a # zs)" using zs lt a by (auto simp: overlaid_def strict_def)
  moreover have "{b \<in> set (a # as). t = [] \<or> (\<exists>y\<in>set (x # cs). c b y \<le> 0)} =
      insert a {b \<in> set as. t = [] \<or> (\<exists>y\<in>set (x # cs). c b y \<le> 0)}"
    "{y \<in> set (x # cs). \<forall>b\<in>set (a # as). c b y \<noteq> 0} = {y \<in> set (x # cs). \<forall>b\<in>set as. c b y \<noteq> 0}"
    using ax lt by force+
  ultimately show ?thesis using zs ax by (simp add: overlaid_def)
qed

lemma overlaid_shadow:
  assumes zs: "overlaid as cs t zs" and a: "\<forall>b \<in> set as. c a b < 0" and x: "\<forall>y \<in> set cs. c x y < 0"
    and ax: "c a x = 0"
  shows "overlaid (a # as) (x # cs) t (a # zs)"
proof -
  have lt: "c a y < 0" if "y \<in> set cs" for y using that ax x le_less_trans [of a x y] by simp
  have up: "\<not> c b x \<le> 0" if "b \<in> set as" for b
    using a that ax pos_iff [of b a] less_le_trans [of a b x] by force
  have "strict (a # zs)" using zs lt a by (auto simp: overlaid_def strict_def)
  moreover have "{b \<in> set (a # as). t = [] \<or> (\<exists>y\<in>set (x # cs). c b y \<le> 0)} =
      insert a {b \<in> set as. t = [] \<or> (\<exists>y\<in>set cs. c b y \<le> 0)}"
    using ax up by auto
  moreover have "{y \<in> set (x # cs). \<forall>b\<in>set (a # as). c b y \<noteq> 0} = {y \<in> set cs. \<forall>b\<in>set as. c b y \<noteq> 0}"
    using ax lt by force
  ultimately show ?thesis using zs ax by (simp add: overlaid_def)
qed

lemma overlaid_row:
  assumes zs: "overlaid (a # as) cs t zs" and a: "\<forall>b \<in> set as. c a b < 0" and x: "\<forall>y \<in> set cs. c x y < 0"
    and ax: "0 < c a x"
  shows "overlaid (a # as) (x # cs) t (x # zs)"
proof -
  have gt: "c x b < 0" if "b \<in> set (a # as)" for b
    using that a ax pos_iff [of a x] less_le_trans [of x a b] by force
  then have ne: "\<not> c b x \<le> 0" if "b \<in> set (a # as)" for b using that pos_iff [of b x] by force
  have "strict (x # zs)" using zs x gt by (auto simp: overlaid_def strict_def)
  moreover have "{b \<in> set (a # as). t = [] \<or> (\<exists>y\<in>set (x # cs). c b y \<le> 0)} =
      {b \<in> set (a # as). t = [] \<or> (\<exists>y\<in>set cs. c b y \<le> 0)}"
    using ne by auto
  moreover have "{y \<in> set (x # cs). \<forall>b\<in>set (a # as). c b y \<noteq> 0} =
      insert x {y \<in> set cs. \<forall>b\<in>set (a # as). c b y \<noteq> 0}"
    using ne by force
  ultimately show ?thesis using zs ax by (simp add: overlaid_def)
qed

lemma overlaid_rows:
  assumes "strict as" "strict cs" "t = [] \<or> (\<exists>err. t = [Inl err])"
  shows "\<exists>zs. overlaid as cs t zs"
  using assms(1,2)
proof (induction "length as + length cs" arbitrary: as cs rule: less_induct)
  case less
  consider "cs = []" | x cs' where "as = []" "cs = x # cs'" | a as' x cs' where "as = a # as'" "cs = x # cs'"
    by (cases as; cases cs) auto
  then show ?case
  proof cases
    case 1
    then show ?thesis using overlaid_empty less.prems(1) assms(3) by simp
  next
    case 2
    then obtain zs where "overlaid [] cs' t zs" using less.hyps [of "[]" cs'] less.prems by (auto simp: strict_def)
    then have "overlaid [] cs t (x # zs)" using less.prems(2) 2 by (auto simp: overlaid_def strict_def)
    then show ?thesis using 2 by blast
  next
    case 3
    note ih = less.hyps [of as' cs] less.hyps [of as' cs'] less.hyps [of as cs']
    have s: "strict as'" "strict cs'" "\<forall>b \<in> set as'. c a b < 0" "\<forall>y \<in> set cs'. c x y < 0"
      using less.prems 3 by (simp_all add: strict_def)
    consider "c a x < 0" | "c a x = 0" | "0 < c a x" by linarith
    then show ?thesis
      using ih s less.prems 3 overlaid_add [of as' x cs' t] overlaid_shadow [of as' cs' t] overlaid_row [of a as' cs' t]
      by cases (simp; blast)+
  qed
qed

end

lemma live_rows: "live del (rows es @ t) = map Inr (survivors del es) @ live del t"
  by (induction es) (auto simp: rows_def survivors_def)

lemma pulls_MergeOrdered:
  "pulls c del n (MergeOrdered (rows es @ t) adds) =
    pull_n n (overlay c adds (map Inr (survivors del es) @ live del t))"
  using pulls_abs [of "MergeOrdered (rows es @ t) adds"]
  by (simp add: MergeOrdered_def mo_ok_def mo_abs_def mo_live_def live_rows)

subsection \<open>Saving in sequence\<close>

text \<open>\<open>store.Save\<close> acts on the store state \<open>'s\<close> and returns a version; the versions so far come back
  with an error.\<close>

fun DefaultSaveAll_loop ::
  "('s \<Rightarrow> 'd Entity \<Rightarrow> ('e + int) \<times> 's) \<Rightarrow> 's \<Rightarrow> 'd Entity list \<Rightarrow> int list
    \<Rightarrow> (int list \<times> 'e option) \<times> 's" where
  "DefaultSaveAll_loop save st [] versions = ((versions, None), st)"
| "DefaultSaveAll_loop save st (e # es) versions =
     (case save st e of
        (Inl err, st') \<Rightarrow> ((versions, Some err), st')
      | (Inr v, st') \<Rightarrow> DefaultSaveAll_loop save st' es (versions @ [v]))"

definition DefaultSaveAll ::
  "('s \<Rightarrow> 'd Entity \<Rightarrow> ('e + int) \<times> 's) \<Rightarrow> 's \<Rightarrow> 'd Entity list \<Rightarrow> (int list \<times> 'e option) \<times> 's" where
  "DefaultSaveAll save st es = DefaultSaveAll_loop save st es []"

text \<open>The state after saving a list, and the results of each save, whatever they are.\<close>

fun save_each :: "('s \<Rightarrow> 'd Entity \<Rightarrow> ('e + int) \<times> 's) \<Rightarrow> 's \<Rightarrow> 'd Entity list \<Rightarrow> ('e + int) list \<times> 's" where
  "save_each save st [] = ([], st)"
| "save_each save st (e # es) =
     (let (r, st1) = save st e; (rs, st2) = save_each save st1 es in (r # rs, st2))"

lemma DefaultSaveAll_loop_spec:
  "case DefaultSaveAll_loop save st es out of
     ((vs, None), st') \<Rightarrow> \<exists>ws. vs = out @ ws \<and> save_each save st es = (map Inr ws, st')
   | ((vs, Some err), st') \<Rightarrow> \<exists>ws. vs = out @ ws \<and> length ws < length es
       \<and> save_each save st (take (Suc (length ws)) es) = (map Inr ws @ [Inl err], st')"
proof (induction es arbitrary: st out)
  case (Cons e es)
  show ?case
  proof (cases "save st e")
    case (Pair r st1)
    show ?thesis
    proof (cases r)
      case (Inl err)
      then show ?thesis using Pair by simp
    next
      case (Inr v)
      have loop: "DefaultSaveAll_loop save st (e # es) out = DefaultSaveAll_loop save st1 es (out @ [v])"
        using Pair Inr by simp
      obtain vs err st' where res: "DefaultSaveAll_loop save st1 es (out @ [v]) = ((vs, err), st')"
        by (metis surj_pair)
      show ?thesis
      proof (cases err)
        case None
        then obtain ws where "vs = (out @ [v]) @ ws" "save_each save st1 es = (map Inr ws, st')"
          using Cons.IH [where st = st1 and out = "out @ [v]"] res by auto
        then show ?thesis using loop res None Pair Inr by (auto intro: exI [of _ "v # ws"])
      next
        case (Some e')
        then obtain ws where "vs = (out @ [v]) @ ws" "length ws < length es"
          "save_each save st1 (take (Suc (length ws)) es) = (map Inr ws @ [Inl e'], st')"
          using Cons.IH [where st = st1 and out = "out @ [v]"] res by auto
        then show ?thesis using loop res Some Pair Inr by (auto intro: exI [of _ "v # ws"])
      qed
    qed
  qed
qed simp

text \<open>C21: given committed rows and buffered adds in sort order and a positive limit below the greatest \<open>int\<close>, the
  bounded merge returns every surviving row and every add when they are no more than the limit, and otherwise
  refuses with the limit error: it never returns a truncated prefix. What it returns is in sort order, if no
  sort key of a row reads as NaN.\<close>

theorem MergeBounded_exact:
  assumes "0 < limit" "limit < MaxInt" "in_order g sc specs adds" "in_order g sc specs es"
  shows "if int (length adds + length (survivors del es)) \<le> limit
    then \<exists>out. (MergeBounded g sc (rows es) adds del specs limit :: 'e merge_error + 'd Entity list) = Ok out
           \<and> mset out = mset adds + mset (survivors del es)
           \<and> (list_all (number_keys g sc specs) (adds @ survivors del es) \<longrightarrow> in_order g sc specs out)
    else (MergeBounded g sc (rows es) adds del specs limit :: 'e merge_error + 'd Entity list) =
           Err (ErrSearchResultLimitExceeded (nat limit + 1))"
  using assms merge_lists_ordered [OF assms(3) in_order_survivors [OF assms(4)]]
  by (auto simp: MergeBounded_rows Let_def merge_lists_length merge_lists_mset)

text \<open>At the greatest \<open>int\<close> the bound wraps: one row comes back, without an error, whatever else there is.\<close>

lemma MergeBounded_MaxInt:
  "(MergeBounded g sc (rows [c, d]) [] (\<lambda>i. False) specs MaxInt :: 'e merge_error + 'd Entity list) = Ok [c]"
proof -
  have "nat (i64 (MaxInt + 1)) = 0" by (simp add: i64_def)
  then show ?thesis by (simp add: MergeBounded_def rows_def merge_loop.simps)
qed

theorem MergeBounded_exact_witness:
  "(MergeBounded tree_gj sample_scalar (rows [sample_entity ''b'' JTrue]) [sample_entity ''a'' JTrue]
      (\<lambda>i. False) [] 1 :: nat merge_error + json Entity list) = Err (ErrSearchResultLimitExceeded 2)"
proof -
  have "in_order tree_gj sample_scalar [] [sample_entity ''b'' JTrue]"
    "in_order tree_gj sample_scalar [] [sample_entity ''a'' JTrue]"
    by (simp_all add: in_order_def)
  then show ?thesis
    using MergeBounded_exact [of 1 tree_gj sample_scalar "[]" "[sample_entity ''a'' JTrue]"
      "[sample_entity ''b'' JTrue]" "\<lambda>i. False"]
    by (simp add: survivors_def numeral_2_eq_2)
qed

text \<open>the bounded merge never hides a failure: a limit below one is refused, and a committed stream
  that fails anywhere gives an error, whatever is buffered or deleted, for any limit but the greatest \<open>int\<close>.\<close>

theorem MergeBounded_fails:
  "(limit \<le> 0 \<longrightarrow> MergeBounded g sc s adds del specs limit = Err BadLimit)
   \<and> (Inl err \<in> set s \<and> limit < MaxInt \<longrightarrow> (\<exists>e. MergeBounded g sc s adds del specs limit = Err e))"
proof (intro conjI impI)
  assume failing: "Inl err \<in> set s \<and> limit < MaxInt"
  show "\<exists>e. MergeBounded g sc s adds del specs limit = Err e"
  proof (cases "MergeBounded g sc s adds del specs limit")
    case (Inr out)
    then obtain cur s' where cur: "advance del s = Ok (cur, s')" "0 < limit"
        "merge_loop (\<lambda>a b. LessByOrder g sc a b specs) del (nat limit + 1) adds cur s' [] = Ok out"
        "int (length out) \<le> limit"
      using failing need_of [of limit] by (auto simp: MergeBounded_def split: if_splits sum.splits)
    have "nat limit + 1 \<le> length out"
      using merge_loop_failing [OF cur(3)] advance_failing [OF cur(1)] failing by blast
    then show ?thesis using cur(2,4) by simp
  qed simp
qed (simp add: MergeBounded_def)

theorem MergeBounded_fails_witness:
  "\<exists>e. MergeBounded tree_gj sample_scalar [Inl (7::nat)] [sample_entity ''a'' JTrue] (\<lambda>i. False) [] 1 = Err e"
  using MergeBounded_fails [of 1 tree_gj sample_scalar "[Inl (7::nat)]" "[sample_entity ''a'' JTrue]"
    "\<lambda>i. False" "[]" 7] by simp

text \<open>C20: pulling the streaming merge of ordered rows and ordered adds yields, in order and each once, the
  adds and the surviving rows that no add shadows, then reports the end for ever.\<close>

theorem MergeOrdered_exact:
  assumes c: "weak_cmp c" and adds: "sorted_wrt (\<lambda>a b. c a b < 0) adds"
    and rows: "sorted_wrt (\<lambda>a b. c a b < 0) (survivors del es)"
  shows "\<exists>zs. sorted_wrt (\<lambda>a b. c a b < 0) zs
    \<and> set zs = set adds \<union> {x \<in> set (survivors del es). \<forall>a\<in>set adds. c a x \<noteq> 0}
    \<and> (\<forall>n. pulls c del n (MergeOrdered (rows es :: ('e, 'd Entity) stream) adds) = take n (map (Ok \<circ> Some) zs @ replicate n (Ok None)))"
proof -
  obtain zs where "weak_cmp.overlaid c adds (survivors del es) ([] :: ('e, 'd Entity) stream) zs"
    using weak_cmp.overlaid_rows [OF c, of adds "survivors del es" "[] :: ('e, 'd Entity) stream"] adds rows
    by (auto simp: weak_cmp.strict_def [OF c])
  then show ?thesis
    using pulls_MergeOrdered [of c del _ es "[] :: ('e, 'd Entity) stream" adds]
    by (intro exI [of _ zs]) (simp add: weak_cmp.overlaid_def [OF c] weak_cmp.strict_def [OF c] pull_n_rows)
qed

text \<open>when the committed stream fails, the streaming merge first yields, in order, the surviving rows
  read before the failure and exactly the adds that sort no later than one of them, then reports that
  error on every further call.\<close>

theorem MergeOrdered_fails:
  assumes c: "weak_cmp c" and adds: "sorted_wrt (\<lambda>a b. c a b < 0) adds"
    and rows: "sorted_wrt (\<lambda>a b. c a b < 0) (survivors del es)"
  shows "\<exists>zs. sorted_wrt (\<lambda>a b. c a b < 0) zs
    \<and> set zs = {a \<in> set adds. \<exists>x\<in>set (survivors del es). c a x \<le> 0}
               \<union> {x \<in> set (survivors del es). \<forall>a\<in>set adds. c a x \<noteq> 0}
    \<and> (\<forall>n. pulls c del n (MergeOrdered (rows es @ Inl err # s) adds) =
             take n (map (Ok \<circ> Some) zs @ replicate n (Err err)))"
proof -
  obtain zs where "weak_cmp.overlaid c adds (survivors del es) [Inl err] zs"
    using weak_cmp.overlaid_rows [OF c, of adds "survivors del es" "[Inl err]"] adds rows
    by (auto simp: weak_cmp.strict_def [OF c])
  then show ?thesis
    using pulls_MergeOrdered [of c del _ es "Inl err # s" adds]
    by (intro exI [of _ zs]) (simp add: weak_cmp.overlaid_def [OF c] weak_cmp.strict_def [OF c] pull_n_failing)
qed

text \<open>The order of a search with no sort keys, on two stores.\<close>

abbreviation by_id :: "json Entity \<Rightarrow> json Entity \<Rightarrow> int" where
  "by_id \<equiv> order_cmp tree_gj sample_scalar []"

lemma by_id_strict: "sorted_wrt (\<lambda>a b. by_id a b < 0) [sample_entity ''a'' JTrue, sample_entity ''b'' JTrue]"
  by (simp add: sample_entity_def cmp3_def)

theorem MergeOrdered_exact_witness:
  "\<exists>zs. set zs = {sample_entity ''a'' JTrue, sample_entity ''b'' JFalse}
     \<and> pulls by_id (\<lambda>i. i = ''b'') 9 (MergeOrdered (rows [sample_entity ''a'' JFalse, sample_entity ''b'' JTrue] :: (nat, json Entity) stream)
         [sample_entity ''a'' JTrue, sample_entity ''b'' JFalse]) = take 9 (map (Ok \<circ> Some) zs @ replicate 9 (Ok None))"
proof -
  have s: "survivors (\<lambda>i. i = ''b'') [sample_entity ''a'' JFalse, sample_entity ''b'' JTrue] =
      [sample_entity ''a'' JFalse]"
    by (simp add: survivors_def sample_entity_def)
  have z: "by_id (sample_entity ''a'' JTrue) (sample_entity ''a'' JFalse) = 0"
    by (simp add: sample_entity_def cmp3_def)
  have o: "sorted_wrt (\<lambda>a b. by_id a b < 0) [sample_entity ''a'' JTrue, sample_entity ''b'' JFalse]"
    by (simp add: sample_entity_def cmp3_def)
  have "{x. x = sample_entity ''a'' JFalse \<and> by_id (sample_entity ''a'' JTrue) x \<noteq> 0 \<and> by_id (sample_entity ''b'' JFalse) x \<noteq> 0} = {}"
    using z by auto
  then show ?thesis
    using MergeOrdered_exact [OF weak_order_cmp o, of "\<lambda>i. i = ''b''" "[sample_entity ''a'' JFalse, sample_entity ''b'' JTrue]"] s z
    by (auto simp del: order_cmp.simps)
qed

theorem MergeOrdered_fails_witness:
  "\<exists>zs. set zs = {sample_entity ''a'' JTrue}
     \<and> pulls by_id (\<lambda>i. False) 9 (MergeOrdered (rows [sample_entity ''a'' JFalse] @ [Inl (7::nat)])
         [sample_entity ''a'' JTrue, sample_entity ''b'' JTrue]) = take 9 (map (Ok \<circ> Some) zs @ replicate 9 (Err 7))"
proof -
  have s: "survivors (\<lambda>i. False) [sample_entity ''a'' JFalse] = [sample_entity ''a'' JFalse]"
    by (simp add: survivors_def)
  have z: "by_id (sample_entity ''a'' JTrue) (sample_entity ''a'' JFalse) = 0"
    "\<not> by_id (sample_entity ''b'' JTrue) (sample_entity ''a'' JFalse) \<le> 0"
    by (simp_all add: sample_entity_def cmp3_def)
  have "{a. (a = sample_entity ''a'' JTrue \<or> a = sample_entity ''b'' JTrue) \<and> by_id a (sample_entity ''a'' JFalse) \<le> 0} = {sample_entity ''a'' JTrue}"
    using z by (auto simp del: order_cmp.simps)
  then show ?thesis
    using MergeOrdered_fails [OF weak_order_cmp by_id_strict, of "\<lambda>i. False" "[sample_entity ''a'' JFalse]" 7 "[]"] s z
    by (auto simp del: order_cmp.simps)
qed

text \<open>the sequential save saves the entities in order up to the first failure and no further: its
  versions are those of the saves that succeeded, its error is the failing one, and the store is what
  those saves made of it.\<close>

theorem DefaultSaveAll_prefix:
  "case DefaultSaveAll save st es of
     ((vs, None), st') \<Rightarrow> save_each save st es = (map Inr vs, st')
   | ((vs, Some err), st') \<Rightarrow> length vs < length es
       \<and> save_each save st (take (Suc (length vs)) es) = (map Inr vs @ [Inl err], st')"
  using DefaultSaveAll_loop_spec [where save = save and st = st and es = es and out = "[]"]
  by (auto simp: DefaultSaveAll_def split: prod.splits option.splits)

end
