(* ===== verification/Path_Subscript.thy ===== *)
theory Path_Subscript
  imports Filter_Path
begin

text \<open>
  Facts on the path scanner of \<open>Filter_Path\<close> that the desugaring of array clauses needs: a subscript
  added at the end of a path keeps it legal exactly when the path was, and a path without subscripts
  renders to itself.
\<close>

subsection \<open>Appending a subscript\<close>

definition bracketed :: "string \<Rightarrow> string" where "bracketed d = ''['' @ d @ '']''"

definition bracket_free :: "string \<Rightarrow> bool" where
  "bracket_free d \<longleftrightarrow> CHR ''['' \<notin> set d \<and> CHR '']'' \<notin> set d"

lemma takeWhile_until: "CHR '']'' \<notin> set d \<Longrightarrow> takeWhile (\<lambda>x. x \<noteq> CHR '']'') (d @ CHR '']'' # r) = d"
  by (induction d) auto

lemma parsePathSub_brackets: "CHR ''['' \<in> set d \<Longrightarrow> parsePathSub d = None"
proof -
  assume "CHR ''['' \<in> set d"
  moreover have "\<not> is_digit CHR ''[''" by (simp add: is_digit_def)
  ultimately have "\<not> list_all is_digit d" by (auto simp: list_all_iff)
  moreover have "d \<noteq> ''*''" using \<open>CHR ''['' \<in> set d\<close> by auto
  ultimately show ?thesis by (simp add: parsePathSub_def IsArrayIndex_def)
qed

text \<open>The subscript loop on a text with one more subscript at its end.\<close>

lemma scan_subs_closed:
  assumes "CHR '']'' \<in> set r"
  defines "w \<equiv> takeWhile (\<lambda>x. x \<noteq> CHR '']'') r"
  shows "scan_subs (CHR ''['' # r @ t) =
      (case parsePathSub w of
         None \<Rightarrow> Err (UnsupportedSubscript w)
       | Some sub \<Rightarrow>
           (case scan_subs (drop (length w + 1) r @ t) of
              Inl e \<Rightarrow> Err e
            | Inr (subs, rest) \<Rightarrow> Ok (sub # subs, rest)))"
    and "length w \<noteq> length r"
proof -
  have lt: "length w < length r"
    using assms by (metis (mono_tags, lifting) le_neq_implies_less length_takeWhile_le set_takeWhileD takeWhile_eq_take take_all_iff order_refl)
  then show "length w \<noteq> length r" by simp
  have w: "takeWhile (\<lambda>x. x \<noteq> CHR '']'') (r @ t) = w"
    using assms by (simp add: takeWhile_append1)
  show "scan_subs (CHR ''['' # r @ t) =
      (case parsePathSub w of
         None \<Rightarrow> Err (UnsupportedSubscript w)
       | Some sub \<Rightarrow>
           (case scan_subs (drop (length w + 1) r @ t) of
              Inl e \<Rightarrow> Err e
            | Inr (subs, rest) \<Rightarrow> Ok (sub # subs, rest)))"
    unfolding scan_subs_step w Let_def using lt by (simp cong: option.case_cong)
qed

lemma scan_subs_open:
  assumes "CHR '']'' \<notin> set r" "CHR '']'' \<notin> set d"
  shows "scan_subs (CHR ''['' # r) = Err UnclosedSubscript" "\<not> is_ok (scan_subs (CHR ''['' # r @ bracketed d))"
proof -
  have w: "takeWhile (\<lambda>x. x \<noteq> CHR '']'') r = r" using assms(1) by (auto simp: takeWhile_eq_all_conv)
  show "scan_subs (CHR ''['' # r) = Err UnclosedSubscript" unfolding scan_subs_step Let_def w by simp
  have "takeWhile (\<lambda>x. x \<noteq> CHR '']'') (r @ bracketed d) = r @ ''['' @ d"
    using assms takeWhile_until [of "r @ ''['' @ d" "[]"] by (simp add: bracketed_def)
  moreover have "parsePathSub (r @ ''['' @ d) = None" by (rule parsePathSub_brackets) simp
  ultimately show "\<not> is_ok (scan_subs (CHR ''['' # r @ bracketed d))" by (simp add: scan_subs_step Let_def)
qed

lemma scan_subs_bracketed:
  assumes "bracket_free d"
  shows "case scan_subs s of
      Inl e \<Rightarrow> \<not> is_ok (scan_subs (s @ bracketed d))
    | Inr (subs, []) \<Rightarrow>
        scan_subs (s @ bracketed d) =
          (case parsePathSub d of None \<Rightarrow> Err (UnsupportedSubscript d) | Some x \<Rightarrow> Ok (subs @ [x], []))
    | Inr (subs, c # r) \<Rightarrow> scan_subs (s @ bracketed d) = Ok (subs, c # r @ bracketed d)"
proof (induction s rule: scan_subs.induct)
  case (1 s)
  have nb: "CHR '']'' \<notin> set d" using assms by (simp add: bracket_free_def)
  consider "s = []" | c r where "s = c # r" "c \<noteq> CHR ''[''" | r where "s = CHR ''['' # r" by (cases s) auto
  then show ?case
  proof cases
    case 1
    then show ?thesis using takeWhile_until [OF nb, of "[]"] scan_subs_stop [of "[]"]
      by (auto simp: bracketed_def scan_subs_step Let_def split: option.splits)
  next
    case 2
    then show ?thesis using scan_subs_stop [of s] scan_subs_stop [of "s @ bracketed d"] by simp
  next
    case s: 3
    show ?thesis
    proof (cases "CHR '']'' \<in> set r")
      case False
      then show ?thesis using scan_subs_open [OF False nb] s by simp
    next
      case True
      let ?w = "takeWhile (\<lambda>x. x \<noteq> CHR '']'') r"
      note step = scan_subs_closed(1) [OF True, of "[]"] scan_subs_closed(1) [OF True, of "bracketed d"]
      show ?thesis
      proof (cases "parsePathSub ?w")
        case None
        then show ?thesis using step s by simp
      next
        case (Some sub)
        note ih = 1 [OF s refl refl scan_subs_closed(2) [OF True] Some]
        show ?thesis
          using ih step Some s by (cases "scan_subs (drop (length ?w + 1) r)") (auto split: list.splits option.splits sum.splits)
      qed
    qed
  qed
qed

lemma name_bracketed:
  "takeWhile isPathNameByte (X @ bracketed d) = takeWhile isPathNameByte X"
  "dropWhile isPathNameByte (X @ bracketed d) = dropWhile isPathNameByte X @ bracketed d"
  by (induction X) (auto simp: bracketed_def)

lemma scan_hop:
  assumes "takeWhile isPathNameByte X \<noteq> []"
  shows "scanPathHops X =
    (case scan_subs (dropWhile isPathNameByte X) of
       Inl e \<Rightarrow> Err e
     | Inr (subs, rest) \<Rightarrow>
         (let hop = \<lparr>Name = takeWhile isPathNameByte X, Subs = subs\<rparr> in
          case rest of
            [] \<Rightarrow> Ok [hop]
          | c # t \<Rightarrow>
              if c = CHR ''.'' then
                (if t = [] then Err TrailingDot
                 else (case scanPathHops t of Inl e \<Rightarrow> Err e | Inr hops \<Rightarrow> Ok (hop # hops)))
              else if c = CHR '']'' then Err UnmatchedBracket
              else Err (disallowedCharReason rest)))"
  by (subst scanPathHops.simps, unfold Let_def) (simp add: assms)

lemma scan_no_name: "takeWhile isPathNameByte X = [] \<Longrightarrow> \<not> is_ok (scanPathHops X)"
  by (subst scanPathHops.simps) (auto simp: Let_def split: list.splits)

lemma scan_bracketed:
  assumes "bracket_free d"
  shows "is_ok (scanPathHops (X @ bracketed d)) \<longleftrightarrow>
    X \<noteq> [] \<and> is_ok (scanPathHops X) \<and> parsePathSub d \<noteq> None"
proof (induction X rule: scanPathHops.induct)
  case (1 X)
  let ?n = "takeWhile isPathNameByte X" and ?r = "dropWhile isPathNameByte X"
  note S = scan_subs_bracketed [OF assms, of ?r]
  show ?case
  proof (cases "?n = []")
    case True
    then show ?thesis using scan_no_name [of X] scan_no_name [of "X @ bracketed d"] by (simp add: name_bracketed)
  next
    case ne: False
    then have X: "X \<noteq> []" by auto
    note base = scan_hop [OF ne]
    have app: "takeWhile isPathNameByte (X @ bracketed d) \<noteq> []" using ne by (simp add: name_bracketed)
    note app = scan_hop [OF app, unfolded name_bracketed]
    show ?thesis
    proof (cases "scan_subs ?r")
      case (Inl e)
      then show ?thesis using S base app by (auto split: sum.splits)
    next
      case (Inr p)
      obtain subs rest where p: "p = (subs, rest)" by fastforce
      show ?thesis
      proof (cases rest)
        case Nil
        then show ?thesis using S base app Inr p X by (auto split: option.splits)
      next
        case (Cons c t)
        have "is_ok (scanPathHops (t @ bracketed d)) \<longleftrightarrow> t \<noteq> [] \<and> is_ok (scanPathHops t) \<and> parsePathSub d \<noteq> None"
          if "c = CHR ''.''"
        proof (cases "t = []")
          case True
          then show ?thesis using scan_no_name [of "bracketed d"] by (simp add: bracketed_def isPathNameByte_def is_digit_def)
        next
          case False
          then show ?thesis using 1 [OF refl refl ne, of p subs rest _ c t] Inr p Cons that by auto
        qed
        moreover have "scan_subs (?r @ bracketed d) = Ok (subs, c # t @ bracketed d)" using S Inr p Cons by simp
        moreover have "t @ bracketed d \<noteq> []" by (simp add: bracketed_def)
        ultimately show ?thesis using base app Inr p Cons X by (auto simp: Let_def split: sum.splits)
      qed
    qed
  qed
qed

text \<open>Without a bracket there are only names, which render to themselves.\<close>

lemma scan_plain:
  "scanPathHops body = Ok hops \<Longrightarrow> CHR ''['' \<notin> set body \<Longrightarrow> renderPathHops hops f = body \<and> hops \<noteq> []"
proof (induction body arbitrary: hops rule: scanPathHops.induct)
  case (1 body)
  let ?name = "takeWhile isPathNameByte body" and ?r = "dropWhile isPathNameByte body"
  have ne: "?name \<noteq> []" using 1(2) by (subst (asm) scanPathHops.simps) (auto simp: Let_def split: list.splits if_splits)
  have split: "body = ?name @ ?r" by simp
  then have "CHR ''['' \<notin> set ?r" using 1(3) by (metis UnCI set_append)
  then have s: "scan_subs ?r = Ok ([], ?r)" by (intro scan_subs_stop) (cases ?r; auto)
  let ?hop = "\<lparr>Name = ?name, Subs = []\<rparr>"
  have eq: "(case ?r of [] \<Rightarrow> Ok [?hop]
      | c # t \<Rightarrow> if c = CHR ''.'' then
          (if t = [] then Err TrailingDot
           else (case scanPathHops t of Inl e \<Rightarrow> Err e | Inr hops \<Rightarrow> Ok (?hop # hops)))
        else if c = CHR '']'' then Err UnmatchedBracket
        else Err (disallowedCharReason ?r)) = Ok hops"
    using 1(2) ne s by (subst (asm) scanPathHops.simps) (simp add: Let_def)
  show ?case
  proof (cases ?r)
    case Nil
    have "body = ?name" using split unfolding Nil by simp
    moreover have "hops = [?hop]" using eq unfolding Nil by simp
    ultimately show ?thesis by (simp add: render_hop_def)
  next
    case (Cons c t)
    then have c: "c = CHR ''.''" "t \<noteq> []" and "\<exists>hs. scanPathHops t = Ok hs \<and> hops = ?hop # hs"
      using eq by (auto split: if_splits sum.splits)
    then obtain hs where hs: "scanPathHops t = Ok hs" "hops = ?hop # hs" by blast
    have "CHR ''['' \<notin> set t" using \<open>CHR ''['' \<notin> set ?r\<close> Cons by simp
    then have ih: "renderPathHops hs f = t \<and> hs \<noteq> []"
      using 1(1) [OF refl refl ne s refl refl Cons c hs(1)] by blast
    then have "renderPathHops hops f = ?name @ ''.'' @ t"
      using hs(2) by (cases hs) (auto simp: render_hop_def)
    also have "\<dots> = body" using split Cons c(1) by simp
    finally show ?thesis using hs(2) by simp
  qed
qed

end
