(* ===== verification/Conditions.thy ===== *)
theory Conditions
  imports Ordering Path_Subscript
begin

text \<open>
  Search conditions and their translation to filters (\<open>predicate/condition.go\<close>,
  \<open>condition_filter.go\<close>, \<open>field_descriptor.go\<close>): the condition tree, the desugaring of positional
  array clauses, \<open>ConditionToFilter\<close> and the two validators with their depth cap. Results: the
  translation accepts exactly the well-formed conditions, keeps their meaning, and what it emits is
  refused by \<open>Prepare\<close> only for the causes it leaves to it; the validators accept exactly the trees
  within the cap whose operators and patterns are legal.
\<close>

subsection \<open>Conditions\<close>

text \<open>
  A \<open>predicate.Condition\<close> is a nil interface, one of the five declared forms, or a type of another
  package. \<open>Raw\<close> of a function condition is JSON the code never reads here.
\<close>

datatype cond =
    NilCondition
  | SimpleCondition string string go_any
  | LifecycleCondition string string go_any
  | GroupCondition string "cond list"
  | ArrayCondition string string "go_any list"
  | FunctionCondition string cond
  | ForeignCondition string

text \<open>A nil fields map answers every lookup as the empty one does.\<close>

record FieldDescriptor =
  fd_Path :: string
  fd_Types :: "data_type list"
  fd_IsArray :: bool

type_synonym fields_map = "string \<rightharpoonup> FieldDescriptor"

datatype condition_error =
    ConditionNil | FunctionNotTranslatable | UnsupportedCondition
  | ErrArrayClauseTestsNothing string
  | WirePath wire_path_error
  | ErrUnknownOperator string | ErrUnknownGroupOperator string
  | LeafOperand string string operand_error
  | TypeAssertionPanic
  | DepthExceeded
  | LeafPattern string string pattern_error

subsection \<open>Operator names\<close>

definition operator_table :: "(string \<times> filter_op) list" where
  "operator_table =
    [(''EQUALS'', FilterEq), (''NOT_EQUAL'', FilterNe), (''GREATER_THAN'', FilterGt),
     (''LESS_THAN'', FilterLt), (''GREATER_OR_EQUAL'', FilterGte), (''LESS_OR_EQUAL'', FilterLte),
     (''CONTAINS'', FilterContains), (''STARTS_WITH'', FilterStartsWith), (''ENDS_WITH'', FilterEndsWith),
     (''LIKE'', FilterLike), (''IS_NULL'', FilterIsNull), (''NOT_NULL'', FilterNotNull),
     (''BETWEEN'', FilterBetween), (''BETWEEN_INCLUSIVE'', FilterBetweenInclusive),
     (''MATCHES_PATTERN'', FilterMatchesRegex), (''IEQUALS'', FilterIEq), (''INOT_EQUAL'', FilterINe),
     (''ICONTAINS'', FilterIContains), (''INOT_CONTAINS'', FilterINotContains),
     (''NOT_CONTAINS'', FilterNotContains), (''ISTARTS_WITH'', FilterIStartsWith),
     (''INOT_STARTS_WITH'', FilterINotStartsWith), (''NOT_STARTS_WITH'', FilterNotStartsWith),
     (''IENDS_WITH'', FilterIEndsWith), (''INOT_ENDS_WITH'', FilterINotEndsWith),
     (''NOT_ENDS_WITH'', FilterNotEndsWith)]"

definition MapOperator :: "string \<Rightarrow> filter_op" where
  "MapOperator s = (case map_of operator_table s of Some p \<Rightarrow> p | None \<Rightarrow> FilterOpOther [])"

definition LookupOperator :: "string \<Rightarrow> filter_op option" where
  "LookupOperator s = (let f = MapOperator s in if f \<noteq> FilterOpOther [] then Some f else None)"

definition canonicalOperatorNames :: "string list" where
  "canonicalOperatorNames =
    [''BETWEEN'', ''BETWEEN_INCLUSIVE'', ''CONTAINS'', ''ENDS_WITH'',
     ''EQUALS'', ''GREATER_OR_EQUAL'', ''GREATER_THAN'', ''ICONTAINS'',
     ''IENDS_WITH'', ''IEQUALS'', ''INOT_CONTAINS'', ''INOT_ENDS_WITH'',
     ''INOT_EQUAL'', ''INOT_STARTS_WITH'', ''ISTARTS_WITH'', ''IS_NULL'',
     ''LESS_OR_EQUAL'', ''LESS_THAN'', ''LIKE'', ''MATCHES_PATTERN'',
     ''NOT_CONTAINS'', ''NOT_ENDS_WITH'', ''NOT_EQUAL'', ''NOT_NULL'',
     ''NOT_STARTS_WITH'', ''STARTS_WITH'']"

definition OperatorNames :: "string list" where "OperatorNames = canonicalOperatorNames"

definition groupOperatorToFilterOp :: "string \<Rightarrow> filter_op option" where
  "groupOperatorToFilterOp s =
     (if s = ''AND'' then Some FilterAnd else if s = ''OR'' then Some FilterOr
      else if s = ''NOT'' then Some FilterNot else None)"

subsection \<open>Array clauses\<close>

text \<open>The last hop's last subscript is replaced or extended.\<close>

definition element_hop :: "nat \<Rightarrow> path_hop \<Rightarrow> path_hop" where
  "element_hop i h =
     h\<lparr>Subs := (if Subs h \<noteq> [] \<and> last (Subs h) = Wildcard then butlast (Subs h) @ [Index i]
                 else Subs h @ [Index i])\<rparr>"

definition element_hops :: "path_hop list \<Rightarrow> nat \<Rightarrow> path_hop list" where
  "element_hops hops i = butlast hops @ [element_hop i (last hops)]"

definition index_text :: "nat \<Rightarrow> string" where "index_text i = ''['' @ dec_str i @ '']''"

definition desugarArrayElementPath :: "string \<Rightarrow> nat \<Rightarrow> string" where
  "desugarArrayElementPath jsonPath i =
     (let fallback = (if has_suffix jsonPath ''[*]''
                      then take (length jsonPath - 3) jsonPath @ index_text i
                      else jsonPath @ index_text i)
      in case strip_prefix jsonPathLeader jsonPath of
           None \<Rightarrow> fallback
         | Some rest \<Rightarrow>
             (case ParseFilterPath rest of
                Inl e \<Rightarrow> fallback
              | Inr hops \<Rightarrow>
                  if hops = [] then fallback
                  else jsonPathLeader @ renderPathHops (element_hops hops i) False))"

text \<open>The positions whose operand is not nil, with the loop index.\<close>

definition tested :: "go_any list \<Rightarrow> (nat \<times> go_any) list" where
  "tested vs = filter (\<lambda>(i, v). v \<noteq> GNil) (enumerate 0 vs)"

definition desugarArrayCondition :: "string \<Rightarrow> string \<Rightarrow> go_any list \<Rightarrow> condition_error + cond" where
  "desugarArrayCondition jp opn vs =
     (let leaves = map (\<lambda>(i, v). SimpleCondition (desugarArrayElementPath jp i) opn v) (tested vs) in
      case leaves of
        [] \<Rightarrow> Err (ErrArrayClauseTestsNothing jp)
      | [l] \<Rightarrow> Ok l
      | _ \<Rightarrow> Ok (GroupCondition ''AND'' leaves))"

fun DesugarCondition :: "cond \<Rightarrow> condition_error + cond" where
  "DesugarCondition (ArrayCondition jp opn vs) = desugarArrayCondition jp opn vs"
| "DesugarCondition (GroupCondition p cs) =
     (case map_res DesugarCondition cs of
        Inl e \<Rightarrow> Err e | Inr ds \<Rightarrow> Ok (GroupCondition p ds))"
| "DesugarCondition c = Ok c"

subsection \<open>Translation\<close>

text \<open>\<open>value.([]any)\<close> panics on any other dynamic type: \<open>None\<close>.\<close>

definition betweenValues :: "filter_op \<Rightarrow> go_any \<Rightarrow> go_any list option" where
  "betweenValues p v =
     (if \<not> isRange p then Some [] else (case v of GSlice vs \<Rightarrow> Some vs | _ \<Rightarrow> None))"

definition dataCoercion :: "string \<Rightarrow> fields_map \<Rightarrow> filter_coercion" where
  "dataCoercion jsonPath fm =
     (case fm jsonPath of
        None \<Rightarrow> CoerceNone
      | Some fd \<Rightarrow> if ClassifyType (fd_Types fd) = Ok OrderTemporal then CoerceTemporal else CoerceNone)"

definition declared_types :: "fields_map \<Rightarrow> string \<Rightarrow> data_type list" where
  "declared_types fm key = (case fm key of None \<Rightarrow> [] | Some fd \<Rightarrow> fd_Types fd)"

definition simpleToFilter :: "string \<Rightarrow> string \<Rightarrow> go_any \<Rightarrow> fields_map \<Rightarrow> condition_error + filter" where
  "simpleToFilter jp opn v fm =
     (case stripDollarDot jp of
        Inl e \<Rightarrow> Err (WirePath e)
      | Inr bare \<Rightarrow>
          (case LookupOperator opn of
             None \<Rightarrow> Err (ErrUnknownOperator opn)
           | Some p \<Rightarrow>
               (case ValidateOperand p v of
                  Some e \<Rightarrow> Err (LeafOperand jp opn e)
                | None \<Rightarrow>
                    (let key = foldSubscriptWildcards (NormalisePath jp) in
                     case betweenValues p v of
                       None \<Rightarrow> Err TypeAssertionPanic
                     | Some vs \<Rightarrow>
                         Ok (Filter p bare SourceData v vs [] (dataCoercion key fm)
                               (declared_types fm key))))))"

definition lifecycleToFilter :: "string \<Rightarrow> string \<Rightarrow> go_any \<Rightarrow> condition_error + filter" where
  "lifecycleToFilter fld opn v =
     (let field = (if fld = ''previousTransition'' then ''transitionForLatestSave'' else fld);
          (co, declared) = (if IsTemporalMetaField field then (CoerceTemporal, [ZonedDateTime])
                            else (CoerceNone, [String]))
      in case LookupOperator opn of
           None \<Rightarrow> Err (ErrUnknownOperator opn)
         | Some p \<Rightarrow>
             (case ValidateOperand p v of
                Some e \<Rightarrow> Err (LeafOperand fld opn e)
              | None \<Rightarrow>
                  (case betweenValues p v of
                     None \<Rightarrow> Err TypeAssertionPanic
                   | Some vs \<Rightarrow> Ok (Filter p field SourceMeta v vs [] co declared))))"

text \<open>The translation of the children is a parameter: the code calls its own dispatch.\<close>

definition groupToFilter ::
  "(cond \<Rightarrow> condition_error + filter) \<Rightarrow> string \<Rightarrow> cond list \<Rightarrow> condition_error + filter" where
  "groupToFilter dispatch opn cs =
     (case groupOperatorToFilterOp opn of
        None \<Rightarrow> Err (ErrUnknownGroupOperator opn)
      | Some p \<Rightarrow>
          (case map_res dispatch cs of
             Inl e \<Rightarrow> Err e
           | Inr fs \<Rightarrow> Ok (Filter p [] (SourceOther []) GNil [] fs CoerceNone [])))"

lemma groupToFilter_cong [fundef_cong]:
  assumes "opn = opn'" "cs = cs'"
    and "\<And>p c. groupOperatorToFilterOp opn' = Some p \<Longrightarrow> c \<in> set cs' \<Longrightarrow> f c = h c"
  shows "groupToFilter f opn cs = groupToFilter h opn' cs'"
  using assms map_res_cong [of cs cs' f h] by (auto simp: groupToFilter_def split: option.split)

fun desugaredToFilter :: "fields_map \<Rightarrow> cond \<Rightarrow> condition_error + filter" where
  "desugaredToFilter fm (SimpleCondition jp opn v) = simpleToFilter jp opn v fm"
| "desugaredToFilter fm (LifecycleCondition fld opn v) = lifecycleToFilter fld opn v"
| "desugaredToFilter fm (GroupCondition opn cs) = groupToFilter (desugaredToFilter fm) opn cs"
| "desugaredToFilter fm (FunctionCondition raw pre) = Err FunctionNotTranslatable"
| "desugaredToFilter fm (ArrayCondition jp opn vs) = Err UnsupportedCondition"
| "desugaredToFilter fm NilCondition = Err UnsupportedCondition"
| "desugaredToFilter fm (ForeignCondition s) = Err UnsupportedCondition"

declare groupToFilter_def [simp]

definition ConditionToFilter :: "cond \<Rightarrow> fields_map \<Rightarrow> condition_error + filter" where
  "ConditionToFilter c fm =
     (if c = NilCondition then Err ConditionNil
      else (case DesugarCondition c of Inl e \<Rightarrow> Err e | Inr d \<Rightarrow> desugaredToFilter fm d))"

subsection \<open>Validators\<close>

definition MaxConditionDepth :: nat where "MaxConditionDepth = 256"

definition checkOperator :: "string \<Rightarrow> condition_error option" where
  "checkOperator opn = (if LookupOperator opn = None then Some (ErrUnknownOperator opn) else None)"

text \<open>The loop over the children: the first error.\<close>

fun first_error :: "('a \<Rightarrow> 'e option) \<Rightarrow> 'a list \<Rightarrow> 'e option" where
  "first_error f [] = None"
| "first_error f (x # xs) = (case f x of Some e \<Rightarrow> Some e | None \<Rightarrow> first_error f xs)"

lemma first_error_cong [fundef_cong]:
  "xs = ys \<Longrightarrow> (\<And>x. x \<in> set ys \<Longrightarrow> f x = g x) \<Longrightarrow> first_error f xs = first_error g ys"
  by (induction xs arbitrary: ys) (auto split: option.split)

lemma first_error_None: "first_error f xs = None \<longleftrightarrow> (\<forall>x \<in> set xs. f x = None)"
  by (induction xs) (auto split: option.split)

function validateOperatorsAtDepth :: "cond \<Rightarrow> nat \<Rightarrow> condition_error option" where
  "validateOperatorsAtDepth c depth =
     (if c = NilCondition then None
      else if depth \<ge> MaxConditionDepth then Some DepthExceeded
      else
        (case c of
           SimpleCondition jp opn v \<Rightarrow> checkOperator opn
         | LifecycleCondition fld opn v \<Rightarrow> checkOperator opn
         | GroupCondition opn cs \<Rightarrow>
             if groupOperatorToFilterOp opn = None then Some (ErrUnknownGroupOperator opn)
             else first_error (\<lambda>d. validateOperatorsAtDepth d (depth + 1)) cs
         | ArrayCondition jp opn vs \<Rightarrow>
             (case DesugarCondition c of
                Inl e \<Rightarrow> Some e
              | Inr d \<Rightarrow> validateOperatorsAtDepth d (depth + 1))
         | _ \<Rightarrow> None))"
  by pat_completeness auto
termination by (relation "measure (\<lambda>(c, depth). MaxConditionDepth - depth)") auto

declare validateOperatorsAtDepth.simps [simp del]

definition ValidateConditionOperators :: "cond \<Rightarrow> condition_error option" where
  "ValidateConditionOperators c = validateOperatorsAtDepth c 0"

definition checkPattern :: "'u ext \<Rightarrow> string \<Rightarrow> go_any \<Rightarrow> string \<Rightarrow> condition_error option" where
  "checkPattern ext opn v location =
     (case compileLeafPattern ext (MapOperator opn) v of
        Inl e \<Rightarrow> Some (LeafPattern location opn e) | Inr m \<Rightarrow> None)"

function validatePatternsAtDepth :: "'u ext \<Rightarrow> cond \<Rightarrow> nat \<Rightarrow> condition_error option" where
  "validatePatternsAtDepth ext c depth =
     (if c = NilCondition then None
      else if depth \<ge> MaxConditionDepth then Some DepthExceeded
      else
        (case c of
           SimpleCondition jp opn v \<Rightarrow> checkPattern ext opn v jp
         | LifecycleCondition fld opn v \<Rightarrow> checkPattern ext opn v fld
         | GroupCondition opn cs \<Rightarrow> first_error (\<lambda>d. validatePatternsAtDepth ext d (depth + 1)) cs
         | ArrayCondition jp opn vs \<Rightarrow>
             (case DesugarCondition c of
                Inl e \<Rightarrow> Some e
              | Inr d \<Rightarrow> validatePatternsAtDepth ext d (depth + 1))
         | _ \<Rightarrow> None))"
  by pat_completeness auto
termination by (relation "measure (\<lambda>(ext, c, depth). MaxConditionDepth - depth)") auto

declare validatePatternsAtDepth.simps [simp del]

definition ValidateConditionPatterns :: "'u ext \<Rightarrow> cond \<Rightarrow> condition_error option" where
  "ValidateConditionPatterns ext c = validatePatternsAtDepth ext c 0"

subsection \<open>What translates\<close>

lemma MapOperator_leaf: "LookupOperator s = Some p \<Longrightarrow> leafKindOf p \<noteq> None \<and> p = MapOperator s"
proof -
  assume a: "LookupOperator s = Some p"
  then have "map_of operator_table s = Some p"
    by (auto simp: LookupOperator_def MapOperator_def Let_def split: option.splits if_splits)
  then have "(s, p) \<in> set operator_table" by (rule map_of_SomeD)
  then have "leafKindOf p \<noteq> None" by (auto simp: operator_table_def)
  then show ?thesis using a by (auto simp: LookupOperator_def Let_def split: if_splits)
qed

lemma group_op: "groupOperatorToFilterOp s = Some p \<Longrightarrow> p \<in> {FilterAnd, FilterOr, FilterNot}"
  by (auto simp: groupOperatorToFilterOp_def split: if_splits)

lemma betweenValues_None: "betweenValues p v = None \<Longrightarrow> ValidateOperand p v \<noteq> None"
  by (cases v) (auto simp: betweenValues_def ValidateOperand_def isRange_def split: if_splits)

definition leaf_cond_ok :: "string \<Rightarrow> go_any \<Rightarrow> bool" where
  "leaf_cond_ok opn v \<longleftrightarrow> (\<exists>p. LookupOperator opn = Some p \<and> ValidateOperand p v = None)"

definition wire_path_ok :: "string \<Rightarrow> bool" where
  "wire_path_ok jp \<longleftrightarrow> (\<exists>p. jp = ''$.'' @ p \<and> p \<noteq> [] \<and> ValidateFilterPath p = None)"

text \<open>The well-formed conditions: what the translation is documented to accept.\<close>

fun cond_ok :: "cond \<Rightarrow> bool" where
  "cond_ok (SimpleCondition jp opn v) \<longleftrightarrow> wire_path_ok jp \<and> leaf_cond_ok opn v"
| "cond_ok (LifecycleCondition fld opn v) \<longleftrightarrow> leaf_cond_ok opn v"
| "cond_ok (GroupCondition opn cs) \<longleftrightarrow> opn \<in> {''AND'', ''OR'', ''NOT''} \<and> list_all cond_ok cs"
| "cond_ok (ArrayCondition jp opn vs) \<longleftrightarrow>
     tested vs \<noteq> []
     \<and> list_all (\<lambda>(i, v). wire_path_ok (desugarArrayElementPath jp i) \<and> leaf_cond_ok opn v) (tested vs)"
| "cond_ok (FunctionCondition raw pre) \<longleftrightarrow> False"
| "cond_ok NilCondition \<longleftrightarrow> False"
| "cond_ok (ForeignCondition s) \<longleftrightarrow> False"

lemma stripDollarDot_ok: "is_ok (stripDollarDot jp) \<longleftrightarrow> wire_path_ok jp"
  using stripDollarDot_iff [of jp] by (cases "stripDollarDot jp") (auto simp: wire_path_ok_def)

lemma simpleToFilter_ok: "is_ok (simpleToFilter jp opn v fm) \<longleftrightarrow> wire_path_ok jp \<and> leaf_cond_ok opn v"
  using stripDollarDot_ok [of jp]
  by (auto simp: simpleToFilter_def leaf_cond_ok_def Let_def dest: betweenValues_None
      split: sum.splits option.splits)

lemma lifecycleToFilter_ok: "is_ok (lifecycleToFilter fld opn v) \<longleftrightarrow> leaf_cond_ok opn v"
  by (auto simp: lifecycleToFilter_def leaf_cond_ok_def Let_def dest: betweenValues_None
      split: option.splits)

lemma groupOperator_ok: "groupOperatorToFilterOp s \<noteq> None \<longleftrightarrow> s \<in> {''AND'', ''OR'', ''NOT''}"
  by (auto simp: groupOperatorToFilterOp_def)

text \<open>Desugared trees hold no array clause.\<close>

fun no_array :: "cond \<Rightarrow> bool" where
  "no_array (GroupCondition opn cs) = list_all no_array cs"
| "no_array (ArrayCondition jp opn vs) = False"
| "no_array c = True"

lemma desugaredToFilter_ok: "is_ok (desugaredToFilter fm d) \<longleftrightarrow> no_array d \<and> cond_ok d"
proof (induction fm d rule: desugaredToFilter.induct)
  case (3 fm opn cs)
  have "is_ok (map_res (desugaredToFilter fm) cs) \<longleftrightarrow> list_all no_array cs \<and> list_all cond_ok cs"
    if "groupOperatorToFilterOp opn \<noteq> None"
    using 3 that by (auto simp: map_res_ok_iff_all list_all_iff)
  then show ?case using groupOperator_ok [of opn] by (auto split: option.splits sum.splits)
qed (simp_all add: simpleToFilter_ok lifecycleToFilter_ok)

lemma desugared_leaves:
  "list_all cond_ok (map (\<lambda>(i, v). SimpleCondition (desugarArrayElementPath jp i) opn v) ts) =
     list_all (\<lambda>(i, v). wire_path_ok (desugarArrayElementPath jp i) \<and> leaf_cond_ok opn v) ts"
  "list_all no_array (map (\<lambda>(i, v). SimpleCondition (desugarArrayElementPath jp i) opn v) ts)"
  by (induction ts) auto

lemma desugar_array:
  "desugarArrayCondition jp opn vs = Ok d \<Longrightarrow>
   no_array d \<and> (cond_ok d \<longleftrightarrow> cond_ok (ArrayCondition jp opn vs)) \<and> tested vs \<noteq> []"
  using desugared_leaves [of jp opn "tested vs"]
  by (auto simp: desugarArrayCondition_def Let_def simp del: list.pred_map split: list.splits)

lemma desugar_array_ok: "is_ok (desugarArrayCondition jp opn vs) \<longleftrightarrow> tested vs \<noteq> []"
  by (auto simp: desugarArrayCondition_def Let_def split: list.splits)

lemma DesugarCondition_Ok:
  "DesugarCondition c = Ok d \<Longrightarrow> no_array d \<and> (cond_ok d \<longleftrightarrow> cond_ok c)"
proof (induction c arbitrary: d rule: DesugarCondition.induct)
  case (2 p cs)
  then obtain ds where ds: "map_res DesugarCondition cs = Ok ds" "d = GroupCondition p ds"
    by (auto split: sum.splits)
  have "list_all2 (\<lambda>c d. no_array d \<and> (cond_ok d \<longleftrightarrow> cond_ok c)) cs ds"
    using ds(1) unfolding map_res_Ok_iff by (rule list.rel_mono_strong) (rule 2(1))
  then have "list_all no_array ds \<and> (list_all cond_ok ds \<longleftrightarrow> list_all cond_ok cs)"
    by (induction rule: list_all2_induct) auto
  then show ?case using ds(2) by simp
qed (auto dest: desugar_array)

lemma cond_ok_desugars: "cond_ok c \<Longrightarrow> is_ok (DesugarCondition c)"
proof (induction c rule: cond_ok.induct)
  case (3 opn cs)
  then have "is_ok (map_res DesugarCondition cs)" by (auto simp: map_res_ok_iff_all list_all_iff)
  then show ?case by (auto split: sum.splits)
qed (simp_all add: desugar_array_ok)

lemma ConditionToFilter_ok: "is_ok (ConditionToFilter c fm) \<longleftrightarrow> cond_ok c"
  using cond_ok_desugars [of c] DesugarCondition_Ok [of c] desugaredToFilter_ok [of fm]
  by (auto simp: ConditionToFilter_def split: sum.splits)

subsection \<open>The key of a declared type\<close>

lemma strip_any_None: "(\<And>e. e \<in> set es \<Longrightarrow> hd e \<noteq> c) \<Longrightarrow> strip_any es (c # t) = None"
proof (induction es)
  case (Cons e es)
  then have "hd e \<noteq> c" "strip_any es (c # t) = None" by auto
  then show ?case by (cases e) auto
qed simp

lemma TrimSpace_id:
  assumes "list_all path_byte p" "p \<noteq> []"
  shows "TrimSpace (''$.'' @ p) = ''$.'' @ p"
proof -
  have h1: "list_all (\<lambda>e. hd e \<noteq> CHR ''$'') space_encodings" by code_simp
  have h2: "list_all (\<lambda>e. \<not> path_byte (hd e)) (map rev space_encodings)" by code_simp
  have "strip_any space_encodings (''$.'' @ p) = None"
    using h1 by (auto simp: list_all_iff intro!: strip_any_None)
  then have left: "trim_left space_encodings (''$.'' @ p) = ''$.'' @ p" by (subst trim_left.simps) simp
  obtain q c where p: "p = q @ [c]" using assms(2) by (meson rev_exhaust)
  then have c: "path_byte c" using assms(1) by simp
  have "strip_any (map rev space_encodings) (rev (''$.'' @ p)) = None"
    using h2 c by (auto simp: p list_all_iff intro!: strip_any_None)
  then have "trim_left (map rev space_encodings) (rev (''$.'' @ p)) = rev (''$.'' @ p)"
    by (subst trim_left.simps) simp
  then show ?thesis by (simp only: TrimSpace_def left rev_rev_ident)
qed

definition hops_key :: "path_hop list \<Rightarrow> string" where
  "hops_key hops = jsonPathLeader @ renderPathHops hops True"

lemma key_of_path:
  assumes "ParseFilterPath p = Ok hops" "p \<noteq> []"
  shows "foldSubscriptWildcards (NormalisePath (''$.'' @ p)) = hops_key hops"
proof -
  have n: "NormalisePath (''$.'' @ p) = ''$.'' @ p"
    using TrimSpace_id [of p] ParseFilterPath_spec [OF assms(1)] assms(2)
    by (simp add: NormalisePath_def Let_def has_prefix_def)
  have s: "strip_prefix jsonPathLeader (''$.'' @ p) = Some p" by (simp add: jsonPathLeader_def)
  show ?thesis
  proof (cases "contains p ''[''")
    case True
    then show ?thesis using assms(1) n s by (simp add: foldSubscriptWildcards_def hops_key_def)
  next
    case False
    then have "CHR ''['' \<notin> set p" by (auto simp: contains_iff in_set_conv_decomp)
    moreover have "scanPathHops p = Ok hops"
      using assms by (auto simp: ParseFilterPath_def split: sum.splits)
    ultimately show ?thesis using scan_plain [of p hops True] False n s
      by (simp add: foldSubscriptWildcards_def hops_key_def jsonPathLeader_def)
  qed
qed

subsection \<open>The meaning of a condition\<close>

text \<open>
  A leaf holds when some value its path addresses stands in the relation of the operator to the
  operand, read under the types declared for the path. An array clause holds when at every tested
  position some container has such an element; it is stated without the desugared paths.
\<close>

definition path_of :: "string \<Rightarrow> path_hop list" where
  "path_of jp = (case strip_prefix jsonPathLeader jp of
     None \<Rightarrow> [] | Some p \<Rightarrow> (case ParseFilterPath p of Inl e \<Rightarrow> [] | Inr hops \<Rightarrow> hops))"

definition op_holds :: "'u ext \<Rightarrow> string \<Rightarrow> go_any \<Rightarrow> data_type list \<Rightarrow> stored \<Rightarrow> bool" where
  "op_holds ext opn v declared st =
     (case ExpandLeaf ext (MapOperator opn) (OperandString v)
             (if isRange (MapOperator opn) then (case v of GSlice vs \<Rightarrow> valuesToStrings vs | _ \<Rightarrow> []) else [])
             declared of
        Inl e \<Rightarrow> False | Inr e \<Rightarrow> EvalLeaf ext e st)"

text \<open>The container of an array clause: its path without the trailing wildcard.\<close>

definition container_hops :: "path_hop list \<Rightarrow> path_hop list" where
  "container_hops hops =
     butlast hops @ [(last hops)\<lparr>Subs := (if Subs (last hops) \<noteq> [] \<and> last (Subs (last hops)) = Wildcard
                                          then butlast (Subs (last hops)) else Subs (last hops))\<rparr>]"

definition elements_key :: "path_hop list \<Rightarrow> string" where
  "elements_key hops = hops_key (element_hops hops 0)"

fun cond_holds ::
  "('d, 'r) gj \<Rightarrow> 'u ext \<Rightarrow> fields_map \<Rightarrow> 'd \<Rightarrow> EntityMeta \<Rightarrow> cond \<Rightarrow> bool" where
  "cond_holds g ext fm data meta (SimpleCondition jp opn v) =
     (\<exists>r \<in> set (addressed g (path_of jp) (gj_parse g data)).
        op_holds ext opn v (declared_types fm (hops_key (path_of jp))) (gj_stored g r))"
| "cond_holds g ext fm data meta (LifecycleCondition fld opn v) =
     (let field = (if fld = ''previousTransition'' then ''transitionForLatestSave'' else fld) in
      op_holds ext opn v (if IsTemporalMetaField field then [ZonedDateTime] else [String])
        (metaGjsonResult field meta))"
| "cond_holds g ext fm data meta (GroupCondition opn cs) =
     (if opn = ''AND'' then \<forall>c \<in> set cs. cond_holds g ext fm data meta c
      else if opn = ''OR'' then \<exists>c \<in> set cs. cond_holds g ext fm data meta c
      else \<not> (\<exists>c \<in> set cs. cond_holds g ext fm data meta c))"
| "cond_holds g ext fm data meta (ArrayCondition jp opn vs) =
     (\<forall>i < length vs. vs ! i \<noteq> GNil \<longrightarrow>
        (\<exists>r \<in> set (addressed g (container_hops (path_of jp)) (gj_parse g data)).
           op_holds ext opn (vs ! i) (declared_types fm (elements_key (path_of jp)))
             (gj_stored g (element_at g r i))))"
| "cond_holds g ext fm data meta c = False"

lemma element_container:
  obtains cs where "element_hops hops i = butlast hops @ [(last hops)\<lparr>Subs := cs @ [Index i]\<rparr>]"
    "container_hops hops = butlast hops @ [(last hops)\<lparr>Subs := cs\<rparr>]" "set cs \<subseteq> set (Subs (last hops))"
proof -
  let ?h = "last hops"
  define cs where "cs = (if Subs ?h \<noteq> [] \<and> last (Subs ?h) = Wildcard then butlast (Subs ?h) else Subs ?h)"
  show ?thesis
  proof (rule that)
    show "element_hops hops i = butlast hops @ [?h\<lparr>Subs := cs @ [Index i]\<rparr>]"
      by (simp add: element_hops_def element_hop_def cs_def)
    show "container_hops hops = butlast hops @ [?h\<lparr>Subs := cs\<rparr>]"
      by (simp add: container_hops_def cs_def)
    show "set cs \<subseteq> set (Subs ?h)" by (auto simp: cs_def dest: in_set_butlastD)
  qed
qed

lemma concat_singletons: "concat (map (\<lambda>c. [f c]) xs) = map f xs"
  by (induction xs) auto

lemma addressed_hop: "addressed g [h] = (\<lambda>x. subs_values g (Subs h) (member_at g x (Name h)))"
proof (rule ext)
  have e: "addressed g [] = (\<lambda>c. [c])" by (simp add: fun_eq_iff)
  show "addressed g [h] x = subs_values g (Subs h) (member_at g x (Name h))" for x
    by (simp add: e concat_singletons [of "\<lambda>c. c"])
qed

lemma element_addressed:
  "addressed g (element_hops hops i) r =
     map (\<lambda>c. element_at g c i) (addressed g (container_hops hops) r)"
proof -
  have one: "subs_values g [Index i] = (\<lambda>c. [element_at g c i])"
    by (simp add: fun_eq_iff)
  obtain cs where "element_hops hops i = butlast hops @ [(last hops)\<lparr>Subs := cs @ [Index i]\<rparr>]"
      "container_hops hops = butlast hops @ [(last hops)\<lparr>Subs := cs\<rparr>]"
    by (rule element_container)
  then show ?thesis
    by (simp del: addressed.simps subs_values.simps
        add: addressed_append addressed_hop subs_values_append one concat_singletons map_concat comp_def)
qed

lemma element_key: "hops_key (element_hops hops i) = elements_key hops"
  by (simp add: elements_key_def hops_key_def render_fold element_hops_def element_hop_def fold_hop_def)

subsection \<open>Desugared paths\<close>

lemma renderPathHops_Cons:
  "ys \<noteq> [] \<Longrightarrow> renderPathHops (h # ys) f = render_hop f h @ ''.'' @ renderPathHops ys f"
  by (cases ys) auto

lemma render_snoc_sub:
  "renderPathHops (hs @ [h\<lparr>Subs := cs @ [s]\<rparr>]) f = renderPathHops (hs @ [h\<lparr>Subs := cs\<rparr>]) f @ render_sub f s"
proof (induction hs)
  case Nil
  then show ?case by (simp add: render_hop_def)
next
  case (Cons a hs)
  then show ?case by (simp add: renderPathHops_Cons)
qed

lemma render_element:
  "renderPathHops (element_hops hops i) False = renderPathHops (container_hops hops) False @ index_text i"
proof -
  obtain cs where "element_hops hops i = butlast hops @ [(last hops)\<lparr>Subs := cs @ [Index i]\<rparr>]"
      "container_hops hops = butlast hops @ [(last hops)\<lparr>Subs := cs\<rparr>]"
    by (rule element_container)
  then show ?thesis
    using render_snoc_sub [where hs = "butlast hops" and h = "last hops" and s = "Index i" and f = False]
    by (simp add: render_sub_def index_text_def)
qed

lemma index_text_bracketed: "index_text i = bracketed (dec_str i)" "bracket_free (dec_str i)"
proof -
  have "\<not> is_digit CHR ''[''" "\<not> is_digit CHR '']''" by (simp_all add: is_digit_def)
  then show "bracket_free (dec_str i)" using dec_str_digits [of i] by (auto simp: bracket_free_def)
qed (simp add: index_text_def bracketed_def)

lemma leader_bracketed:
  "Y @ bracketed d = ''$.'' @ p \<Longrightarrow> \<exists>Y'. Y = ''$.'' @ Y' \<and> p = Y' @ bracketed d"
  by (cases Y; cases "tl Y") (auto simp: bracketed_def)

lemma ParseFilterPath_ok_scan: "p \<noteq> [] \<Longrightarrow> ValidateFilterPath p = None \<longleftrightarrow> is_ok (scanPathHops p)"
  by (auto simp: ValidateFilterPath_def ParseFilterPath_def split: sum.splits)

lemma wire_path_bracketed:
  assumes "wire_path_ok (Y @ bracketed d)" "bracket_free d" "bracket_free d'" "parsePathSub d' \<noteq> None"
  shows "wire_path_ok Y \<and> wire_path_ok (Y @ bracketed d')"
proof -
  obtain p where p: "Y @ bracketed d = ''$.'' @ p" "p \<noteq> []" "is_ok (scanPathHops p)"
    using assms(1) by (auto simp: wire_path_ok_def ParseFilterPath_ok_scan)
  then obtain Y' where Y': "Y = ''$.'' @ Y'" "p = Y' @ bracketed d" using leader_bracketed by blast
  then have ok: "Y' \<noteq> []" "is_ok (scanPathHops Y')" using p(3) scan_bracketed [OF assms(2)] by auto
  then have "is_ok (scanPathHops (Y' @ bracketed d'))" using scan_bracketed [OF assms(3)] assms(4) by simp
  then show ?thesis using ok Y'(1) unfolding wire_path_ok_def by (auto simp: ParseFilterPath_ok_scan)
qed

lemma wire_path_parses:
  "wire_path_ok jp \<longleftrightarrow> (\<exists>rest hops. jp = ''$.'' @ rest \<and> ParseFilterPath rest = Ok hops \<and> hops \<noteq> [])"
  by (auto simp: wire_path_ok_def ValidateFilterPath_None dest: ParseFilterPath_spec)

text \<open>The textual fallback never makes a legal path: an element path is legal only if the clause's is.\<close>

lemma element_path_legal:
  assumes "wire_path_ok (desugarArrayElementPath jp i)"
  shows "wire_path_ok jp"
proof (rule ccontr)
  assume bad: "\<not> wire_path_ok jp"
  have star: "bracket_free ''*''" "parsePathSub ''*'' \<noteq> None" by (simp_all add: bracket_free_def parsePathSub_def)
  have fb: "desugarArrayElementPath jp i =
      (if has_suffix jp ''[*]'' then take (length jp - 3) jp @ index_text i else jp @ index_text i)"
  proof (cases "strip_prefix jsonPathLeader jp")
    case (Some rest)
    then have "jp = ''$.'' @ rest" by (simp add: strip_prefix_Some_iff jsonPathLeader_def)
    then have "\<And>hops. ParseFilterPath rest = Ok hops \<Longrightarrow> hops = []" using bad by (auto simp: wire_path_parses)
    then show ?thesis using Some by (auto simp: desugarArrayElementPath_def Let_def split: sum.split)
  qed (simp add: desugarArrayElementPath_def)
  show False
  proof (cases "has_suffix jp ''[*]''")
    case True
    then obtain Y where Y: "jp = Y @ bracketed ''*''" by (auto simp: has_suffix_iff bracketed_def)
    then have "desugarArrayElementPath jp i = Y @ bracketed (dec_str i)"
      using fb True by (simp add: index_text_bracketed bracketed_def)
    then show False using wire_path_bracketed [of Y "dec_str i" "''*''"] assms bad Y star index_text_bracketed(2)
      by simp
  next
    case False
    then show False using wire_path_bracketed [of jp "dec_str i" "''*''"] assms bad fb star index_text_bracketed
      by simp
  qed
qed

lemma wire_path_of: "wire_path_ok jp \<Longrightarrow>
  \<exists>rest. jp = ''$.'' @ rest \<and> rest \<noteq> [] \<and> ParseFilterPath rest = Ok (path_of jp) \<and> path_of jp \<noteq> []
    \<and> strip_prefix jsonPathLeader jp = Some rest"
proof -
  assume "wire_path_ok jp"
  then obtain rest hops where r: "jp = ''$.'' @ rest" "ParseFilterPath rest = Ok hops" "hops \<noteq> []"
    by (auto simp: wire_path_parses)
  moreover have "strip_prefix jsonPathLeader jp = Some rest" using r(1) by (simp add: jsonPathLeader_def)
  moreover have "rest \<noteq> []" using r by (auto simp: ParseFilterPath_def)
  ultimately show ?thesis by (simp add: path_of_def)
qed

lemma path_of_element:
  assumes "wire_path_ok (desugarArrayElementPath jp i)"
  shows "path_of (desugarArrayElementPath jp i) = element_hops (path_of jp) i"
proof -
  obtain rest where rest: "jp = ''$.'' @ rest" "ParseFilterPath rest = Ok (path_of jp)" "path_of jp \<noteq> []"
      "strip_prefix jsonPathLeader jp = Some rest"
    using wire_path_of [OF element_path_legal [OF assms]] by blast
  let ?es = "element_hops (path_of jp) i"
  have d: "desugarArrayElementPath jp i = ''$.'' @ renderPathHops ?es False"
    using rest by (simp add: desugarArrayElementPath_def jsonPathLeader_def Let_def)
  obtain p where p: "renderPathHops ?es False = p" "p \<noteq> []" "is_ok (scanPathHops p)"
    using assms d by (auto simp: wire_path_ok_def ParseFilterPath_ok_scan)
  have "parsePathSub (dec_str i) \<noteq> None"
    using p(3) scan_bracketed [OF index_text_bracketed(2) [of i]]
    unfolding p(1) [symmetric] render_element index_text_bracketed(1) by blast
  moreover have "dec_str i \<noteq> ''*''" using dec_str_digits [of i] by (auto simp: is_digit_def)
  ultimately have "sub_ok (Index i)" by (auto simp: parsePathSub_def sub_ok_def split: if_splits)
  moreover have "list_all hop_ok (path_of jp)" using ParseFilterPath_spec rest(2) by blast
  moreover obtain cs where "?es = butlast (path_of jp) @ [(last (path_of jp))\<lparr>Subs := cs @ [Index i]\<rparr>]"
      "set cs \<subseteq> set (Subs (last (path_of jp)))"
    by (rule element_container)
  moreover have "hop_ok (last (path_of jp))"
    using last_in_set [OF rest(3)] \<open>list_all hop_ok (path_of jp)\<close> by (simp add: list_all_iff)
  ultimately have "list_all hop_ok ?es"
    by (auto simp: hop_ok_def list_all_iff subset_iff dest: in_set_butlastD)
  then show ?thesis using parse_render [of ?es] d by (simp add: path_of_def jsonPathLeader_def)
qed

subsection \<open>Translation keeps the meaning\<close>

lemma leaf_op_not_group:
  "LookupOperator opn = Some p \<Longrightarrow>
   p \<noteq> FilterAnd \<and> p \<noteq> FilterOr \<and> p \<noteq> FilterNot \<and> p \<noteq> FilterOpOther [] \<and> p = MapOperator opn"
  using MapOperator_leaf [of opn p] by auto

lemma betweenValues_strings:
  "betweenValues p v = Some vs \<Longrightarrow>
   valuesToStrings vs = (if isRange p then (case v of GSlice ws \<Rightarrow> valuesToStrings ws | _ \<Rightarrow> []) else [])"
  by (cases v) (auto simp: betweenValues_def valuesToStrings_def split: if_splits)

lemma simple_holds:
  assumes "simpleToFilter jp opn v fm = Ok f"
  shows "holds g ext data meta f = cond_holds g ext fm data meta (SimpleCondition jp opn v)"
proof -
  from assms obtain bare p vs where f: "stripDollarDot jp = Ok bare" "LookupOperator opn = Some p"
      "betweenValues p v = Some vs"
      "f = Filter p bare SourceData v vs [] (dataCoercion (foldSubscriptWildcards (NormalisePath jp)) fm)
             (declared_types fm (foldSubscriptWildcards (NormalisePath jp)))"
    by (auto simp: simpleToFilter_def Let_def split: sum.splits option.splits)
  then have "wire_path_ok jp" using stripDollarDot_ok [of jp] by simp
  then obtain rest where rest: "jp = ''$.'' @ rest" "rest \<noteq> []" "ParseFilterPath rest = Ok (path_of jp)"
    using wire_path_of by blast
  have bare: "bare = rest" using f(1) rest(1) stripDollarDot_iff [of jp bare] by simp
  have key: "foldSubscriptWildcards (NormalisePath jp) = hops_key (path_of jp)"
    using key_of_path [OF rest(3,2)] rest(1) by simp
  show ?thesis
    using leaf_op_not_group [OF f(2)] betweenValues_strings [OF f(3)] rest(3)
    by (auto simp: f(4) bare key leaf_values_def leaf_holds_def op_holds_def)
qed

lemma lifecycle_holds:
  assumes "lifecycleToFilter fld opn v = Ok f"
  shows "holds g ext data meta f = cond_holds g ext fm data meta (LifecycleCondition fld opn v)"
proof -
  define field where "field = (if fld = ''previousTransition'' then ''transitionForLatestSave'' else fld)"
  from assms obtain p vs co where f: "LookupOperator opn = Some p" "betweenValues p v = Some vs"
      "f = Filter p field SourceMeta v vs [] co (if IsTemporalMetaField field then [ZonedDateTime] else [String])"
    unfolding lifecycleToFilter_def field_def [symmetric] Let_def
    by (auto split: option.splits if_splits)
  have p: "p \<noteq> FilterAnd" "p \<noteq> FilterOr" "p \<noteq> FilterNot" "MapOperator opn = p"
    using leaf_op_not_group [OF f(1)] by auto
  then show ?thesis
    unfolding f(3) cond_holds.simps field_def [symmetric] Let_def
    by (simp add: leaf_values_def leaf_holds_def op_holds_def betweenValues_strings [OF f(2)])
qed

lemma group_holds:
  assumes "groupOperatorToFilterOp opn = Some p" "list_all2 (\<lambda>c f. P c = holds g ext data meta f) cs fs"
  shows "holds g ext data meta (Filter p q src v vs fs co decl) =
    (if opn = ''AND'' then \<forall>c \<in> set cs. P c else if opn = ''OR'' then \<exists>c \<in> set cs. P c
     else \<not> (\<exists>c \<in> set cs. P c))"
proof -
  have "(\<forall>c \<in> set cs. P c) = (\<forall>f \<in> set fs. holds g ext data meta f)"
    "(\<exists>c \<in> set cs. P c) = (\<exists>f \<in> set fs. holds g ext data meta f)"
    using assms(2) by (induction rule: list_all2_induct) auto
  then show ?thesis using assms(1) by (auto simp: groupOperatorToFilterOp_def split: if_splits)
qed

lemma desugared_holds:
  "desugaredToFilter fm d = Ok f \<Longrightarrow> holds g ext data meta f = cond_holds g ext fm data meta d"
proof (induction fm d arbitrary: f rule: desugaredToFilter.induct)
  case (3 fm opn cs)
  then obtain p fs where p: "groupOperatorToFilterOp opn = Some p"
      "map_res (desugaredToFilter fm) cs = Ok fs" "f = Filter p [] (SourceOther []) GNil [] fs CoerceNone []"
    by (auto split: option.splits sum.splits)
  have "list_all2 (\<lambda>c f. cond_holds g ext fm data meta c = holds g ext data meta f) cs fs"
    using p(2) unfolding map_res_Ok_iff by (rule list.rel_mono_strong) (simp add: 3(1) [OF p(1)])
  then show ?case using group_holds [OF p(1)] unfolding p(3) by (simp only: cond_holds.simps)
qed (simp_all add: simple_holds lifecycle_holds del: cond_holds.simps(1,2))

lemma tested_iff: "(i, v) \<in> set (tested vs) \<longleftrightarrow> i < length vs \<and> vs ! i = v \<and> v \<noteq> GNil"
  by (auto simp: tested_def in_set_enumerate_eq)

lemma element_holds:
  assumes "wire_path_ok (desugarArrayElementPath jp i)"
  shows "cond_holds g ext fm data meta (SimpleCondition (desugarArrayElementPath jp i) opn v) \<longleftrightarrow>
    (\<exists>r \<in> set (addressed g (container_hops (path_of jp)) (gj_parse g data)).
       op_holds ext opn v (declared_types fm (elements_key (path_of jp))) (gj_stored g (element_at g r i)))"
  by (simp add: path_of_element [OF assms] element_addressed element_key)

lemma array_holds:
  assumes "desugarArrayCondition jp opn vs = Ok d" "cond_ok d"
  shows "cond_holds g ext fm data meta d = cond_holds g ext fm data meta (ArrayCondition jp opn vs)"
proof -
  let ?leaf = "\<lambda>(i, v). SimpleCondition (desugarArrayElementPath jp i) opn v"
  define R where "R i v \<longleftrightarrow> (\<exists>r \<in> set (addressed g (container_hops (path_of jp)) (gj_parse g data)).
      op_holds ext opn v (declared_types fm (elements_key (path_of jp))) (gj_stored g (element_at g r i)))" for i v
  have ok: "list_all (\<lambda>(i, v). wire_path_ok (desugarArrayElementPath jp i)) (tested vs)"
    using desugar_array [OF assms(1)] assms(2) by (auto simp: list_all_iff)
  have "cond_holds g ext fm data meta d \<longleftrightarrow> (\<forall>t \<in> set (tested vs). cond_holds g ext fm data meta (?leaf t))"
    using assms(1) by (auto simp: desugarArrayCondition_def Let_def simp del: cond_holds.simps(1) split: list.splits)
  also have "\<dots> \<longleftrightarrow> (\<forall>t \<in> set (tested vs). R (fst t) (snd t))"
  proof (rule ball_cong [OF refl])
    fix t assume "t \<in> set (tested vs)"
    then have "wire_path_ok (desugarArrayElementPath jp (fst t))" using ok by (auto simp: list_all_iff)
    then show "cond_holds g ext fm data meta (?leaf t) \<longleftrightarrow> R (fst t) (snd t)"
      using element_holds [of jp "fst t" g ext fm data meta opn "snd t"] by (simp add: R_def split_beta)
  qed
  also have "\<dots> \<longleftrightarrow> (\<forall>i < length vs. vs ! i \<noteq> GNil \<longrightarrow> R i (vs ! i))"
  proof
    show "\<forall>i < length vs. vs ! i \<noteq> GNil \<longrightarrow> R i (vs ! i)" if "\<forall>t \<in> set (tested vs). R (fst t) (snd t)"
      using bspec [OF that, of "(i, vs ! i)" for i] by (simp add: tested_iff)
  qed (auto simp: tested_iff)
  finally show ?thesis by (simp add: R_def)
qed

lemma desugar_holds:
  "DesugarCondition c = Ok d \<Longrightarrow> cond_ok d \<Longrightarrow>
   cond_holds g ext fm data meta d = cond_holds g ext fm data meta c"
proof (induction c arbitrary: d rule: DesugarCondition.induct)
  case (1 jp opn vs)
  then show ?case using array_holds by (simp del: cond_holds.simps)
next
  case (2 p cs)
  then obtain ds where ds: "map_res DesugarCondition cs = Ok ds" "d = GroupCondition p ds"
    by (auto split: sum.splits)
  have "list_all2 (\<lambda>c d. cond_holds g ext fm data meta d = cond_holds g ext fm data meta c) cs ds"
    using ds(1) unfolding map_res_Ok_iff
  proof (rule list.rel_mono_strong)
    fix c d assume "c \<in> set cs" "d \<in> set ds" "DesugarCondition c = Ok d"
    then show "cond_holds g ext fm data meta d = cond_holds g ext fm data meta c"
      using 2(1) 2(3) ds(2) by (simp add: list_all_iff)
  qed
  then have "(\<forall>d \<in> set ds. cond_holds g ext fm data meta d) = (\<forall>c \<in> set cs. cond_holds g ext fm data meta c)"
    "(\<exists>d \<in> set ds. cond_holds g ext fm data meta d) = (\<exists>c \<in> set cs. cond_holds g ext fm data meta c)"
    by (induction rule: list_all2_induct) auto
  then show ?case using ds(2) by simp
qed simp_all

lemma ConditionToFilter_holds:
  assumes "ConditionToFilter c fm = Ok f"
  shows "holds g ext data meta f = cond_holds g ext fm data meta c"
proof -
  obtain d where d: "DesugarCondition c = Ok d" "desugaredToFilter fm d = Ok f"
    using assms by (auto simp: ConditionToFilter_def split: if_splits sum.splits)
  have "cond_ok d" using desugaredToFilter_ok [of fm d] d(2) by simp
  then show ?thesis
    using desugared_holds [OF d(2), of g ext data meta] desugar_holds [OF d(1), of g ext fm data meta] by simp
qed

subsection \<open>What the validators accept\<close>

fun height :: "cond \<Rightarrow> nat" where
  "height NilCondition = 0"
| "height (GroupCondition opn cs) = Suc (foldr (\<lambda>c m. max (height c) m) cs 0)"
| "height (ArrayCondition jp opn vs) = (if length (tested vs) = 1 then 2 else 3)"
| "height c = 1"

lemma height_children: "foldr (\<lambda>c m. max (height c) m) cs 0 \<le> n \<longleftrightarrow> (\<forall>c \<in> set cs. height c \<le> n)"
  by (induction cs) auto

text \<open>A tree whose leaves and group operators pass a check, array clauses read as their leaves.\<close>

fun tree_ok :: "(string \<Rightarrow> string \<Rightarrow> go_any \<Rightarrow> bool) \<Rightarrow> (string \<Rightarrow> bool) \<Rightarrow> cond \<Rightarrow> bool" where
  "tree_ok L G (SimpleCondition jp opn v) = L jp opn v"
| "tree_ok L G (LifecycleCondition fld opn v) = L fld opn v"
| "tree_ok L G (GroupCondition opn cs) = (G opn \<and> (\<forall>c \<in> set cs. tree_ok L G c))"
| "tree_ok L G (ArrayCondition jp opn vs) =
     (tested vs \<noteq> [] \<and> (\<forall>(i, v) \<in> set (tested vs). L (desugarArrayElementPath jp i) opn v))"
| "tree_ok L G c = True"

text \<open>What the two walkers have in common: a leaf check, a group check and the depth cap.\<close>

locale depth_validator =
  fixes V :: "cond \<Rightarrow> nat \<Rightarrow> condition_error option"
    and L :: "string \<Rightarrow> string \<Rightarrow> go_any \<Rightarrow> bool" and G :: "string \<Rightarrow> bool"
  assumes nil: "V NilCondition k = None"
    and deep: "c \<noteq> NilCondition \<Longrightarrow> MaxConditionDepth \<le> k \<Longrightarrow> V c k \<noteq> None"
    and simple: "k < MaxConditionDepth \<Longrightarrow> V (SimpleCondition jp opn v) k = None \<longleftrightarrow> L jp opn v"
    and lifecycle: "k < MaxConditionDepth \<Longrightarrow> V (LifecycleCondition jp opn v) k = None \<longleftrightarrow> L jp opn v"
    and group: "k < MaxConditionDepth \<Longrightarrow>
      V (GroupCondition opn cs) k = None \<longleftrightarrow> G opn \<and> (\<forall>c \<in> set cs. V c (Suc k) = None)"
    and array: "k < MaxConditionDepth \<Longrightarrow>
      V (ArrayCondition jp opn vs) k = None \<longleftrightarrow>
        (\<exists>d. desugarArrayCondition jp opn vs = Ok d \<and> V d (Suc k) = None)"
    and other: "k < MaxConditionDepth \<Longrightarrow> V (FunctionCondition raw pre) k = None"
      "k < MaxConditionDepth \<Longrightarrow> V (ForeignCondition s) k = None"
    and conj: "G ''AND''"
begin

lemma leaf_at: "V (SimpleCondition jp opn v) k = None \<longleftrightarrow> k < MaxConditionDepth \<and> L jp opn v"
  using simple [of k jp opn v] deep [of "SimpleCondition jp opn v" k] by (cases "k < MaxConditionDepth") auto

lemma array_at:
  "V (ArrayCondition jp opn vs) k = None \<longleftrightarrow>
     tree_ok L G (ArrayCondition jp opn vs) \<and> k + height (ArrayCondition jp opn vs) \<le> MaxConditionDepth"
proof (cases "k < MaxConditionDepth")
  case True
  let ?leaf = "\<lambda>(i, v). SimpleCondition (desugarArrayElementPath jp i) opn v"
  consider "tested vs = []" | t where "tested vs = [t]" | t u ts where "tested vs = t # u # ts"
    by (cases "tested vs" rule: remdups_adj.cases) auto
  then show ?thesis
  proof cases
    case 1
    then show ?thesis using array [OF True] by (simp add: desugarArrayCondition_def)
  next
    case 2
    then show ?thesis using array [OF True]
      by (cases t) (auto simp: desugarArrayCondition_def leaf_at)
  next
    case 3
    have d: "desugarArrayCondition jp opn vs = Ok (GroupCondition ''AND'' (map ?leaf (tested vs)))"
      by (simp add: desugarArrayCondition_def 3)
    have "V (GroupCondition ''AND'' (map ?leaf (tested vs))) (Suc k) = None \<longleftrightarrow>
        Suc k < MaxConditionDepth \<and> (\<forall>t \<in> set (tested vs). V (?leaf t) (Suc (Suc k)) = None)"
      using group [of "Suc k" "''AND''" "map ?leaf (tested vs)"] conj
        deep [of "GroupCondition ''AND'' (map ?leaf (tested vs))" "Suc k"]
      by (cases "Suc k < MaxConditionDepth") auto
    also have "\<dots> \<longleftrightarrow> Suc (Suc k) < MaxConditionDepth
        \<and> (\<forall>(i, v) \<in> set (tested vs). L (desugarArrayElementPath jp i) opn v)"
      using 3 by (cases t) (auto simp: leaf_at split_beta)
    finally show ?thesis using array [OF True] d 3 by auto
  qed
next
  case False
  then show ?thesis using deep [of "ArrayCondition jp opn vs" k] by simp
qed

lemma validates:
  "k \<le> MaxConditionDepth \<Longrightarrow> V c k = None \<longleftrightarrow> tree_ok L G c \<and> k + height c \<le> MaxConditionDepth"
proof (induction c arbitrary: k)
  case (GroupCondition opn cs)
  show ?case
  proof (cases "k < MaxConditionDepth")
    case True
    then have "V (GroupCondition opn cs) k = None \<longleftrightarrow>
        G opn \<and> (\<forall>c \<in> set cs. tree_ok L G c \<and> Suc k + height c \<le> MaxConditionDepth)"
      using group [OF True] GroupCondition.IH [of _ "Suc k"] by auto
    moreover have "(\<forall>c \<in> set cs. Suc k + height c \<le> MaxConditionDepth) \<longleftrightarrow>
        k + height (GroupCondition opn cs) \<le> MaxConditionDepth"
    proof -
      have "(\<forall>c \<in> set cs. Suc k + height c \<le> MaxConditionDepth) \<longleftrightarrow>
          (\<forall>c \<in> set cs. height c \<le> MaxConditionDepth - Suc k)" using True by auto
      also have "\<dots> \<longleftrightarrow> foldr (\<lambda>c m. max (height c) m) cs 0 \<le> MaxConditionDepth - Suc k"
        by (simp add: height_children)
      finally show ?thesis using True by auto
    qed
    ultimately show ?thesis by auto
  next
    case False
    then show ?thesis using deep [of "GroupCondition opn cs" k] by simp
  qed
next
  case (ArrayCondition jp opn vs)
  show ?case by (rule array_at)
next
  case (SimpleCondition jp opn v)
  then show ?case using leaf_at by auto
next
  case (LifecycleCondition fld opn v)
  then show ?case using lifecycle [of k fld opn v] deep [of "LifecycleCondition fld opn v" k]
    by (cases "k < MaxConditionDepth") auto
next
  case (FunctionCondition raw pre)
  then show ?case using other(1) [of k raw pre] deep [of "FunctionCondition raw pre" k]
    by (cases "k < MaxConditionDepth") auto
next
  case (ForeignCondition s)
  then show ?case using other(2) [of k s] deep [of "ForeignCondition s" k]
    by (cases "k < MaxConditionDepth") auto
qed (simp add: nil)

end

definition operators_ok :: "cond \<Rightarrow> bool" where
  "operators_ok = tree_ok (\<lambda>loc opn v. LookupOperator opn \<noteq> None) (\<lambda>opn. opn \<in> {''AND'', ''OR'', ''NOT''})"

definition patterns_ok :: "'u ext \<Rightarrow> cond \<Rightarrow> bool" where
  "patterns_ok ext = tree_ok (\<lambda>loc opn v. is_ok (compileLeafPattern ext (MapOperator opn) v)) (\<lambda>opn. True)"

lemma validateOperatorsAtDepth_eqs:
  "validateOperatorsAtDepth NilCondition k = None"
  "c \<noteq> NilCondition \<Longrightarrow> MaxConditionDepth \<le> k \<Longrightarrow> validateOperatorsAtDepth c k = Some DepthExceeded"
  "k < MaxConditionDepth \<Longrightarrow> validateOperatorsAtDepth (SimpleCondition jp opn v) k = checkOperator opn"
  "k < MaxConditionDepth \<Longrightarrow> validateOperatorsAtDepth (LifecycleCondition fld opn v) k = checkOperator opn"
  "k < MaxConditionDepth \<Longrightarrow> validateOperatorsAtDepth (GroupCondition opn cs) k =
     (if groupOperatorToFilterOp opn = None then Some (ErrUnknownGroupOperator opn) else first_error (\<lambda>d. validateOperatorsAtDepth d (k + 1)) cs)"
  "k < MaxConditionDepth \<Longrightarrow> validateOperatorsAtDepth (ArrayCondition jp opn vs) k =
     (case desugarArrayCondition jp opn vs of Inl e \<Rightarrow> Some e | Inr d \<Rightarrow> validateOperatorsAtDepth d (k + 1))"
  "k < MaxConditionDepth \<Longrightarrow> validateOperatorsAtDepth (FunctionCondition raw pre) k = None"
  "k < MaxConditionDepth \<Longrightarrow> validateOperatorsAtDepth (ForeignCondition s) k = None"
  by (subst validateOperatorsAtDepth.simps; simp cong: sum.case_cong)+

lemma validatePatternsAtDepth_eqs:
  "validatePatternsAtDepth ext NilCondition k = None"
  "c \<noteq> NilCondition \<Longrightarrow> MaxConditionDepth \<le> k \<Longrightarrow> validatePatternsAtDepth ext c k = Some DepthExceeded"
  "k < MaxConditionDepth \<Longrightarrow> validatePatternsAtDepth ext (SimpleCondition jp opn v) k = checkPattern ext opn v jp"
  "k < MaxConditionDepth \<Longrightarrow> validatePatternsAtDepth ext (LifecycleCondition fld opn v) k = checkPattern ext opn v fld"
  "k < MaxConditionDepth \<Longrightarrow> validatePatternsAtDepth ext (GroupCondition opn cs) k =
     first_error (\<lambda>d. validatePatternsAtDepth ext d (k + 1)) cs"
  "k < MaxConditionDepth \<Longrightarrow> validatePatternsAtDepth ext (ArrayCondition jp opn vs) k =
     (case desugarArrayCondition jp opn vs of Inl e \<Rightarrow> Some e | Inr d \<Rightarrow> validatePatternsAtDepth ext d (k + 1))"
  "k < MaxConditionDepth \<Longrightarrow> validatePatternsAtDepth ext (FunctionCondition raw pre) k = None"
  "k < MaxConditionDepth \<Longrightarrow> validatePatternsAtDepth ext (ForeignCondition s) k = None"
  by (subst validatePatternsAtDepth.simps; simp cong: sum.case_cong)+

lemma check_None:
  "checkOperator opn = None \<longleftrightarrow> LookupOperator opn \<noteq> None"
  "checkPattern ext opn v loc = None \<longleftrightarrow> is_ok (compileLeafPattern ext (MapOperator opn) v)"
  by (simp_all add: checkOperator_def checkPattern_def split: sum.split)

lemma case_error_None: "(case r of Inl e \<Rightarrow> Some e | Inr d \<Rightarrow> f d) = None \<longleftrightarrow> (\<exists>d. r = Inr d \<and> f d = None)"
  by (cases r) auto

lemma if_Some_None: "(if b then Some x else y) = None \<longleftrightarrow> \<not> b \<and> y = None"
  by simp

lemma groupOperator_None: "groupOperatorToFilterOp s = None \<longleftrightarrow> s \<notin> {''AND'', ''OR'', ''NOT''}"
  using groupOperator_ok [of s] by blast

lemmas validator_simps = check_None case_error_None if_Some_None first_error_None groupOperator_None

interpretation ops: depth_validator validateOperatorsAtDepth
    "\<lambda>loc opn v. LookupOperator opn \<noteq> None" "\<lambda>opn. opn \<in> {''AND'', ''OR'', ''NOT''}"
  by unfold_locales
    (simp_all only: validateOperatorsAtDepth_eqs validator_simps, simp_all add: validateOperatorsAtDepth_eqs(2))

interpretation pats: depth_validator "validatePatternsAtDepth ext"
    "\<lambda>loc opn v. is_ok (compileLeafPattern ext (MapOperator opn) v)" "\<lambda>opn. True" for ext
  by unfold_locales
    (simp_all only: validatePatternsAtDepth_eqs validator_simps, simp_all add: validatePatternsAtDepth_eqs(2))

subsection \<open>What translation leaves to \<open>Prepare\<close>\<close>

fun filter_typed :: "filter \<Rightarrow> bool" where
  "filter_typed (Filter p path src v vs cs co decl) =
     (if p \<in> {FilterAnd, FilterOr, FilterNot} then \<forall>c \<in> set cs. filter_typed c
      else leafKindOf p \<noteq> None
        \<and> (src = SourceMeta \<or> src = SourceData \<and> path \<noteq> [] \<and> ValidateFilterPath path = None)
        \<and> ValidateOperand p (if isRange p then GSlice vs else v) = None)"

text \<open>The causes the translation leaves: arity, the metadata vocabulary, expansion and patterns.\<close>

definition late_error :: "prepare_error \<Rightarrow> bool" where
  "late_error e \<longleftrightarrow> (\<exists>n. e = NotArity n) \<or> (\<exists>p. e = BadMetaPath p)
     \<or> (\<exists>s p x. e = BadExpansion s p x) \<or> (\<exists>p x. e = BadPattern p x)"

lemma typed_leaf:
  assumes "LookupOperator opn = Some p" "ValidateOperand p v = None" "betweenValues p v = Some vs"
    and "src = SourceMeta \<or> src = SourceData \<and> path \<noteq> [] \<and> ValidateFilterPath path = None"
  shows "filter_typed (Filter p path src v vs [] co decl)"
proof -
  have "ValidateOperand p (GSlice vs) = None" if "isRange p"
    using assms(2,3) that by (cases v) (auto simp: betweenValues_def)
  then show ?thesis using assms MapOperator_leaf [OF assms(1)] leaf_op_not_group [OF assms(1)] by simp
qed

lemma desugared_typed: "desugaredToFilter fm d = Ok f \<Longrightarrow> filter_typed f"
proof (induction fm d arbitrary: f rule: desugaredToFilter.induct)
  case (1 fm jp opn v)
  then obtain bare p vs where f: "stripDollarDot jp = Ok bare" "LookupOperator opn = Some p"
      "ValidateOperand p v = None" "betweenValues p v = Some vs"
      "\<exists>co decl. f = Filter p bare SourceData v vs [] co decl"
    by (auto simp: simpleToFilter_def Let_def split: sum.splits option.splits)
  have "bare \<noteq> [] \<and> ValidateFilterPath bare = None" using f(1) stripDollarDot_iff [of jp bare] by simp
  then show ?case using typed_leaf [OF f(2-4), of SourceData bare] f(5) by blast
next
  case (2 fm fld opn v)
  then obtain p vs where "LookupOperator opn = Some p" "ValidateOperand p v = None"
      "betweenValues p v = Some vs" "\<exists>path co decl. f = Filter p path SourceMeta v vs [] co decl"
    by (auto simp: lifecycleToFilter_def Let_def split: option.splits if_splits)
  then show ?case using typed_leaf by blast
next
  case (3 fm opn cs)
  then obtain p fs where p: "groupOperatorToFilterOp opn = Some p"
      "map_res (desugaredToFilter fm) cs = Ok fs" "f = Filter p [] (SourceOther []) GNil [] fs CoerceNone []"
    by (auto split: option.splits sum.splits)
  have "list_all2 (\<lambda>c f. filter_typed f) cs fs"
    using p(2) unfolding map_res_Ok_iff by (rule list.rel_mono_strong) (simp add: 3(1) [OF p(1)])
  then have "\<forall>f \<in> set fs. filter_typed f" by (induction rule: list_all2_induct) auto
  then show ?case using group_op [OF p(1)] p(3) by simp
qed simp_all

lemma prepare_leaf_late:
  assumes "prepare_leaf ext (Filter p path src v vs cs co decl) = Err e" "e \<noteq> PatternDiverged"
    and "leafKindOf p \<noteq> None" "is_ok (prepare_path src path) \<or> src = SourceMeta"
    and "ValidateOperand p (if isRange p then GSlice vs else v) = None"
  shows "late_error e"
proof (cases "prepare_path src path")
  case (Inl e')
  then have "src = SourceMeta" using assms(4) by simp
  then have "e' = BadMetaPath path" using Inl by (simp add: prepare_path_def split: if_splits)
  then have "e = BadMetaPath path" using assms(1,3) Inl by (simp add: prepare_leaf_def split: if_splits)
  then show ?thesis by (simp add: late_error_def)
next
  case (Inr hops)
  show ?thesis
  proof (cases "ExpandLeaf ext p (OperandString v) (valuesToStrings vs) decl")
    case (Inl x)
    then have "e = BadExpansion (truncateOperand (OperandString v)) p x"
      using assms(1) unfolding prepare_leaf_def filter.sel Let_def using assms(3,5) Inr by simp
    then show ?thesis by (simp add: late_error_def)
  next
    case x: (Inr x)
    have "(case ValidateLeafPattern ext p v of Some (q, pe) \<Rightarrow> Err (BadPattern q pe) | None \<Rightarrow> Err PatternDiverged)
        = (Err e :: prepare_error + 'a prepared_node)"
      using assms(1) unfolding prepare_leaf_def filter.sel Let_def using assms(3,5) Inr x
      by (simp split: if_splits)
    then show ?thesis using assms(2) by (auto simp: late_error_def split: option.splits)
  qed
qed

lemma typed_prepare: "filter_typed f \<Longrightarrow> prepareNode ext f = Err e \<Longrightarrow> late_error e"
proof (induction ext f arbitrary: e rule: prepareNode.induct)
  case (1 ext p path src v vs cs co decl)
  show ?case
  proof (cases "p = FilterAnd \<or> p = FilterOr")
    case True
    then have "prepareNode ext (Filter p path src v vs cs co decl) =
        (case map_res (prepareNode ext) cs of Inl e \<Rightarrow> Err e | Inr ns \<Rightarrow> Ok (Group p ns))"
      by simp
    then have "map_res (prepareNode ext) cs = Err e"
      using 1(4) by (cases "map_res (prepareNode ext) cs") simp_all
    then obtain c where c: "c \<in> set cs" "prepareNode ext c = Err e"
      using map_res_Err [of "prepareNode ext" cs e] by auto
    have "filter_typed c" using 1(3) True c(1) by auto
    from 1(1) [OF True c(1) this c(2)] show ?thesis .
  next
    case False
    show ?thesis
    proof (cases "p = FilterNot")
      case True
      show ?thesis
      proof (cases "\<exists>c. cs = [c]")
        case one: True
        then obtain c where c: "cs = [c]" by blast
        have "prepareNode ext c = Err e" "filter_typed c" using 1(3,4) True c by (auto split: sum.splits)
        with 1(2) [OF False True c] show ?thesis by blast
      next
        case other: False
        then have "e = NotArity (length cs)" using 1(4) True by (auto split: list.splits)
        then show ?thesis by (simp add: late_error_def)
      qed
    next
      case leaf: False
      let ?f = "Filter p path src v vs cs co decl"
      have t: "leafKindOf p \<noteq> None" "is_ok (prepare_path src path) \<or> src = SourceMeta"
          "ValidateOperand p (if isRange p then GSlice vs else v) = None"
        using 1(3) False leaf by (auto simp: prepare_path_ok)
      have "prepare_leaf ext ?f = Err e" "e \<noteq> PatternDiverged"
        using 1(4) False leaf prepareNode_no_divergence [of ext ?f] by auto
      then show ?thesis using prepare_leaf_late t by blast
    qed
  qed
qed

subsection \<open>Properties\<close>

lemma OperatorNames_table:
  "LookupOperator s \<noteq> None \<longleftrightarrow> s \<in> set OperatorNames"
proof -
  have "fst ` set operator_table = set OperatorNames"
    by (auto simp: operator_table_def OperatorNames_def canonicalOperatorNames_def)
  moreover have "LookupOperator s \<noteq> None \<longleftrightarrow> map_of operator_table s \<noteq> None"
  proof -
    have "p \<noteq> FilterOpOther []" if "map_of operator_table s = Some p" for p
      using map_of_SomeD [OF that] by (auto simp: operator_table_def)
    then show ?thesis by (auto simp: LookupOperator_def MapOperator_def Let_def split: option.splits)
  qed
  ultimately show ?thesis by (simp add: map_of_eq_None_iff)
qed

text \<open>C32: the translation succeeds on exactly the well-formed conditions: legal wire paths, known leaf and
  group operators, operands the operator accepts, array clauses that test some position, and no
  function condition or foreign type anywhere; its type assertion never panics.\<close>

theorem ConditionToFilter_accepts:
  "is_ok (ConditionToFilter c fm) = cond_ok c \<and> ConditionToFilter c fm \<noteq> Err TypeAssertionPanic"
proof
  show "is_ok (ConditionToFilter c fm) = cond_ok c" by (rule ConditionToFilter_ok)
  have simple: "simpleToFilter jp opn v fm \<noteq> Err TypeAssertionPanic" for jp opn v
    by (auto simp: simpleToFilter_def Let_def dest: betweenValues_None split: sum.splits option.splits)
  have lifecycle: "lifecycleToFilter fld opn v \<noteq> Err TypeAssertionPanic" for fld opn v
    by (auto simp: lifecycleToFilter_def Let_def dest: betweenValues_None split: option.splits)
  have d: "desugaredToFilter fm d \<noteq> Err TypeAssertionPanic" for d
  proof (induction d)
    case (GroupCondition opn cs)
    then have "map_res (desugaredToFilter fm) cs \<noteq> Err TypeAssertionPanic"
      using map_res_Err [of "desugaredToFilter fm" cs TypeAssertionPanic] by blast
    then show ?case by (auto split: option.splits sum.splits)
  qed (simp_all add: simple lifecycle)
  have "DesugarCondition c \<noteq> Err TypeAssertionPanic"
  proof (induction c)
    case (GroupCondition opn cs)
    then have "map_res DesugarCondition cs \<noteq> Err TypeAssertionPanic"
      using map_res_Err [of DesugarCondition cs TypeAssertionPanic] by blast
    then show ?case by (auto split: sum.splits)
  next
    case (ArrayCondition jp opn vs)
    then show ?case by (auto simp: desugarArrayCondition_def Let_def split: list.splits)
  qed simp_all
  then show "ConditionToFilter c fm \<noteq> Err TypeAssertionPanic"
    using d by (auto simp: ConditionToFilter_def split: sum.splits)
qed

lemma ConditionToFilter_match:
  assumes "ConditionToFilter c fm = Ok f" "Prepare ext f = Ok pf"
  shows "Match g ext pf data meta = cond_holds g ext fm data meta c"
proof -
  have "Op f \<noteq> FilterOpOther []"
  proof -
    obtain d where "DesugarCondition c = Ok d" "desugaredToFilter fm d = Ok f"
      using assms(1) by (auto simp: ConditionToFilter_def split: if_splits sum.splits)
    then have "filter_typed f" using desugared_typed by blast
    then show ?thesis by (cases f) auto
  qed
  then have "Match g ext pf data meta = holds g ext data meta f"
    using assms(2) prepareNode_match [of ext f _ g data meta] by (auto simp: Prepare_cases Match_def)
  then show ?thesis using ConditionToFilter_holds [OF assms(1)] by simp
qed

text \<open>C2: a translated and prepared condition selects exactly the rows where the condition holds: a leaf
  when some value its path addresses stands in the relation, an array clause when every tested position
  of the array does, groups by AND, OR and NOT.\<close>

theorem ConditionToFilter_meaning:
  assumes "ConditionToFilter c fm = Ok f" "Prepare ext f = Ok pf"
  shows "Match g ext pf data meta = cond_holds g ext fm data meta c"
  using assms by (rule ConditionToFilter_match)

definition sample_clause :: cond where
  "sample_clause = ArrayCondition ''$.tags[*]'' ''EQUALS'' [GString ''a'', GNil, GString ''c'']"

definition sample_fields :: fields_map where
  "sample_fields = [''$.tags[*]'' \<mapsto> \<lparr>fd_Path = ''$.tags[*]'', fd_Types = [String], fd_IsArray = True\<rparr>]"

definition sample_tags :: json where
  "sample_tags = JObject [(''tags'', JArray (map JString [''a'', ''b'', ''c'']))]"

definition sample_filter :: filter where
  "sample_filter = Filter FilterAnd [] (SourceOther []) GNil []
     [Filter FilterEq ''tags[0]'' SourceData (GString ''a'') [] [] CoerceNone [String],
      Filter FilterEq ''tags[2]'' SourceData (GString ''c'') [] [] CoerceNone [String]] CoerceNone []"

lemma sample_clause_filter: "ConditionToFilter sample_clause sample_fields = Ok sample_filter"
  by code_simp

lemma sample_clause_prepares: "\<exists>pf. Prepare no_ext sample_filter = Ok pf"
proof -
  have e: "is_ok (ExpandLeaf no_ext FilterEq ''a'' [] [String])" "is_ok (ExpandLeaf no_ext FilterEq ''c'' [] [String])"
    by code_simp+
  have p: "ValidateFilterPath ''tags[0]'' = None" "ValidateFilterPath ''tags[2]'' = None" by code_simp+
  have "filter_ok no_ext sample_filter"
    using e p by (simp add: sample_filter_def leaf_ok_def ValidateOperand_accepts isRange_def scalar_def
        valuesToStrings_def ValidateLeafPattern_other)
  then show ?thesis by (rule filter_ok_prepares)
qed

lemma sample_clause_holds: "cond_holds tree_gj no_ext sample_fields sample_tags zero_meta sample_clause"
proof -
  have a: "addressed tree_gj (container_hops (path_of ''$.tags[*]'')) (gj_parse tree_gj sample_tags) =
      [Some (JArray (map JString [''a'', ''b'', ''c'']))]" by code_simp
  have d: "declared_types sample_fields (elements_key (path_of ''$.tags[*]'')) = [String]" by code_simp
  have "op_holds no_ext ''EQUALS'' (GString ''a'') [String]
      (gj_stored tree_gj (element_at tree_gj (Some (JArray (map JString [''a'', ''b'', ''c'']))) 0))"
    "op_holds no_ext ''EQUALS'' (GString ''c'') [String]
      (gj_stored tree_gj (element_at tree_gj (Some (JArray (map JString [''a'', ''b'', ''c'']))) 2))"
    by code_simp+
  then show ?thesis
    unfolding sample_clause_def cond_holds.simps a d by (simp add: less_Suc_eq numeral_2_eq_2)
qed

theorem ConditionToFilter_meaning_witness:
  "\<exists>pf. ConditionToFilter sample_clause sample_fields = Ok sample_filter
     \<and> Prepare no_ext sample_filter = Ok pf \<and> Match tree_gj no_ext pf sample_tags zero_meta"
proof -
  obtain pf where pf: "Prepare no_ext sample_filter = Ok pf" using sample_clause_prepares by blast
  show ?thesis
    using ConditionToFilter_meaning [OF sample_clause_filter pf, of tree_gj sample_tags zero_meta]
      sample_clause_filter pf sample_clause_holds by blast
qed

text \<open>C40: what the translation emits is well-typed: preparing it fails only for what the translation
  leaves to it, a NOT without exactly one child, a metadata name outside the vocabulary, an operand no
  declared type can read, or a pattern that does not compile.\<close>

theorem ConditionToFilter_typed:
  assumes "ConditionToFilter c fm = Ok f" "Prepare ext f = Err e"
  shows "late_error e"
proof -
  obtain d where "DesugarCondition c = Ok d" "desugaredToFilter fm d = Ok f"
    using assms(1) by (auto simp: ConditionToFilter_def split: if_splits sum.splits)
  then have "filter_typed f" using desugared_typed by blast
  moreover have "prepareNode ext f = Err e" using assms(2) by (auto simp: Prepare_def split: if_splits sum.splits)
  ultimately show ?thesis by (rule typed_prepare)
qed

theorem ConditionToFilter_typed_witness:
  "ConditionToFilter (GroupCondition ''NOT'' []) Map.empty
      = Ok (Filter FilterNot [] (SourceOther []) GNil [] [] CoerceNone [])
   \<and> late_error (NotArity 0)"
proof -
  let ?f = "Filter FilterNot [] (SourceOther []) GNil [] [] CoerceNone []"
  have c: "ConditionToFilter (GroupCondition ''NOT'' []) Map.empty = Ok ?f"
    by (simp add: ConditionToFilter_def groupOperatorToFilterOp_def)
  have p: "Prepare no_ext ?f = Err (NotArity 0)" by (simp add: Prepare_def)
  from c ConditionToFilter_typed [OF c p] show ?thesis by blast
qed

text \<open>the two validators accept exactly the trees of at most \<open>MaxConditionDepth\<close> levels, an array
  clause counting as its desugared leaves, whose operators, respectively patterns, are all legal; a
  deeper tree is always refused.\<close>

theorem validators_exact:
  "(ValidateConditionOperators c = None) = (operators_ok c \<and> height c \<le> MaxConditionDepth)
   \<and> (ValidateConditionPatterns ext c = None) = (patterns_ok ext c \<and> height c \<le> MaxConditionDepth)"
  using ops.validates [of 0 c] pats.validates [of 0 ext c]
  by (simp add: ValidateConditionOperators_def ValidateConditionPatterns_def operators_ok_def patterns_ok_def)

end
