(* ===== verification/Model_Schema.thy ===== *)
theory Model_Schema
  imports Conditions
begin

text \<open>
  The persisted model schema (\<open>model_schema.go\<close>): the node tree with its three kinds of branch, the
  mutators, and the wire form with its encoder and decoder. Results: the operations and the decoder
  keep the tree invariant, and decoding inverts encoding. The flattening is in \<open>Model_Fields\<close>.
\<close>

subsection \<open>Nodes\<close>

datatype node_kind = KindLeaf | KindObject | KindArray

fun kind_name :: "node_kind \<Rightarrow> string" where
  "kind_name KindLeaf = ''LEAF''"
| "kind_name KindObject = ''OBJECT''"
| "kind_name KindArray = ''ARRAY''"

definition allKinds :: "node_kind list" where "allKinds = [KindLeaf, KindObject, KindArray]"

text \<open>
  A node carries at most one branch of each kind. The children map is an association list kept in key
  order; the cached flattening is a function of the rest and is left out.
\<close>

datatype model_node =
  ModelNode (n_scalar: "type_set option") (n_object: "(string \<times> model_node) list option")
    (n_array: "model_node option option") (n_nullable: bool)

definition NewObjectNode :: model_node where "NewObjectNode = ModelNode None (Some []) None False"
definition NewArrayNode :: "model_node option \<Rightarrow> model_node" where
  "NewArrayNode el = ModelNode None None (Some el) False"
definition NewEmptyNode :: model_node where "NewEmptyNode = ModelNode None None None False"

definition has_branch :: "model_node \<Rightarrow> node_kind \<Rightarrow> bool" where
  "has_branch n k = (case k of KindLeaf \<Rightarrow> n_scalar n \<noteq> None
     | KindObject \<Rightarrow> n_object n \<noteq> None | KindArray \<Rightarrow> n_array n \<noteq> None)"

definition Kinds :: "model_node \<Rightarrow> node_kind list" where
  "Kinds n = filter (has_branch n) allKinds"

definition IsPolymorphic :: "model_node \<Rightarrow> bool" where
  "IsPolymorphic n \<longleftrightarrow> length (Kinds n) > 1"

definition DeclaredTypes :: "model_node \<Rightarrow> data_type list" where
  "DeclaredTypes n =
     (case n_scalar n of Some ts \<Rightarrow> ts | None \<Rightarrow> if n_nullable n then [Null] else [])"

subsection \<open>Mutators\<close>

definition SetNullable :: "model_node \<Rightarrow> model_node" where
  "SetNullable n =
     (if n_scalar n \<noteq> None then n else ModelNode (n_scalar n) (n_object n) (n_array n) True)"

definition DeclareKind :: "node_kind \<Rightarrow> model_node \<Rightarrow> model_node" where
  "DeclareKind k n =
     (if has_branch n k then n
      else case k of
        KindLeaf \<Rightarrow> ModelNode (Some NewTypeSet) (n_object n) (n_array n) False
      | KindObject \<Rightarrow> ModelNode (n_scalar n) (Some []) (n_array n) (n_nullable n)
      | KindArray \<Rightarrow> ModelNode (n_scalar n) (n_object n) (Some None) (n_nullable n))"

text \<open>\<open>None\<close> is the panic of \<open>CollapseNumeric\<close>.\<close>

fun AddScalarTypes :: "data_type list \<Rightarrow> model_node \<Rightarrow> model_node option" where
  "AddScalarTypes [] n = Some n"
| "AddScalarTypes (dt # dts) n =
     (if dt = Null then AddScalarTypes dts (SetNullable n)
      else (case TypeSet_Add (case n_scalar n of Some ts \<Rightarrow> ts | None \<Rightarrow> NewTypeSet) dt of
              None \<Rightarrow> None
            | Some ts \<Rightarrow> AddScalarTypes dts (ModelNode (Some ts) (n_object n) (n_array n) False)))"

definition NewLeafNode :: "data_type \<Rightarrow> model_node option" where
  "NewLeafNode dt = AddScalarTypes [dt] NewEmptyNode"

text \<open>Go map assignment, in key order.\<close>

definition key_less :: "string \<Rightarrow> string \<Rightarrow> bool" where
  "key_less a b \<longleftrightarrow> map byte a < map byte b"

fun put :: "string \<Rightarrow> 'a \<Rightarrow> (string \<times> 'a) list \<Rightarrow> (string \<times> 'a) list" where
  "put k v [] = [(k, v)]"
| "put k v ((l, w) # kvs) =
     (if k = l then (k, v) # kvs
      else if key_less k l then (k, v) # (l, w) # kvs
      else (l, w) # put k v kvs)"

definition SetChild :: "string \<Rightarrow> model_node \<Rightarrow> model_node \<Rightarrow> model_node" where
  "SetChild name child n =
     ModelNode (n_scalar n) (Some (put name child (case n_object n of Some cs \<Rightarrow> cs | None \<Rightarrow> [])))
       (n_array n) (n_nullable n)"

definition SetElement :: "model_node option \<Rightarrow> model_node \<Rightarrow> model_node" where
  "SetElement el n = ModelNode (n_scalar n) (n_object n) (Some el) (n_nullable n)"

subsection \<open>The wire form\<close>

text \<open>A JSON null child is a nil pointer; an empty list or string is an omitted member.\<close>

datatype wire_node =
  WireNode (w_kind: string) (w_kinds: "string list") (w_types: "string list")
    (w_children: "(string \<times> wire_node option) list") (w_element: "wire_node option")

definition wire_kind :: "node_kind list \<Rightarrow> string" where
  "wire_kind ks = (case ks of [] \<Rightarrow> kind_name KindLeaf | [k] \<Rightarrow> kind_name k | _ \<Rightarrow> [])"

fun toWire :: "model_node \<Rightarrow> wire_node" where
  "toWire (ModelNode sc ob ar nu) =
     (let n = ModelNode sc ob ar nu; kinds = Kinds n in
      WireNode (wire_kind kinds) (if length kinds > 1 then map kind_name kinds else [])
        (map data_type_name (DeclaredTypes n))
        (case ob of None \<Rightarrow> [] | Some cs \<Rightarrow> map (\<lambda>(name, c). (name, Some (toWire c))) cs)
        (case ar of Some (Some el) \<Rightarrow> Some (toWire el) | _ \<Rightarrow> None))"

datatype schema_error =
    UnknownKind string | UnknownType string | NullChild string
  | InChild string schema_error | InElement schema_error | DeclaresNothing | TypeSetPanic

text \<open>The first name outside the closed set is reported.\<close>

fun named_kinds :: "string list \<Rightarrow> schema_error + node_kind set" where
  "named_kinds [] = Ok {}"
| "named_kinds (name # names) =
     (case (if name = kind_name KindLeaf then Some KindLeaf
            else if name = kind_name KindObject then Some KindObject
            else if name = kind_name KindArray then Some KindArray else None) of
        None \<Rightarrow> Err (UnknownKind name)
      | Some k \<Rightarrow> (case named_kinds names of Inl e \<Rightarrow> Err e | Inr ks \<Rightarrow> Ok (insert k ks)))"

text \<open>The type names, as whether NULL is among them and the concrete types.\<close>

fun wire_types :: "string list \<Rightarrow> schema_error + bool \<times> data_type list" where
  "wire_types [] = Ok (False, [])"
| "wire_types (name # names) =
     (case ParseDataType name of
        None \<Rightarrow> Err (UnknownType name)
      | Some dt \<Rightarrow>
          (case wire_types names of
             Inl e \<Rightarrow> Err e
           | Inr (nullable, dts) \<Rightarrow> if dt = Null then Ok (True, dts) else Ok (nullable, dt # dts)))"

text \<open>The scalar branch and the nullable marker, before the containers are attached.\<close>

definition wire_scalar ::
  "node_kind set \<Rightarrow> nat \<Rightarrow> bool \<Rightarrow> data_type list \<Rightarrow> model_node option" where
  "wire_scalar named names nullable concrete =
     (let isNullMarker = (KindLeaf \<in> named \<and> names = 1 \<and> nullable \<and> concrete = []);
          scalar = (if concrete \<noteq> [] \<or> (KindLeaf \<in> named \<and> \<not> isNullMarker)
                    then (case AddScalarTypes concrete NewEmptyNode of
                            None \<Rightarrow> None
                          | Some n \<Rightarrow> Some (if n_scalar n = None
                                            then ModelNode (Some NewTypeSet) None None (n_nullable n) else n))
                    else Some NewEmptyNode)
      in map_option (\<lambda>n. if nullable then SetNullable n else n) scalar)"

text \<open>The members of the children map, attached one by one.\<close>

definition attach_children :: "(string \<times> model_node) list \<Rightarrow> model_node \<Rightarrow> model_node" where
  "attach_children cs n = foldl (\<lambda>m (name, c). SetChild name c m) n cs"

fun fromWire :: "wire_node \<Rightarrow> schema_error + model_node" where
  "fromWire (WireNode kind kinds types children element) =
     (let names = (if kinds = [] \<and> kind \<noteq> [] then [kind] else kinds) in
      if names = [] then Err (UnknownKind kind)
      else
        (case named_kinds names of
           Inl e \<Rightarrow> Err e
         | Inr named \<Rightarrow>
             (case wire_types types of
                Inl e \<Rightarrow> Err e
              | Inr (nullable, concrete) \<Rightarrow>
                  (case wire_scalar named (length names) nullable concrete of
                     None \<Rightarrow> Err TypeSetPanic
                   | Some n0 \<Rightarrow>
                       (case map_res (\<lambda>(name, w).
                               case w of
                                 None \<Rightarrow> Err (NullChild name)
                               | Some wc \<Rightarrow>
                                   (case fromWire wc of Inl e \<Rightarrow> Err (InChild name e) | Inr c \<Rightarrow> Ok (name, c)))
                             children of
                          Inl e \<Rightarrow> Err e
                        | Inr cs \<Rightarrow>
                            (let n1 = (if KindObject \<in> named \<or> children \<noteq> []
                                       then attach_children cs
                                              (ModelNode (n_scalar n0) (Some []) (n_array n0) (n_nullable n0))
                                       else n0) in
                             case (case element of
                                     None \<Rightarrow> Ok None
                                   | Some we \<Rightarrow>
                                       (case fromWire we of Inl e \<Rightarrow> Err (InElement e) | Inr el \<Rightarrow> Ok (Some el))) of
                               Inl e \<Rightarrow> Err e
                             | Inr el \<Rightarrow>
                                 (let n2 = (if KindArray \<in> named \<or> element \<noteq> None then SetElement el n1 else n1) in
                                  if Kinds n2 = [] \<and> \<not> n_nullable n2 then Err DeclaresNothing else Ok n2)))))))"

subsection \<open>The tree invariant\<close>

text \<open>
  Scalar branches hold a well-formed type set without NULL and exclude the nullable marker, children
  are keyed in strict order, and every node declares something, throughout the tree.
\<close>

definition keys_sorted :: "(string \<times> 'a) list \<Rightarrow> bool" where
  "keys_sorted kvs \<longleftrightarrow> sorted_wrt key_less (map fst kvs)"

fun node_ok :: "model_node \<Rightarrow> bool" where
  "node_ok (ModelNode sc ob ar nu) \<longleftrightarrow>
     (case sc of None \<Rightarrow> True | Some ts \<Rightarrow> typeset_wf ts \<and> Null \<notin> set ts \<and> \<not> nu)
     \<and> (sc \<noteq> None \<or> ob \<noteq> None \<or> ar \<noteq> None \<or> nu)
     \<and> (case ob of None \<Rightarrow> True | Some cs \<Rightarrow> keys_sorted cs \<and> list_all (\<lambda>(k, c). node_ok c) cs)
     \<and> (case ar of Some (Some el) \<Rightarrow> node_ok el | _ \<Rightarrow> True)"

lemma key_less_trans: "key_less a b \<Longrightarrow> key_less b c \<Longrightarrow> key_less a c"
  by (simp add: key_less_def)

lemma key_less_cases: "a \<noteq> b \<Longrightarrow> \<not> key_less a b \<Longrightarrow> key_less b a"
  using map_byte_inj [of a b] by (auto simp: key_less_def)

lemma put_keys: "fst ` set (put k v kvs) = insert k (fst ` set kvs)"
  by (induction k v kvs rule: put.induct) auto

lemma put_sorted: "keys_sorted kvs \<Longrightarrow> keys_sorted (put k v kvs)"
proof (induction k v kvs rule: put.induct)
  case (2 k v l w kvs)
  consider "k = l" | "k \<noteq> l" "key_less k l" | "k \<noteq> l" "\<not> key_less k l" by blast
  then show ?case
  proof cases
    case 3
    then have "key_less l x" if "x \<in> fst ` set (put k v kvs)" for x
      using that 2(2) key_less_cases [of k l] by (auto simp: put_keys keys_sorted_def)
    then show ?thesis using 3 2 by (auto simp: keys_sorted_def)
  qed (use 2(2) in \<open>auto simp: keys_sorted_def intro: key_less_trans\<close>)
qed (simp add: keys_sorted_def)

lemma put_all: "list_all (\<lambda>(k, c). P c) kvs \<Longrightarrow> P v \<Longrightarrow> list_all (\<lambda>(k, c). P c) (put k v kvs)"
  by (induction k v kvs rule: put.induct) auto

lemma put_lookup: "keys_sorted kvs \<Longrightarrow> map_of (put k v kvs) = (map_of kvs)(k \<mapsto> v)"
proof (induction k v kvs rule: put.induct)
  case (2 k v l w kvs)
  then show ?case by (auto simp: keys_sorted_def fun_eq_iff)
qed simp

lemma put_last: "\<forall>x \<in> fst ` set kvs. key_less x k \<Longrightarrow> put k v kvs = kvs @ [(k, v)]"
  by (induction kvs) (auto simp: key_less_def)

lemma attach_sorted:
  "keys_sorted (as @ cs) \<Longrightarrow>
   attach_children cs (ModelNode sc (Some as) ar nu) = ModelNode sc (Some (as @ cs)) ar nu"
proof (induction cs arbitrary: as)
  case (Cons c cs)
  have "put (fst c) (snd c) as = as @ [c]"
    using Cons.prems put_last [of as "fst c" "snd c"] by (auto simp: keys_sorted_def sorted_wrt_append)
  then have "attach_children (c # cs) (ModelNode sc (Some as) ar nu) =
      attach_children cs (ModelNode sc (Some (as @ [c])) ar nu)"
    by (cases c) (simp add: attach_children_def SetChild_def)
  then show ?case using Cons.IH [of "as @ [c]"] Cons.prems by simp
qed (simp add: attach_children_def)

lemma attach_ok:
  "keys_sorted as \<Longrightarrow> list_all (\<lambda>(k, c). P c) as \<Longrightarrow> list_all (\<lambda>(k, c). P c) cs \<Longrightarrow>
   \<exists>bs. attach_children cs (ModelNode sc (Some as) ar nu) = ModelNode sc (Some bs) ar nu
     \<and> keys_sorted bs \<and> list_all (\<lambda>(k, c). P c) bs"
proof (induction cs arbitrary: as)
  case (Cons c cs)
  obtain k v where c: "c = (k, v)" by fastforce
  have "attach_children (c # cs) (ModelNode sc (Some as) ar nu) =
      attach_children cs (ModelNode sc (Some (put k v as)) ar nu)"
    by (simp add: c attach_children_def SetChild_def)
  moreover have "list_all (\<lambda>(k, c). P c) (put k v as)" "list_all (\<lambda>(k, c). P c) cs"
    using Cons.prems(2,3) c put_all [of P as v k] by auto
  ultimately show ?case using Cons.IH [OF put_sorted [OF Cons.prems(1)]] by metis
qed (auto simp: attach_children_def)

subsection \<open>Scalar types\<close>

lemma TypeSet_Add_snoc:
  assumes "typeset_wf (ts @ [dt])" "dt \<noteq> Null"
  shows "TypeSet_Add ts dt = Some (ts @ [dt])"
proof -
  have no: "Null \<notin> set (ts @ [dt])"
    using assms by (cases ts) (auto simp: typeset_wf_def)
  then have f: "filter (\<lambda>e. e \<noteq> Null) (ts @ [dt]) = ts @ [dt]" by (auto simp: filter_id_conv)
  have "sort (ts @ [dt]) = ts @ [dt]" "dt \<notin> set ts" "\<not> 2 \<le> length (filter IsNumeric (ts @ [dt]))"
    using assms(1) by (auto simp: typeset_wf_def sorted_sort_id)
  then show ?thesis using assms(2)
    unfolding TypeSet_Add_def Let_def by (simp only: f if_True if_False simp_thms)
qed

lemma typeset_wf_prefix:
  assumes "typeset_wf (ts @ [d])" "Null \<notin> set (ts @ [d])"
  shows "typeset_wf ts"
  using assms by (simp add: typeset_wf_def sorted_append)

lemma TypeSet_AddAll_append:
  "TypeSet_AddAll ts (ds @ es) = (case TypeSet_AddAll ts ds of None \<Rightarrow> None | Some r \<Rightarrow> TypeSet_AddAll r es)"
  by (induction ds arbitrary: ts) (auto split: option.split)

lemma TypeSet_AddAll_id: "typeset_wf ts \<Longrightarrow> Null \<notin> set ts \<Longrightarrow> TypeSet_AddAll NewTypeSet ts = Some ts"
proof (induction ts rule: rev_induct)
  case (snoc dt ts)
  then have "TypeSet_AddAll NewTypeSet ts = Some ts" using typeset_wf_prefix [of ts dt] by simp
  moreover have "TypeSet_Add ts dt = Some (ts @ [dt])"
    using snoc.prems by (intro TypeSet_Add_snoc) auto
  ultimately show ?case by (simp add: TypeSet_AddAll_append)
qed (simp add: NewTypeSet_def)

text \<open>The types a node starts from.\<close>

abbreviation own_types :: "model_node \<Rightarrow> type_set" where
  "own_types n \<equiv> (case n_scalar n of Some ts \<Rightarrow> ts | None \<Rightarrow> NewTypeSet)"

lemma AddScalarTypes_concrete:
  "Null \<notin> set dts \<Longrightarrow> AddScalarTypes dts n =
    (if dts = [] then Some n
     else map_option (\<lambda>r. ModelNode (Some r) (n_object n) (n_array n) False) (TypeSet_AddAll (own_types n) dts))"
proof (induction dts arbitrary: n)
  case (Cons d dts)
  then show ?case by (auto split: option.split)
qed simp

subsection \<open>Operations keep the invariant\<close>

lemma node_ok_containers:
  "node_ok n \<Longrightarrow> (case n_object n of None \<Rightarrow> True | Some cs \<Rightarrow> keys_sorted cs \<and> list_all (\<lambda>(k, c). node_ok c) cs)
     \<and> (case n_array n of Some (Some el) \<Rightarrow> node_ok el | _ \<Rightarrow> True)"
  by (cases n) simp

lemma node_ok_scalar:
  "node_ok n \<Longrightarrow> typeset_wf (own_types n) \<and> Null \<notin> set (own_types n)"
  by (cases n; cases "n_scalar n") (simp_all add: NewTypeSet_def typeset_wf_def)

lemma keys_sorted_small [simp]: "keys_sorted []" "keys_sorted [kv]"
  by (simp_all add: keys_sorted_def)

lemma Kinds_empty: "Kinds n = [] \<longleftrightarrow> n_scalar n = None \<and> n_object n = None \<and> n_array n = None"
  by (auto simp: Kinds_def allKinds_def has_branch_def)

lemma SetNullable_ok: "node_ok n \<Longrightarrow> node_ok (SetNullable n)"
  by (cases n) (auto simp: SetNullable_def split: option.splits)

lemma DeclareKind_ok: "node_ok n \<Longrightarrow> node_ok (DeclareKind k n)"
  by (cases n; cases k)
    (auto simp: DeclareKind_def has_branch_def typeset_wf_def NewTypeSet_def split: option.splits)

lemma SetChild_ok: "node_ok n \<Longrightarrow> node_ok c \<Longrightarrow> node_ok (SetChild name c n)"
  by (cases n)
    (auto simp: SetChild_def put_sorted put_all split: option.splits)

lemma SetElement_ok: "node_ok n \<Longrightarrow> (case el of None \<Rightarrow> True | Some e \<Rightarrow> node_ok e) \<Longrightarrow> node_ok (SetElement el n)"
  by (cases n) (auto simp: SetElement_def split: option.splits)

text \<open>Adding to a set without NULL keeps NULL out.\<close>

lemma TypeSet_Add_no_Null:
  assumes "TypeSet_Add ts dt = Some r" "dt \<noteq> Null" "Null \<notin> set ts" "typeset_wf ts"
  shows "typeset_wf r \<and> Null \<notin> set r"
proof
  show wf: "typeset_wf r" using TypeSet_Add_spec [OF assms(4), of dt] assms(1) by auto
  have "covers r dt" using TypeSet_Add_spec [OF assms(4), of dt] assms(1) by auto
  then obtain m where m: "m \<in> set r" "IsAssignableTo dt m" by (auto simp: covers_def)
  then have "m \<noteq> Null" using assms(2) by (auto simp: IsAssignableTo_def)
  then show "Null \<notin> set r" using wf m(1) by (auto simp: typeset_wf_def)
qed

lemma AddScalarTypes_ok:
  "node_ok n \<Longrightarrow> \<exists>m. AddScalarTypes dts n = Some m \<and> node_ok m"
proof (induction dts arbitrary: n)
  case (Cons d dts)
  show ?case
  proof (cases "d = Null")
    case True
    then show ?thesis using Cons.IH [OF SetNullable_ok [OF Cons.prems]] by simp
  next
    case False
    have wf: "typeset_wf (own_types n)" "Null \<notin> set (own_types n)"
      using node_ok_scalar [OF Cons.prems] by blast+
    then obtain ts where ts: "TypeSet_Add (own_types n) d = Some ts" using TypeSet_Add_spec [of "own_types n" d] by blast
    then have "typeset_wf ts \<and> Null \<notin> set ts" using TypeSet_Add_no_Null False wf by blast
    then have "node_ok (ModelNode (Some ts) (n_object n) (n_array n) False)"
      using node_ok_containers [OF Cons.prems] by simp
    then show ?thesis using Cons.IH False ts by auto
  qed
qed auto

lemma AddScalarTypes_empty: "\<exists>m. AddScalarTypes (d # dts) NewEmptyNode = Some m \<and> node_ok m"
proof (cases "d = Null")
  case True
  have "node_ok (SetNullable NewEmptyNode)" by (simp add: NewEmptyNode_def SetNullable_def)
  then show ?thesis using AddScalarTypes_ok True by simp
next
  case False
  obtain ts where ts: "TypeSet_Add NewTypeSet d = Some ts"
    using TypeSet_Add_spec [of NewTypeSet d] by (auto simp: NewTypeSet_def typeset_wf_def)
  have "typeset_wf ts \<and> Null \<notin> set ts"
    by (rule TypeSet_Add_no_Null [OF ts False]) (simp_all add: NewTypeSet_def typeset_wf_def)
  then have "node_ok (ModelNode (Some ts) None None False)" by simp
  then show ?thesis using AddScalarTypes_ok False ts by (simp add: NewEmptyNode_def)
qed

lemma wire_types_names: "wire_types (map data_type_name ts) = Ok (Null \<in> set ts, filter (\<lambda>t. t \<noteq> Null) ts)"
  by (induction ts) auto

lemma wire_types_concrete: "wire_types names = Ok (nullable, dts) \<Longrightarrow> Null \<notin> set dts"
  by (induction names arbitrary: nullable dts) (auto split: option.splits sum.splits if_splits)

text \<open>The decoded scalar part: a well-formed scalar branch, or the marker, or nothing yet.\<close>

lemma wire_scalar_spec:
  assumes "Null \<notin> set concrete"
  shows "\<exists>sc nu. wire_scalar named k nullable concrete = Some (ModelNode sc None None nu)
    \<and> (case sc of None \<Rightarrow> nu = nullable | Some ts \<Rightarrow> typeset_wf ts \<and> Null \<notin> set ts \<and> \<not> nu)"
proof -
  have empty: "wire_scalar named k nullable [] =
      (if KindLeaf \<in> named \<and> \<not> (k = 1 \<and> nullable) then Some (ModelNode (Some NewTypeSet) None None False)
       else Some (ModelNode None None None nullable))"
    by (auto simp: wire_scalar_def NewEmptyNode_def SetNullable_def)
  show ?thesis
  proof (cases "concrete = []")
    case True
    then show ?thesis using empty by (auto simp: NewTypeSet_def typeset_wf_def intro: exI [of _ False])
  next
    case False
    have "\<exists>r. TypeSet_AddAll NewTypeSet concrete = Some r \<and> typeset_wf r \<and> Null \<notin> set r"
    proof -
      have "\<exists>r. TypeSet_AddAll ts concrete = Some r \<and> typeset_wf r \<and> Null \<notin> set r"
        if "typeset_wf ts" "Null \<notin> set ts" for ts
        using assms that
      proof (induction concrete arbitrary: ts)
        case (Cons d ds)
        obtain r where r: "TypeSet_Add ts d = Some r" using TypeSet_Add_spec [OF Cons.prems(2)] by blast
        have "typeset_wf r" "Null \<notin> set r" using TypeSet_Add_no_Null [OF r] Cons.prems by auto
        then show ?case using Cons.IH [of r] Cons.prems(1) r by simp
      qed simp
      from this [of NewTypeSet] typeset_wf_empty show ?thesis by (simp add: NewTypeSet_def)
    qed
    then obtain r where r: "TypeSet_AddAll NewTypeSet concrete = Some r" "typeset_wf r" "Null \<notin> set r" by blast
    have "AddScalarTypes concrete NewEmptyNode = Some (ModelNode (Some r) None None False)"
      using AddScalarTypes_concrete [OF assms, of NewEmptyNode] False r(1) by (simp add: NewEmptyNode_def)
    then have "wire_scalar named k nullable concrete = Some (ModelNode (Some r) None None False)"
      using False by (simp add: wire_scalar_def Let_def SetNullable_def)
    then show ?thesis using r by (auto intro: exI [of _ False])
  qed
qed

subsection \<open>Decoding\<close>

text \<open>The decoder in steps: the scalar part, the children, the element.\<close>

definition decode_child ::
  "(wire_node \<Rightarrow> schema_error + model_node) \<Rightarrow> string \<times> wire_node option \<Rightarrow> schema_error + string \<times> model_node" where
  "decode_child f = (\<lambda>(name, w). case w of None \<Rightarrow> Err (NullChild name)
     | Some wc \<Rightarrow> (case f wc of Inl e \<Rightarrow> Err (InChild name e) | Inr c \<Rightarrow> Ok (name, c)))"

definition decode_element ::
  "(wire_node \<Rightarrow> schema_error + model_node) \<Rightarrow> wire_node option \<Rightarrow> schema_error + model_node option" where
  "decode_element f element = (case element of None \<Rightarrow> Ok None
     | Some we \<Rightarrow> (case f we of Inl e \<Rightarrow> Err (InElement e) | Inr el \<Rightarrow> Ok (Some el)))"

definition kind_names :: "string \<Rightarrow> string list \<Rightarrow> string list" where
  "kind_names kind kinds = (if kinds = [] \<and> kind \<noteq> [] then [kind] else kinds)"

definition with_children ::
  "node_kind set \<Rightarrow> (string \<times> wire_node option) list \<Rightarrow> (string \<times> model_node) list \<Rightarrow> model_node \<Rightarrow> model_node" where
  "with_children named children cs n0 =
     (if KindObject \<in> named \<or> children \<noteq> []
      then attach_children cs (ModelNode (n_scalar n0) (Some []) (n_array n0) (n_nullable n0)) else n0)"

definition with_element ::
  "node_kind set \<Rightarrow> wire_node option \<Rightarrow> model_node option \<Rightarrow> model_node \<Rightarrow> model_node" where
  "with_element named element el n1 =
     (if KindArray \<in> named \<or> element \<noteq> None then SetElement el n1 else n1)"

lemma fromWire_Ok_iff:
  "fromWire (WireNode kind kinds types children element) = Ok n \<longleftrightarrow>
    kind_names kind kinds \<noteq> [] \<and>
    (\<exists>named nullable concrete n0 cs el.
       named_kinds (kind_names kind kinds) = Ok named \<and> wire_types types = Ok (nullable, concrete)
       \<and> wire_scalar named (length (kind_names kind kinds)) nullable concrete = Some n0
       \<and> map_res (decode_child fromWire) children = Ok cs \<and> decode_element fromWire element = Ok el
       \<and> n = with_element named element el (with_children named children cs n0)
       \<and> (Kinds n \<noteq> [] \<or> n_nullable n))"
  unfolding fromWire.simps kind_names_def [symmetric] decode_child_def [symmetric] decode_element_def [symmetric]
    with_children_def [symmetric] with_element_def [symmetric] Let_def
  by (auto split: sum.splits option.splits if_splits)

lemma with_children_ok:
  assumes "n0 = ModelNode sc None None nu" "list_all (\<lambda>(k, c). node_ok c) cs"
    "case sc of None \<Rightarrow> True | Some ts \<Rightarrow> typeset_wf ts \<and> Null \<notin> set ts \<and> \<not> nu"
  shows "\<exists>ob. with_children named children cs n0 = ModelNode sc ob None nu
    \<and> (case ob of None \<Rightarrow> True | Some bs \<Rightarrow> keys_sorted bs \<and> list_all (\<lambda>(k, c). node_ok c) bs)"
  using attach_ok [of "[]" node_ok cs sc None nu] assms by (auto simp: with_children_def)

lemma decoded_children:
  assumes "map_res (decode_child f) children = Ok cs"
    and "\<And>name w c. (name, Some w) \<in> set children \<Longrightarrow> f w = Ok c \<Longrightarrow> P c"
  shows "list_all (\<lambda>(k, c). P c) cs"
proof -
  have "list_all2 (\<lambda>x (k, c). P c) children cs"
    using assms(1) unfolding map_res_Ok_iff
  proof (rule list.rel_mono_strong)
    fix x y assume "x \<in> set children" "decode_child f x = Ok y"
    then show "case y of (k, c) \<Rightarrow> P c"
      using assms(2) by (auto simp: decode_child_def split: prod.splits option.splits sum.splits)
  qed
  then show ?thesis by (induction rule: list_all2_induct) auto
qed

lemma fromWire_node_ok: "fromWire w = Ok n \<Longrightarrow> node_ok n"
proof (induction w arbitrary: n)
  case (WireNode kind kinds types children element)
  obtain named nullable concrete n0 cs el where
    types: "wire_types types = Ok (nullable, concrete)" and
    n0: "wire_scalar named (length (kind_names kind kinds)) nullable concrete = Some n0" and
    cs: "map_res (decode_child fromWire) children = Ok cs" and
    el: "decode_element fromWire element = Ok el" and
    n: "n = with_element named element el (with_children named children cs n0)" and
    some: "Kinds n \<noteq> [] \<or> n_nullable n"
    using WireNode.prems unfolding fromWire_Ok_iff by blast
  obtain sc nu where sc: "n0 = ModelNode sc None None nu"
      "case sc of None \<Rightarrow> True | Some ts \<Rightarrow> typeset_wf ts \<and> Null \<notin> set ts \<and> \<not> nu"
    using wire_scalar_spec [OF wire_types_concrete [OF types], of named "length (kind_names kind kinds)" nullable]
      n0 by (auto split: option.splits)
  have "list_all (\<lambda>(k, c). node_ok c) cs"
    by (rule decoded_children [OF cs]) (use WireNode.IH(1) in force)
  from with_children_ok [OF sc(1) this sc(2), of named children] obtain ob where
    ob: "with_children named children cs n0 = ModelNode sc ob None nu"
      "case ob of None \<Rightarrow> True | Some bs \<Rightarrow> keys_sorted bs \<and> list_all (\<lambda>(k, c). node_ok c) bs" by blast
  have elem: "case el of None \<Rightarrow> True | Some e \<Rightarrow> node_ok e"
    using el WireNode.IH(2) by (auto simp: decode_element_def split: option.splits sum.splits)
  show ?case
    using some sc(2) ob elem unfolding n
    by (auto simp: with_element_def SetElement_def Kinds_empty split: option.splits if_splits)
qed

text \<open>Encoding names the kinds, the types and the containers of a node, and decoding restores them.\<close>

lemma kind_name_cases: "named_kinds (map kind_name ks) = Ok (set ks)"
proof (induction ks)
  case (Cons k ks)
  then show ?case by (cases k) simp_all
qed simp

lemma kind_names_wire:
  "kind_names (wire_kind ks) (if length ks > 1 then map kind_name ks else []) =
     (if ks = [] then [kind_name KindLeaf] else map kind_name ks)"
proof -
  have ne: "kind_name k \<noteq> []" for k by (cases k) simp_all
  show ?thesis by (cases ks; cases "tl ks") (auto simp: kind_names_def wire_kind_def ne)
qed

lemma set_Kinds: "set (Kinds n) = {k. has_branch n k}"
proof -
  have "k \<in> set allKinds" for k by (cases k) (simp_all add: allKinds_def)
  then show ?thesis by (auto simp: Kinds_def)
qed

lemma wire_scalar_encoded:
  assumes "node_ok (ModelNode sc ob ar nu)"
  defines "n \<equiv> ModelNode sc ob ar nu"
  shows "wire_scalar (if Kinds n = [] then {KindLeaf} else set (Kinds n))
      (length (if Kinds n = [] then [kind_name KindLeaf] else map kind_name (Kinds n)))
      (Null \<in> set (DeclaredTypes n)) (filter (\<lambda>t. t \<noteq> Null) (DeclaredTypes n))
    = Some (ModelNode sc None None nu)"
proof (cases sc)
  case None
  have leaf: "KindLeaf \<in> (if Kinds n = [] then {KindLeaf} else set (Kinds n)) \<longleftrightarrow> Kinds n = []"
    using None by (simp add: set_Kinds has_branch_def n_def)
  have "nu" if "Kinds n = []" using assms(1) that None by (auto simp: n_def Kinds_empty)
  then show ?thesis using None leaf
    by (auto simp: wire_scalar_def DeclaredTypes_def n_def NewEmptyNode_def SetNullable_def)
next
  case (Some ts)
  then have ts: "typeset_wf ts" "Null \<notin> set ts" "\<not> nu" using assms(1) by auto
  have leaf: "KindLeaf \<in> (if Kinds n = [] then {KindLeaf} else set (Kinds n))"
    using Some by (simp add: set_Kinds has_branch_def n_def)
  have f: "filter (\<lambda>t. t \<noteq> Null) (DeclaredTypes n) = ts" "Null \<notin> set (DeclaredTypes n)"
    using ts(2) Some by (auto simp: DeclaredTypes_def n_def filter_id_conv)
  have "AddScalarTypes ts NewEmptyNode = Some (if ts = [] then NewEmptyNode else ModelNode (Some ts) None None False)"
    using AddScalarTypes_concrete [OF ts(2), of NewEmptyNode] TypeSet_AddAll_id [OF ts(1,2)]
    by (simp add: NewEmptyNode_def)
  then show ?thesis using leaf f ts(3) Some
    by (simp add: wire_scalar_def NewEmptyNode_def NewTypeSet_def)
qed

lemma fromWire_toWire: "node_ok n \<Longrightarrow> fromWire (toWire n) = Ok n"
proof (induction n)
  case (ModelNode sc ob ar nu)
  let ?n = "ModelNode sc ob ar nu" and ?ks = "Kinds (ModelNode sc ob ar nu)"
  let ?named = "if ?ks = [] then {KindLeaf} else set ?ks"
  let ?children = "case ob of None \<Rightarrow> [] | Some cs \<Rightarrow> map (\<lambda>(name, c). (name, Some (toWire c))) cs"
  let ?element = "case ar of Some (Some el) \<Rightarrow> Some (toWire el) | _ \<Rightarrow> None"
  let ?cs = "case ob of None \<Rightarrow> [] | Some cs \<Rightarrow> cs" and ?el = "case ar of Some el \<Rightarrow> el | None \<Rightarrow> None"
  have ok: "keys_sorted ?cs" "list_all (\<lambda>(k, c). node_ok c) ?cs"
    using ModelNode.prems by (auto split: option.splits)
  have named: "named_kinds (if ?ks = [] then [kind_name KindLeaf] else map kind_name ?ks) = Ok ?named"
    using kind_name_cases [of ?ks] by simp
  have cs: "map_res (decode_child fromWire) ?children = Ok ?cs"
  proof -
    have "map_res (decode_child fromWire) (map (\<lambda>(name, c). (name, Some (toWire c))) cs) = Ok cs"
      if "ob = Some cs" for cs
    proof -
      have "decode_child fromWire (name, Some (toWire c)) = Ok (name, c)" if "(name, c) \<in> set cs" for name c
        using ModelNode.IH(1) [of cs "(name, c)" c] ok(2) \<open>ob = Some cs\<close> that
        by (auto simp: decode_child_def list_all_iff)
      then show ?thesis by (auto simp: map_res_Ok_iff list.rel_map intro!: list.rel_refl_strong)
    qed
    then show ?thesis by (auto split: option.split)
  qed
  have el: "decode_element fromWire ?element = Ok ?el"
    using ModelNode.IH(2) ModelNode.prems by (auto simp: decode_element_def split: option.splits)
  have children: "with_children ?named ?children ?cs (ModelNode sc None None nu) = ModelNode sc ob None nu"
  proof (cases ob)
    case None
    then have "KindObject \<notin> ?named" by (simp add: set_Kinds has_branch_def)
    then show ?thesis using None by (simp add: with_children_def)
  next
    case (Some cs)
    then have "KindObject \<in> ?named" by (auto simp: set_Kinds has_branch_def Kinds_empty)
    then show ?thesis using Some attach_sorted [of "[]" cs sc None nu] ok(1) by (simp add: with_children_def)
  qed
  have element: "with_element ?named ?element ?el (ModelNode sc ob None nu) = ?n"
  proof (cases ar)
    case None
    then have "KindArray \<notin> ?named" by (simp add: set_Kinds has_branch_def)
    then show ?thesis using None by (simp add: with_element_def)
  next
    case (Some a)
    then have "KindArray \<in> ?named" by (auto simp: set_Kinds has_branch_def Kinds_empty)
    then show ?thesis using Some by (simp add: with_element_def SetElement_def)
  qed
  have some: "Kinds ?n \<noteq> [] \<or> n_nullable ?n" using ModelNode.prems by (auto simp: Kinds_empty)
  show ?case
    unfolding toWire.simps Let_def fromWire_Ok_iff kind_names_wire wire_types_names
    using named wire_scalar_encoded [OF ModelNode.prems] cs el children element some
    by (intro conjI exI [of _ ?named] exI [of _ "Null \<in> set (DeclaredTypes ?n)"]
        exI [of _ "filter (\<lambda>t. t \<noteq> Null) (DeclaredTypes ?n)"] exI [of _ "ModelNode sc None None nu"]
        exI [of _ ?cs] exI [of _ ?el]) (simp_all only: refl children element, simp_all)
qed

subsection \<open>Properties\<close>

text \<open>C17: encoding a well-formed schema tree into its wire form and decoding it gives the tree back: no
  branch, type, child, element or nullable marker is lost, the empty ones included.\<close>

theorem schema_roundtrip:
  assumes "node_ok n"
  shows "fromWire (toWire n) = Ok n"
  using assms by (rule fromWire_toWire)

definition sample_schema :: model_node where
  "sample_schema = ModelNode None (Some
     [(''name'', ModelNode (Some [String]) None None False),
      (''note'', ModelNode None None None True),
      (''tags'', ModelNode (Some []) None (Some (Some (ModelNode (Some [Integer, String]) None None False))) False)])
     (Some None) True"

lemma sample_schema_ok: "node_ok sample_schema"
  by (simp add: sample_schema_def keys_sorted_def key_less_def typeset_wf_def less_eq_data_type_def IsNumeric_def)

theorem schema_roundtrip_witness:
  "fromWire (toWire sample_schema) = Ok sample_schema \<and> w_kinds (toWire sample_schema) = [''OBJECT'', ''ARRAY'']"
proof
  show "fromWire (toWire sample_schema) = Ok sample_schema" by (rule schema_roundtrip [OF sample_schema_ok])
  show "w_kinds (toWire sample_schema) = [''OBJECT'', ''ARRAY'']" by code_simp
qed



end
