(* ===== verification/Slice_Sort.thy ===== *)
theory Slice_Sort
  imports Complex_Main "HOL-Library.Multiset"
begin

text \<open>
  Go's \<open>sort.Slice\<close>: it rearranges a slice into the order of a key and promises nothing about elements with
  equal keys. A sort is therefore a parameter of the definitions that use one, and what is proved of them holds
  for every function with the two documented laws. Result: where no two elements share a key there is only one.
\<close>

locale slice_sort =
  fixes key :: "'a \<Rightarrow> 'k::linorder" and srt :: "'a list \<Rightarrow> 'a list"
  assumes rearranges: "mset (srt xs) = mset xs"
    and ordered: "sorted (map key (srt xs))"
begin

lemma same_set [simp]: "set (srt xs) = set xs"
  by (rule mset_eq_setD [OF rearranges])

lemma same_length: "length (srt xs) = length xs"
  by (rule mset_eq_length [OF rearranges])

lemma filter_ordered: "sorted (map key (filter P (srt xs)))"
  using ordered by (rule sorted_filter)

lemma only_order: "distinct (map key xs) \<Longrightarrow> srt xs = sort_key key xs"
proof -
  assume d: "distinct (map key xs)"
  have m: "mset (srt xs) = mset (sort_key key xs)" by (simp add: rearranges)
  have "inj_on key (set (srt xs))" using d by (simp add: distinct_map)
  then show "srt xs = sort_key key xs"
    using map_sorted_distinct_set_unique [of key "srt xs" "sort_key key xs"] ordered d m
    by (metis distinct_map mset_eq_setD mset_map same_set set_sort sorted_sort_key distinct_sort mset_eq_imp_distinct_iff Un_absorb)
qed

end

text \<open>The stable sort is one of them.\<close>

lemma stable_slice_sort: "slice_sort key (sort_key key)"
  by unfold_locales simp_all

end
