(* ===== verification/Model_Fields.thy ===== *)
theory Model_Fields
  imports Model_Schema Slice_Sort
begin

text \<open>
  The flattening of a model schema into the fields map (\<open>model_schema.go\<close>). Result: looking up the key
  of a path gives exactly the types that the node reached by walking the path through the tree
  declares, so a search leaf is typed by the model node it addresses.
\<close>

subsection \<open>Flattening\<close>

definition self_fields :: "model_node \<Rightarrow> string \<Rightarrow> bool \<Rightarrow> FieldDescriptor list" where
  "self_fields n prefix inArray =
     (case n_scalar n of
        Some ts \<Rightarrow>
          if \<not> TypeSet_IsEmpty ts \<or> length (Kinds n) = 1
          then [\<lparr>fd_Path = prefix, fd_Types = ts, fd_IsArray = inArray\<rparr>] else []
      | None \<Rightarrow>
          if n_nullable n \<and> Kinds n = []
          then [\<lparr>fd_Path = prefix, fd_Types = [Null], fd_IsArray = inArray\<rparr>] else [])"

fun collectFields :: "model_node \<Rightarrow> string \<Rightarrow> bool \<Rightarrow> FieldDescriptor list" where
  "collectFields (ModelNode sc ob ar nu) prefix inArray =
     self_fields (ModelNode sc ob ar nu) prefix inArray
     @ (case ob of
          None \<Rightarrow> []
        | Some cs \<Rightarrow>
            concat (map snd (sort_key (\<lambda>kf. map byte (fst kf))
              (map (\<lambda>(k, c). (k, collectFields c (prefix @ ''.'' @ k) False)) cs))))
     @ (case ar of
          Some (Some el) \<Rightarrow>
            if n_object el = None \<and> n_array el = None
            then [\<lparr>fd_Path = prefix @ ''[*]'', fd_Types = DeclaredTypes el, fd_IsArray = True\<rparr>]
            else collectFields el (prefix @ ''[*]'') False
        | _ \<Rightarrow> [])"

text \<open>\<open>srt\<close> is the sort by path; descriptors with one path may come out in any order.\<close>

definition path_key :: "FieldDescriptor \<Rightarrow> nat list" where
  "path_key f = map byte (fd_Path f)"

definition Fields :: "(FieldDescriptor list \<Rightarrow> FieldDescriptor list) \<Rightarrow> model_node \<Rightarrow> FieldDescriptor list" where
  "Fields srt n = srt (collectFields n ''$'' False)"

definition FieldsMap :: "(FieldDescriptor list \<Rightarrow> FieldDescriptor list) \<Rightarrow> model_node \<Rightarrow> fields_map" where
  "FieldsMap srt n = foldl (\<lambda>m f. m(fd_Path f \<mapsto> f)) Map.empty (Fields srt n)"

text \<open>\<open>json.Unmarshal\<close> into a \<open>wireNode\<close> is the parameter \<open>decode\<close>; a nil map is the empty one.\<close>

definition FieldsMapFromSchema ::
  "(FieldDescriptor list \<Rightarrow> FieldDescriptor list) \<Rightarrow> (string \<Rightarrow> 'e + wire_node) \<Rightarrow> string \<Rightarrow> ('e + schema_error) + fields_map" where
  "FieldsMapFromSchema srt decode schema =
     (if schema = [] then Ok Map.empty
      else case decode schema of
             Inl e \<Rightarrow> Err (Inl e)
           | Inr w \<Rightarrow> (case fromWire w of Inl e \<Rightarrow> Err (Inr e) | Inr n \<Rightarrow> Ok (FieldsMap srt n)))"

subsection \<open>What the fields map declares\<close>

text \<open>A walk through the tree: by child name, or to the element descriptor.\<close>

datatype step = Child string | Elem

fun node_at :: "model_node \<Rightarrow> step list \<Rightarrow> model_node option" where
  "node_at n [] = Some n"
| "node_at n (Child k # ss) =
     (case n_object n of None \<Rightarrow> None
      | Some cs \<Rightarrow> (case map_of cs k of None \<Rightarrow> None | Some c \<Rightarrow> node_at c ss))"
| "node_at n (Elem # ss) = (case n_array n of Some (Some el) \<Rightarrow> node_at el ss | _ \<Rightarrow> None)"

fun path_text :: "step list \<Rightarrow> string" where
  "path_text [] = []"
| "path_text (Child k # ss) = ''.'' @ k @ path_text ss"
| "path_text (Elem # ss) = ''[*]'' @ path_text ss"

text \<open>What a node declares at its own path, and when it is flagged as an array's element.\<close>

definition own_decl :: "model_node \<Rightarrow> data_type list option" where
  "own_decl n =
     (case n_scalar n of
        Some ts \<Rightarrow> if ts \<noteq> [] \<or> length (Kinds n) = 1 then Some ts else None
      | None \<Rightarrow> if n_nullable n \<and> Kinds n = [] then Some [Null] else None)"

definition is_elem :: "step list \<Rightarrow> model_node \<Rightarrow> bool" where
  "is_elem ss m \<longleftrightarrow> ss \<noteq> [] \<and> last ss = Elem \<and> n_object m = None \<and> n_array m = None"

lemma self_fields_own:
  "f \<in> set (self_fields n p b) \<longleftrightarrow> (\<exists>ts. own_decl n = Some ts \<and> f = \<lparr>fd_Path = p, fd_Types = ts, fd_IsArray = b\<rparr>)"
  by (auto simp: self_fields_def own_decl_def TypeSet_IsEmpty_def split: option.splits)

lemma own_decl_plain:
  assumes "node_ok n" "n_object n = None" "n_array n = None"
  shows "own_decl n = Some (DeclaredTypes n)"
  using assms by (cases n; cases "n_scalar n")
    (auto simp: own_decl_def DeclaredTypes_def Kinds_def allKinds_def has_branch_def)

lemma node_at_plain: "n_object n = None \<Longrightarrow> n_array n = None \<Longrightarrow> node_at n ss = (if ss = [] then Some n else None)"
  by (cases "(n, ss)" rule: node_at.cases) auto

lemma is_elem_Cons:
  "is_elem (s # ss) m \<longleftrightarrow> (if ss = [] then s = Elem \<and> n_object m = None \<and> n_array m = None else is_elem ss m)"
  by (auto simp: is_elem_def)

lemma keys_sorted_map_of:
  "keys_sorted cs \<Longrightarrow> (k, c) \<in> set cs \<longleftrightarrow> map_of cs k = Some c"
proof -
  assume "keys_sorted cs"
  then have "distinct (map fst cs)"
    by (induction cs) (auto simp: keys_sorted_def key_less_def)
  then show ?thesis by (simp add: map_of_eq_Some_iff)
qed

text \<open>Every descriptor is that of a node the walk reaches, and every such node is described.\<close>

definition described :: "model_node \<Rightarrow> string \<Rightarrow> bool \<Rightarrow> step list \<Rightarrow> FieldDescriptor \<Rightarrow> bool" where
  "described n p b ss f \<longleftrightarrow> (\<exists>m ts. node_at n ss = Some m \<and> own_decl m = Some ts
     \<and> f = \<lparr>fd_Path = p @ path_text ss, fd_Types = ts, fd_IsArray = (if ss = [] then b else is_elem ss m)\<rparr>)"

lemma described_simps:
  "described n p b [] f \<longleftrightarrow> f \<in> set (self_fields n p b)"
  "described n p b (Child k # ss) f \<longleftrightarrow>
     (\<exists>cs c. n_object n = Some cs \<and> map_of cs k = Some c \<and> described c (p @ ''.'' @ k) False ss f)"
  "described n p b (Elem # ss) f \<longleftrightarrow>
     (\<exists>el. n_array n = Some (Some el)
        \<and> described el (p @ ''[*]'') (n_object el = None \<and> n_array el = None) ss f)"
  by (auto simp: described_def self_fields_own is_elem_Cons split: option.splits)

lemma collectFields_described:
  "node_ok n \<Longrightarrow> f \<in> set (collectFields n p b) \<longleftrightarrow> (\<exists>ss. described n p b ss f)"
proof (induction n arbitrary: p b)
  case (ModelNode sc ob ar nu)
  let ?n = "ModelNode sc ob ar nu"
  have split: "(\<exists>ss. described ?n p b ss f) \<longleftrightarrow> described ?n p b [] f
      \<or> (\<exists>k ss. described ?n p b (Child k # ss) f) \<or> (\<exists>ss. described ?n p b (Elem # ss) f)"
    by (metis step.exhaust list.exhaust)
  have children: "f \<in> set (case ob of None \<Rightarrow> [] | Some cs \<Rightarrow>
      concat (map snd (sort_key (\<lambda>kf. map byte (fst kf))
        (map (\<lambda>(k, c). (k, collectFields c (p @ ''.'' @ k) False)) cs))))
      \<longleftrightarrow> (\<exists>k ss. described ?n p b (Child k # ss) f)"
  proof (cases ob)
    case (Some cs)
    have ok: "keys_sorted cs" "list_all (\<lambda>(k, c). node_ok c) cs" using ModelNode.prems Some by auto
    have ih: "f \<in> set (collectFields c (p @ ''.'' @ k) False) \<longleftrightarrow> (\<exists>ss. described c (p @ ''.'' @ k) False ss f)"
      if "(k, c) \<in> set cs" for k c
    proof -
      have "node_ok c" using ok(2) that by (auto simp: list_all_iff)
      then show ?thesis using ModelNode.IH(1) [of cs "(k, c)" c "p @ ''.'' @ k" False] Some that by simp
    qed
    have "f \<in> set (concat (map snd (sort_key (\<lambda>kf. map byte (fst kf))
        (map (\<lambda>(k, c). (k, collectFields c (p @ ''.'' @ k) False)) cs))))
      \<longleftrightarrow> (\<exists>k c. (k, c) \<in> set cs \<and> f \<in> set (collectFields c (p @ ''.'' @ k) False))"
      by force
    also have "\<dots> \<longleftrightarrow> (\<exists>k c. map_of cs k = Some c \<and> (\<exists>ss. described c (p @ ''.'' @ k) False ss f))"
      using ih keys_sorted_map_of [OF ok(1)] by blast
    finally show ?thesis using Some by (auto simp: described_simps)
  qed (simp add: described_simps)
  have element: "f \<in> set (case ar of Some (Some el) \<Rightarrow>
      if n_object el = None \<and> n_array el = None
      then [\<lparr>fd_Path = p @ ''[*]'', fd_Types = DeclaredTypes el, fd_IsArray = True\<rparr>]
      else collectFields el (p @ ''[*]'') False | _ \<Rightarrow> [])
      \<longleftrightarrow> (\<exists>ss. described ?n p b (Elem # ss) f)"
  proof (cases "\<exists>el. ar = Some (Some el)")
    case True
    then obtain el where el: "ar = Some (Some el)" by blast
    then have ok: "node_ok el" using ModelNode.prems by simp
    show ?thesis
    proof (cases "n_object el = None \<and> n_array el = None")
      case True
      then show ?thesis using el own_decl_plain [OF ok] node_at_plain [of el]
        by (auto simp: described_simps described_def is_elem_def)
    next
      case False
      have "f \<in> set (collectFields el (p @ ''[*]'') False) \<longleftrightarrow> (\<exists>ss. described el (p @ ''[*]'') False ss f)"
        using ModelNode.IH(2) [of "Some el" el] el ok by simp
      moreover have "(\<exists>ss. described ?n p b (Elem # ss) f) \<longleftrightarrow>
          (\<exists>ss. described el (p @ ''[*]'') (n_object el = None \<and> n_array el = None) ss f)"
        using el by (simp add: described_simps)
      moreover have F: "(n_object el = None \<and> n_array el = None) = False" using False by blast
      ultimately show ?thesis by (simp only: el option.simps F if_False)
    qed
  next
    case False
    then show ?thesis by (auto simp: described_simps split: option.split)
  qed
  show ?case
    unfolding split collectFields.simps set_append Un_iff described_simps(1) children element by blast
qed

subsection \<open>Keys\<close>

definition name_ok :: "string \<Rightarrow> bool" where
  "name_ok k \<longleftrightarrow> CHR ''.'' \<notin> set k \<and> CHR ''['' \<notin> set k"

fun step_ok :: "step \<Rightarrow> bool" where
  "step_ok (Child k) = name_ok k"
| "step_ok Elem = True"

text \<open>Child names that cannot be read as several steps.\<close>

fun names_ok :: "model_node \<Rightarrow> bool" where
  "names_ok (ModelNode sc ob ar nu) \<longleftrightarrow>
     (case ob of None \<Rightarrow> True | Some cs \<Rightarrow> list_all (\<lambda>(k, c). name_ok k \<and> names_ok c) cs)
     \<and> (case ar of Some (Some el) \<Rightarrow> names_ok el | _ \<Rightarrow> True)"

lemma names_ok_sel:
  "names_ok n \<longleftrightarrow>
     (\<forall>cs k c. n_object n = Some cs \<longrightarrow> (k, c) \<in> set cs \<longrightarrow> name_ok k \<and> names_ok c)
     \<and> (\<forall>el. n_array n = Some (Some el) \<longrightarrow> names_ok el)"
  by (cases n) (auto simp: list_all_iff split: option.splits)

lemma node_at_steps: "names_ok n \<Longrightarrow> node_at n ss = Some m \<Longrightarrow> list_all step_ok ss"
proof (induction n ss rule: node_at.induct)
  case (2 n k ss)
  then obtain cs c where c: "n_object n = Some cs" "map_of cs k = Some c" "node_at c ss = Some m"
    by (auto split: option.splits)
  have "name_ok k \<and> names_ok c"
    using 2(2) names_ok_sel [of n] c(1) map_of_SomeD [OF c(2)] by blast
  then show ?case using 2(1) [OF c(1,2)] c(3) by simp
next
  case (3 n ss)
  then show ?case using names_ok_sel [of n] by (auto split: option.splits)
qed simp

lemma path_text_head: "path_text ss = [] \<or> hd (path_text ss) \<in> {CHR ''.'', CHR ''[''}"
  by (cases ss rule: path_text.cases) auto

lemma name_end:
  assumes "k @ u = l @ v" "name_ok k" "name_ok l"
    and "u = [] \<or> hd u \<in> {CHR ''.'', CHR ''[''}" "v = [] \<or> hd v \<in> {CHR ''.'', CHR ''[''}"
  shows "k = l \<and> u = v"
proof -
  let ?P = "\<lambda>c. c \<noteq> CHR ''.'' \<and> c \<noteq> CHR ''[''"
  have tw: "takeWhile ?P (k @ u) = k" if "name_ok k" "u = [] \<or> hd u \<in> {CHR ''.'', CHR ''[''}" for k u
  proof -
    have "takeWhile ?P (k @ u) = k @ takeWhile ?P u"
      using that(1) by (intro takeWhile_append2) (auto simp: name_ok_def)
    moreover have "takeWhile ?P u = []" using that(2) by (cases u) auto
    ultimately show ?thesis by simp
  qed
  have "k = l" using tw [OF assms(2,4)] tw [OF assms(3,5)] assms(1) by simp
  then show ?thesis using assms(1) by simp
qed

lemma path_text_inj:
  "list_all step_ok ss \<Longrightarrow> list_all step_ok ts \<Longrightarrow> path_text ss = path_text ts \<Longrightarrow> ss = ts"
proof (induction ss arbitrary: ts)
  case Nil
  then show ?case by (cases ts rule: path_text.cases) auto
next
  case (Cons s ss)
  obtain t ts' where ts: "ts = t # ts'" using Cons.prems(3) by (cases ts; cases s) auto
  show ?case
  proof (cases s)
    case (Child k)
    then obtain l where t: "t = Child l" using Cons.prems(3) ts by (cases t) auto
    have eq: "k @ path_text ss = l @ path_text ts'" using Cons.prems(3) ts t Child by simp
    have "name_ok k" "name_ok l" using Cons.prems(1,2) Child t ts by simp_all
    then have "k = l \<and> path_text ss = path_text ts'"
      using name_end [OF eq _ _ path_text_head path_text_head] by blast
    then show ?thesis using Cons.IH [of ts'] Cons.prems ts t Child by simp
  next
    case Elem
    then have "t = Elem" using Cons.prems(3) ts by (cases t) auto
    then show ?thesis using Cons Elem ts by simp
  qed
qed

lemma map_of_updates:
  "(\<forall>f \<in> set fs. fd_Path f = q \<longrightarrow> f = g) \<Longrightarrow>
   foldl (\<lambda>m f. m(fd_Path f \<mapsto> f)) m0 fs q = (if \<exists>f \<in> set fs. fd_Path f = q then Some g else m0 q)"
  by (induction fs rule: rev_induct) auto

lemma FieldsMap_at:
  assumes "node_ok n" "names_ok n" "list_all step_ok ss" and sort: "slice_sort path_key srt"
  shows "FieldsMap srt n (''$'' @ path_text ss) =
    (case node_at n ss of None \<Rightarrow> None
     | Some m \<Rightarrow> map_option (\<lambda>ts. \<lparr>fd_Path = ''$'' @ path_text ss, fd_Types = ts, fd_IsArray = is_elem ss m\<rparr>) (own_decl m))"
proof -
  let ?q = "''$'' @ path_text ss"
  have mem: "f \<in> set (Fields srt n) \<longleftrightarrow> (\<exists>ts. described n ''$'' False ts f)" for f
    using collectFields_described [OF assms(1)] slice_sort.same_set [OF sort] by (simp add: Fields_def)
  have at: "f \<in> set (Fields srt n) \<and> fd_Path f = ?q \<longleftrightarrow> described n ''$'' False ss f" for f
  proof
    assume f: "f \<in> set (Fields srt n) \<and> fd_Path f = ?q"
    then obtain ts where ts: "described n ''$'' False ts f" using mem by blast
    then have "path_text ts = path_text ss" "\<exists>m. node_at n ts = Some m" using f by (auto simp: described_def)
    then have "ts = ss" using path_text_inj node_at_steps [OF assms(2)] assms(3) by blast
    then show "described n ''$'' False ss f" using ts by simp
  next
    assume d: "described n ''$'' False ss f"
    then have "fd_Path f = ?q" by (auto simp: described_def)
    then show "f \<in> set (Fields srt n) \<and> fd_Path f = ?q" using d mem by blast
  qed
  have elem: "(if ss = [] then False else is_elem ss m) = is_elem ss m" for m by (simp add: is_elem_def)
  show ?thesis
  proof (cases "\<exists>f. described n ''$'' False ss f")
    case True
    then obtain g where g: "described n ''$'' False ss g" by blast
    have "\<forall>f \<in> set (Fields srt n). fd_Path f = ?q \<longrightarrow> f = g"
    proof (intro ballI impI)
      fix f assume "f \<in> set (Fields srt n)" "fd_Path f = ?q"
      then have "described n ''$'' False ss f" using at by blast
      then show "f = g" using g by (auto simp: described_def)
    qed
    then have "FieldsMap srt n ?q = Some g"
      using map_of_updates [of "Fields srt n" ?q g Map.empty] at g by (auto simp: FieldsMap_def)
    then show ?thesis using g by (auto simp: described_def elem)
  next
    case False
    then have none: "\<not> (\<exists>f \<in> set (Fields srt n). fd_Path f = ?q)" using at by blast
    then have "FieldsMap srt n ?q = None"
      using map_of_updates [of "Fields srt n" ?q _ Map.empty] by (auto simp: FieldsMap_def)
    then show ?thesis using False
      by (cases "node_at n ss"; cases "own_decl (the (node_at n ss))") (auto simp: described_def)
  qed
qed

text \<open>The key of a path is the text of the walk along it.\<close>

definition steps_of :: "path_hop list \<Rightarrow> step list" where
  "steps_of hops = concat (map (\<lambda>h. Child (Name h) # replicate (length (Subs h)) Elem) hops)"

lemma path_text_append: "path_text (ss @ ts) = path_text ss @ path_text ts"
  by (induction ss rule: path_text.induct) auto

lemma render_hop_steps:
  "''.'' @ render_hop True h = path_text (Child (Name h) # replicate (length (Subs h)) Elem)"
proof -
  have "concat (map (render_sub True) subs) = path_text (replicate (length subs) Elem)" for subs
    by (induction subs) (auto simp: render_sub_def split: path_sub.split)
  then show ?thesis by (simp add: render_hop_def)
qed

lemma hops_key_steps: "hops \<noteq> [] \<Longrightarrow> hops_key hops = ''$'' @ path_text (steps_of hops)"
proof -
  assume "hops \<noteq> []"
  then have "''.'' @ renderPathHops hops True = path_text (steps_of hops)"
  proof (induction hops rule: induct_list012)
    case (2 h)
    then show ?case using render_hop_steps [of h] by (simp add: steps_of_def)
  next
    case (3 h i hs)
    then show ?case using render_hop_steps [of h] by (simp add: steps_of_def path_text_append)
  qed simp
  then show ?thesis by (simp add: hops_key_def jsonPathLeader_def)
qed

lemma steps_of_ok: "list_all hop_ok hops \<Longrightarrow> list_all step_ok (steps_of hops)"
proof -
  have "name_ok k" if "list_all isPathNameByte k" for k
    using that not_name_bytes by (auto simp: name_ok_def list_all_iff)
  then show "list_all hop_ok hops \<Longrightarrow> list_all step_ok (steps_of hops)"
    by (induction hops) (auto simp: steps_of_def hop_ok_def list_all_iff)
qed

subsection \<open>Properties\<close>

text \<open>C16: for a well-formed schema tree whose child names are unambiguous, the types a path's key finds in
  the fields map are those declared by the node the path walks to, by child name and through array
  elements, and none when it walks nowhere; whatever the sort does with equal paths.\<close>

theorem schema_declares:
  assumes "node_ok n" "names_ok n" "hops \<noteq> []" "list_all hop_ok hops" "slice_sort path_key srt"
  shows "declared_types (FieldsMap srt n) (hops_key hops) =
    (case node_at n (steps_of hops) of None \<Rightarrow> [] | Some m \<Rightarrow> (case own_decl m of None \<Rightarrow> [] | Some ts \<Rightarrow> ts))"
  using FieldsMap_at [OF assms(1,2) steps_of_ok [OF assms(4)] assms(5)] hops_key_steps [OF assms(3)]
  by (simp add: declared_types_def split: option.split)

theorem schema_declares_witness:
  "declared_types (FieldsMap (sort_key path_key) sample_schema) ''$.tags[*]'' = [Integer, String]
   \<and> declared_types (FieldsMap (sort_key path_key) sample_schema) ''$.note'' = [Null]
   \<and> declared_types (FieldsMap (sort_key path_key) sample_schema) ''$.tags'' = []"
proof -
  have n: "names_ok sample_schema" by (simp add: sample_schema_def name_ok_def)
  have h: "list_all hop_ok [\<lparr>Name = ''tags'', Subs = [Wildcard]\<rparr>]" "list_all hop_ok [\<lparr>Name = ''note'', Subs = []\<rparr>]"
    "list_all hop_ok [\<lparr>Name = ''tags'', Subs = []\<rparr>]" by code_simp+
  have k: "hops_key [\<lparr>Name = ''tags'', Subs = [Wildcard]\<rparr>] = ''$.tags[*]''"
    "hops_key [\<lparr>Name = ''note'', Subs = []\<rparr>] = ''$.note''" "hops_key [\<lparr>Name = ''tags'', Subs = []\<rparr>] = ''$.tags''"
    by code_simp+
  have d: "declared_types (FieldsMap (sort_key path_key) sample_schema) ''$.tags[*]'' = [Integer, String]"
    using schema_declares [OF sample_schema_ok n _ h(1) stable_slice_sort] unfolding k
    by (simp add: steps_of_def sample_schema_def own_decl_def)
  have e: "declared_types (FieldsMap (sort_key path_key) sample_schema) ''$.note'' = [Null]"
    using schema_declares [OF sample_schema_ok n _ h(2) stable_slice_sort] unfolding k
    by (simp add: steps_of_def sample_schema_def own_decl_def Kinds_empty)
  have f: "declared_types (FieldsMap (sort_key path_key) sample_schema) ''$.tags'' = []"
    using schema_declares [OF sample_schema_ok n _ h(3) stable_slice_sort] unfolding k
    by (simp add: steps_of_def sample_schema_def own_decl_def Kinds_def allKinds_def has_branch_def)
  show ?thesis using d e f by blast
qed

end
