(* ===== verification/Field_Cache.thy ===== *)
theory Field_Cache
  imports Model_Fields
begin

text \<open>
  The lazily computed flat view of a schema tree (\<open>fields\<close> and the atomic \<open>fieldCache\<close> of
  \<open>model_schema.go\<close>), read by any number of goroutines. Results: once building is over, every reader gets
  the flattening of the tree whatever the interleaving, in at most four steps of its own; a read that
  overlaps building can leave a stale view behind, as the comments warn.
\<close>

subsection \<open>Readers and writers\<close>

record cachedFields =
  cf_list :: "FieldDescriptor list"
  cf_byPath :: fields_map

text \<open>The sort by path that \<open>Fields\<close> uses; Go's is a function of the slice it is given.\<close>

type_synonym path_sort = "FieldDescriptor list \<Rightarrow> FieldDescriptor list"

definition buildFieldCache :: "path_sort \<Rightarrow> model_node \<Rightarrow> cachedFields" where
  "buildFieldCache srt n = \<lparr>cf_list = Fields srt n, cf_byPath = FieldsMap srt n\<rparr>"

text \<open>Where a goroutine stands in \<open>fields\<close>: the next thing it does is the named operation.\<close>

datatype reader =
    Out
  | FirstLoad
  | Build
  | CompareAndSwap cachedFields
  | SecondLoad cachedFields
  | Returned cachedFields

record cache_state =
  cs_node :: model_node
  cs_cell :: "cachedFields option"
  cs_readers :: "nat \<Rightarrow> reader"

text \<open>One step of reader \<open>i\<close>, each an atomic operation on the cell; the walk reads an unchanging tree.\<close>

definition reader_step :: "path_sort \<Rightarrow> nat \<Rightarrow> cache_state \<Rightarrow> cache_state" where
  "reader_step srt i s =
     (let go = (\<lambda>r. s\<lparr>cs_readers := (cs_readers s)(i := r)\<rparr>) in
      case cs_readers s i of
        FirstLoad \<Rightarrow> (case cs_cell s of Some cached \<Rightarrow> go (Returned cached) | None \<Rightarrow> go Build)
      | Build \<Rightarrow> go (CompareAndSwap (buildFieldCache srt (cs_node s)))
      | CompareAndSwap cf \<Rightarrow>
          (case cs_cell s of
             None \<Rightarrow> (go (Returned cf))\<lparr>cs_cell := Some cf\<rparr>
           | Some _ \<Rightarrow> go (SecondLoad cf))
      | SecondLoad cf \<Rightarrow> (case cs_cell s of Some cached \<Rightarrow> go (Returned cached) | None \<Rightarrow> go (Returned cf))
      | _ \<Rightarrow> s)"

definition enter :: "nat \<Rightarrow> cache_state \<Rightarrow> cache_state" where
  "enter i s = s\<lparr>cs_readers := (cs_readers s)(i := FirstLoad)\<rparr>"

text \<open>A mutator changes the tree, then drops the cache.\<close>

definition change_tree :: "model_node \<Rightarrow> cache_state \<Rightarrow> cache_state" where
  "change_tree n s = s\<lparr>cs_node := n\<rparr>"

definition drop_cache :: "cache_state \<Rightarrow> cache_state" where
  "drop_cache s = s\<lparr>cs_cell := None\<rparr>"

fun in_flight :: "reader \<Rightarrow> bool" where
  "in_flight Out \<longleftrightarrow> False"
| "in_flight (Returned _) \<longleftrightarrow> False"
| "in_flight _ \<longleftrightarrow> True"

inductive read_step :: "path_sort \<Rightarrow> cache_state \<Rightarrow> cache_state \<Rightarrow> bool" for srt :: path_sort where
  enters: "\<not> in_flight (cs_readers s i) \<Longrightarrow> read_step srt s (enter i s)"
| moves: "in_flight (cs_readers s i) \<Longrightarrow> read_step srt s (reader_step srt i s)"
| drops: "read_step srt s (drop_cache s)"

inductive_cases read_stepE: "read_step srt s t"

subsection \<open>Agreement\<close>

text \<open>Every value in the cell or in a reader's hands is the flattening of the tree.\<close>

fun holds_view :: "cachedFields \<Rightarrow> reader \<Rightarrow> bool" where
  "holds_view v (CompareAndSwap cf) \<longleftrightarrow> cf = v"
| "holds_view v (SecondLoad cf) \<longleftrightarrow> cf = v"
| "holds_view v (Returned cf) \<longleftrightarrow> cf = v"
| "holds_view v _ \<longleftrightarrow> True"

definition agrees :: "path_sort \<Rightarrow> cache_state \<Rightarrow> bool" where
  "agrees srt s \<longleftrightarrow>
     (let v = buildFieldCache srt (cs_node s) in
      (cs_cell s = None \<or> cs_cell s = Some v) \<and> (\<forall>i. holds_view v (cs_readers s i)))"

lemma read_step_node: "read_step srt s t \<Longrightarrow> cs_node t = cs_node s"
  by (auto elim!: read_stepE simp: enter_def drop_cache_def reader_step_def Let_def split: reader.split option.split)

lemma agrees_view: "agrees srt s \<Longrightarrow> cs_readers s i = r \<Longrightarrow> holds_view (buildFieldCache srt (cs_node s)) r"
  by (auto simp: agrees_def Let_def)

lemma agrees_move: "agrees srt s \<Longrightarrow> agrees srt (reader_step srt i s)"
  using agrees_view [where s = s and i = i, OF _ refl]
  by (cases "cs_readers s i") (auto simp: agrees_def reader_step_def Let_def split: option.split)

lemma agrees_step: "agrees srt s \<Longrightarrow> read_step srt s t \<Longrightarrow> agrees srt t"
  by (erule read_stepE) (auto simp: agrees_move, auto simp: agrees_def enter_def drop_cache_def Let_def)

lemma agrees_steps: "(read_step srt)\<^sup>*\<^sup>* s t \<Longrightarrow> agrees srt s \<Longrightarrow> agrees srt t \<and> cs_node t = cs_node s"
  by (induction rule: rtranclp_induct) (auto dest: agrees_step read_step_node)

subsection \<open>Progress\<close>

text \<open>How many steps of its own a reader has left; nobody else's step adds to them.\<close>

fun steps_left :: "reader \<Rightarrow> nat" where
  "steps_left FirstLoad = 4"
| "steps_left Build = 3"
| "steps_left (CompareAndSwap _) = 2"
| "steps_left (SecondLoad _) = 1"
| "steps_left _ = 0"

lemma own_step: "in_flight (cs_readers s i) \<Longrightarrow> steps_left (cs_readers (reader_step srt i s) i) < steps_left (cs_readers s i)"
  by (cases "cs_readers s i") (auto simp: reader_step_def Let_def split: option.split)

lemma other_step: "i \<noteq> j \<Longrightarrow> cs_readers (reader_step srt j s) i = cs_readers s i"
  by (auto simp: reader_step_def Let_def split: reader.split option.split)

lemma in_flight_steps: "in_flight r \<longleftrightarrow> 0 < steps_left r"
  by (cases r) auto

text \<open>
  A schedule of reader moves, calls and cache drops. A reader's own moves decide when it is back.
\<close>

datatype event = Move nat | Call nat | Drop

definition do_event :: "path_sort \<Rightarrow> event \<Rightarrow> cache_state \<Rightarrow> cache_state" where
  "do_event srt e s =
     (case e of
        Move j \<Rightarrow> reader_step srt j s
      | Call j \<Rightarrow> if in_flight (cs_readers s j) then s else enter j s
      | Drop \<Rightarrow> drop_cache s)"

lemma idle_step: "\<not> in_flight (cs_readers s i) \<Longrightarrow> reader_step srt i s = s"
  by (cases "cs_readers s i") (auto simp: reader_step_def)

lemma do_event_reads: "(read_step srt)\<^sup>*\<^sup>* s (do_event srt e s)"
proof (cases e)
  case (Move j)
  then show ?thesis by (cases "in_flight (cs_readers s j)") (auto simp: do_event_def idle_step intro: moves)
qed (auto simp: do_event_def intro: read_step.intros)

lemma run_reads: "(read_step srt)\<^sup>*\<^sup>* s (fold (do_event srt) es s)"
proof (induction es arbitrary: s)
  case (Cons e es)
  then show ?case using rtranclp_trans [OF do_event_reads] by fastforce
qed simp

lemma do_event_left:
  "e \<noteq> Call i \<Longrightarrow>
   steps_left (cs_readers (do_event srt e s) i) \<le> steps_left (cs_readers s i) - (if e = Move i then 1 else 0)"
proof (cases e)
  case (Move j)
  then show ?thesis using own_step [where s = s and i = i and srt = srt] idle_step [where s = s and i = i and srt = srt] other_step [where i = i and j = j and s = s and srt = srt]
      in_flight_steps [of "cs_readers s i"]
    by (cases "i = j"; cases "in_flight (cs_readers s i)") (auto simp: do_event_def)
qed (auto simp: do_event_def enter_def drop_cache_def)

lemma do_event_returns:
  "e \<noteq> Call i \<Longrightarrow> cs_readers s i \<noteq> Out \<Longrightarrow> cs_readers (do_event srt e s) i \<noteq> Out"
  by (cases e) (auto simp: do_event_def enter_def drop_cache_def reader_step_def Let_def
      split: reader.split option.split)

lemma run_returns:
  "Call i \<notin> set es \<Longrightarrow> cs_readers s i \<noteq> Out \<Longrightarrow> steps_left (cs_readers s i) \<le> count_list es (Move i) \<Longrightarrow>
   \<exists>cf. cs_readers (fold (do_event srt) es s) i = Returned cf"
proof (induction es arbitrary: s)
  case Nil
  then show ?case by (cases "cs_readers s i") auto
next
  case (Cons e es)
  have "steps_left (cs_readers (do_event srt e s) i) \<le> count_list es (Move i)"
    using do_event_left [where e = e and i = i and s = s and srt = srt] Cons.prems(1,3) by (auto split: if_splits)
  then show ?case using Cons.IH [where s = "do_event srt e s"] do_event_returns [where e = e and i = i and s = s and srt = srt] Cons.prems(1,2) by auto
qed

text \<open>A read that overlaps a mutation can store the view of the old tree, which later readers then get.\<close>

definition race :: "path_sort \<Rightarrow> model_node \<Rightarrow> cache_state \<Rightarrow> cache_state" where
  "race srt n s = reader_step srt 0 (drop_cache (change_tree n (reader_step srt 0 (reader_step srt 0 (enter 0 s)))))"

lemma stale_after_race:
  assumes "cs_cell s = None"
  shows "cs_cell (race srt n s) = Some (buildFieldCache srt (cs_node s)) \<and> cs_node (race srt n s) = n"
  using assms by (simp add: race_def enter_def reader_step_def change_tree_def drop_cache_def)

subsection \<open>Properties\<close>

text \<open>
  C19: build, then read. From a state where nobody is reading and the cell is empty or right, every call
  of \<open>fields\<close> that returns, under any interleaving of readers and cache drops, returns the flattening of
  the tree as it stands. No reader waits for another: four moves of its own bring any call back.
\<close>
theorem fields_reads_exact:
  assumes "cs_readers s = (\<lambda>_. Out)" "cs_cell s = None \<or> cs_cell s = Some (buildFieldCache srt (cs_node s))"
    "(read_step srt)\<^sup>*\<^sup>* s t" "in_flight (cs_readers t i)" "Call i \<notin> set es" "4 \<le> count_list es (Move i)"
  shows "\<exists>cf. cs_readers (fold (do_event srt) es t) i = Returned cf
    \<and> cf_list cf = Fields srt (cs_node s) \<and> cf_byPath cf = FieldsMap srt (cs_node s)"
proof -
  have "cs_readers t i \<noteq> Out" "steps_left (cs_readers t i) \<le> 4" using assms(4) by (cases "cs_readers t i"; simp)+
  then obtain cf where cf: "cs_readers (fold (do_event srt) es t) i = Returned cf"
    using run_returns [OF assms(5)] assms(6) le_trans by blast
  have "agrees srt s" using assms(1,2) by (auto simp: agrees_def Let_def)
  moreover have "(read_step srt)\<^sup>*\<^sup>* s (fold (do_event srt) es t)" by (rule rtranclp_trans [OF assms(3) run_reads])
  ultimately have "holds_view (buildFieldCache srt (cs_node s)) (Returned cf)"
    using agrees_steps [where s = s and t = "fold (do_event srt) es t"] agrees_view [OF _ cf] by auto
  then show ?thesis using cf by (simp add: buildFieldCache_def)
qed

definition sample_cache :: cache_state where
  "sample_cache = \<lparr>cs_node = NewObjectNode, cs_cell = None, cs_readers = (\<lambda>_. Out)\<rparr>"

theorem fields_reads_exact_witness:
  "\<exists>cf. cs_readers (fold (do_event (sort_key path_key)) [Move 0, Move 0, Drop, Call 1, Move 1, Move 0, Move 0] (enter 0 sample_cache)) 0
       = Returned cf \<and> cf_list cf = []"
proof -
  have r: "(read_step (sort_key path_key))\<^sup>*\<^sup>* sample_cache (enter 0 sample_cache)"
    by (rule r_into_rtranclp, rule enters) (simp add: sample_cache_def)
  have "Fields (sort_key path_key) (cs_node sample_cache) = []" by (simp add: sample_cache_def) code_simp
  then show ?thesis
    using fields_reads_exact [OF _ _ r, of 0 "[Move 0, Move 0, Drop, Call 1, Move 1, Move 0, Move 0]"]
    by (auto simp: sample_cache_def enter_def)
qed

end
