(* ===== verification/Unique_Signature.thy ===== *)
theory Unique_Signature
  imports Resolve Decimals
begin

text \<open>
  Composite unique keys (\<open>unique.go\<close>, \<open>unique_signature.go\<close>): a document's claim on a key is a signature
  over its field values. Results: two documents get the same signature exactly when they hold the same
  values, numbers compared as rationals; a key is claimed, inapplicable or refused by the presence and
  the kind of its values; an accepted literal is small, up to an exponent the digit count truncates.
\<close>

subsection \<open>Keys and claims\<close>

record UniqueKey =
  uk_ID :: string
  uk_Fields :: "string list"

record UniqueClaim =
  uc_KeyID :: string
  uc_Signature :: string

definition maxCoeffDigits :: int where "maxCoeffDigits = 64"
definition maxNumExp :: int where "maxNumExp = 6144"

datatype count_error = EmptyLiteral | SignOnly | ExponentWithoutDigits | UnexpectedCharacter nat

datatype unique_error =
    PartialKey string nat nat | NonScalar string | UnsupportedValue string
  | MalformedLiteral string count_error | LiteralOutOfBounds string int int | Uncanonicalizable string

subsection \<open>Numeric literals\<close>

text \<open>The pieces of a literal: a sign, the digits around the point, and what is left.\<close>

definition cut_sign :: "string \<Rightarrow> string" where
  "cut_sign s = (if s \<noteq> [] \<and> (hd s = CHR ''-'' \<or> hd s = CHR ''+'') then tl s else s)"

definition signed_minus :: "string \<Rightarrow> bool" where
  "signed_minus s \<longleftrightarrow> s \<noteq> [] \<and> hd s = CHR ''-''"

definition literal_int :: "string \<Rightarrow> string" where
  "literal_int s = takeWhile is_digit s"

definition literal_frac :: "string \<Rightarrow> string" where
  "literal_frac s =
     (case dropWhile is_digit s of c # t \<Rightarrow> if c = CHR ''.'' then takeWhile is_digit t else [] | [] \<Rightarrow> [])"

definition after_mantissa :: "string \<Rightarrow> string" where
  "after_mantissa s =
     (case dropWhile is_digit s of c # t \<Rightarrow> if c = CHR ''.'' then dropWhile is_digit t else c # t | [] \<Rightarrow> [])"

definition is_exp_mark :: "char \<Rightarrow> bool" where
  "is_exp_mark c \<longleftrightarrow> c = CHR ''e'' \<or> c = CHR ''E''"

text \<open>The exponent loop, which stops accumulating once it is past the limit.\<close>

fun capped :: "int \<Rightarrow> string \<Rightarrow> int" where
  "capped v [] = v"
| "capped v (c # cs) = capped (if v \<le> maxNumExp + 1 then v * 10 + int (digit_val c) else v) cs"

definition count_exp :: "string \<Rightarrow> count_error + int \<times> string" where
  "count_exp s =
     (case s of
        c # t \<Rightarrow>
          if is_exp_mark c then
            (let u = cut_sign t in
             if u = [] then Err ExponentWithoutDigits
             else (let v = capped 0 (takeWhile is_digit u)
                   in Ok (if signed_minus t then - v else v, dropWhile is_digit u)))
          else Ok (0, s)
      | [] \<Rightarrow> Ok (0, s))"

definition countDigitsExp :: "string \<Rightarrow> count_error + int \<times> int" where
  "countDigitsExp s =
     (if s = [] then Err EmptyLiteral
      else
        (let m = cut_sign s in
         if m = [] then Err SignOnly
         else
           (case count_exp (after_mantissa m) of
              Inl e \<Rightarrow> Err e
            | Inr (explicitExp, rest) \<Rightarrow>
                if rest \<noteq> [] then Err (UnexpectedCharacter (length s - length rest))
                else
                  (let intDigits = int (length (literal_int m)); fracDigits = int (length (literal_frac m))
                   in Ok (intDigits + fracDigits, explicitExp - fracDigits)))))"

text \<open>
  \<open>big.Rat.SetString\<close> on a literal the count accepts: it wants a digit in the mantissa and an
  exponent that fits an \<open>int64\<close>, reads a zero mantissa as zero, and otherwise refuses a power of ten
  beyond a million.
\<close>

definition explicit_exp :: "string \<Rightarrow> int" where
  "explicit_exp s =
     (case s of
        [] \<Rightarrow> 0
      | c # t \<Rightarrow> (let v = int (dec_val (takeWhile is_digit (cut_sign t))) in if signed_minus t then - v else v))"

definition coefficient :: "string \<Rightarrow> int" where
  "coefficient s =
     (let m = cut_sign s; v = int (dec_val (literal_int m @ literal_frac m))
      in if signed_minus s then - v else v)"

definition power_of_ten :: "string \<Rightarrow> int" where
  "power_of_ten s =
     (let m = cut_sign s in explicit_exp (after_mantissa m) - int (length (literal_frac m)))"

definition rat_SetString :: "string \<Rightarrow> rat option" where
  "rat_SetString s =
     (let m = cut_sign s; e = explicit_exp (after_mantissa m) in
      if literal_int m @ literal_frac m = [] \<or> e < - (2 ^ 63) \<or> 2 ^ 63 \<le> e then None
      else if coefficient s = 0 then Some 0
      else if \<bar>power_of_ten s\<bar> > 1000000 then None
      else Some (of_int (coefficient s) * 10 powi (power_of_ten s)))"

text \<open>\<open>RatString\<close>: the reduced fraction, without a denominator of one.\<close>

definition rat_RatString :: "rat \<Rightarrow> string" where
  "rat_RatString r =
     (let (p, q) = quotient_of r in if q = 1 then big_str p else big_str p @ ''/'' @ big_str q)"

definition canonNum :: "string \<Rightarrow> unique_error + string" where
  "canonNum s =
     (case countDigitsExp s of
        Inl e \<Rightarrow> Err (MalformedLiteral s e)
      | Inr (digits, ex) \<Rightarrow>
          if digits > maxCoeffDigits \<or> ex > maxNumExp \<or> ex < - maxNumExp then Err (LiteralOutOfBounds s digits ex)
          else (case rat_SetString s of None \<Rightarrow> Err (Uncanonicalizable s) | Some r \<Rightarrow> Ok (''n:'' @ rat_RatString r)))"

subsection \<open>Fields and claims\<close>

text \<open>The members of a decoded object are a list of name and value, each name once.\<close>

fun split_dots :: "string \<Rightarrow> string list" where
  "split_dots [] = [[]]"
| "split_dots (c # cs) =
     (if c = CHR ''.'' then [] # split_dots cs
      else (case split_dots cs of [] \<Rightarrow> [[c]] | p # ps \<Rightarrow> (c # p) # ps))"

fun walk_segs :: "string list \<Rightarrow> json \<Rightarrow> json option" where
  "walk_segs [] current = Some current"
| "walk_segs (seg # segs) current =
     (if seg = [] then walk_segs segs current
      else (case current of
              JObject ms \<Rightarrow> (case map_of ms seg of None \<Rightarrow> None | Some val \<Rightarrow> walk_segs segs val)
            | _ \<Rightarrow> None))"

definition walkPath :: "string \<Rightarrow> (string \<times> json) list \<Rightarrow> json option" where
  "walkPath field obj =
     (let path = (case strip_prefix ''$'' field of Some p \<Rightarrow> p | None \<Rightarrow> field) in
      if path = [] then None else walk_segs (split_dots path) (JObject obj))"

fun tokenize :: "string \<Rightarrow> json \<Rightarrow> unique_error + string" where
  "tokenize field (JString v) = Ok (''s'' @ dec_str (length v) @ '':'' @ v)"
| "tokenize field JTrue = Ok ''b:true''"
| "tokenize field JFalse = Ok ''b:false''"
| "tokenize field (JNumber n) = canonNum n"
| "tokenize field (JObject ms) = Err (NonScalar field)"
| "tokenize field (JArray js) = Err (NonScalar field)"
| "tokenize field JNull = Err (UnsupportedValue field)"

definition missing :: "string \<Rightarrow> (string \<times> json) list \<Rightarrow> bool" where
  "missing field obj \<longleftrightarrow> walkPath field obj = None \<or> walkPath field obj = Some JNull"

fun field_tokens :: "(string \<times> json) list \<Rightarrow> string list \<Rightarrow> unique_error + string list" where
  "field_tokens obj [] = Ok []"
| "field_tokens obj (field # fs) =
     (if missing field obj then field_tokens obj fs
      else (case tokenize field (the (walkPath field obj)) of
              Inl e \<Rightarrow> Err e
            | Inr tok \<Rightarrow>
                (case field_tokens obj fs of Inl e \<Rightarrow> Err e | Inr toks \<Rightarrow> Ok (tok # toks))))"

definition unit_separator :: char where "unit_separator = CHR 0x1F"

fun join_tokens :: "string list \<Rightarrow> string" where
  "join_tokens [] = []"
| "join_tokens [t] = t"
| "join_tokens (t # ts) = t @ [unit_separator] @ join_tokens ts"

definition computeOneClaim :: "UniqueKey \<Rightarrow> (string \<times> json) list \<Rightarrow> unique_error + UniqueClaim option" where
  "computeOneClaim key obj =
     (case field_tokens obj (uk_Fields key) of
        Inl e \<Rightarrow> Err e
      | Inr toks \<Rightarrow>
          if toks = [] then Ok None
          else if length toks \<noteq> length (uk_Fields key)
          then Err (PartialKey (uk_ID key) (length toks) (length (uk_Fields key)))
          else Ok (Some \<lparr>uc_KeyID = uk_ID key, uc_Signature = join_tokens toks\<rparr>))"

fun claims_of :: "(string \<times> json) list \<Rightarrow> UniqueKey list \<Rightarrow> unique_error + UniqueClaim list" where
  "claims_of obj [] = Ok []"
| "claims_of obj (key # keys) =
     (case computeOneClaim key obj of
        Inl e \<Rightarrow> Err e
      | Inr c \<Rightarrow>
          (case claims_of obj keys of
             Inl e \<Rightarrow> Err e
           | Inr cs \<Rightarrow> Ok (case c of Some cl \<Rightarrow> cl # cs | None \<Rightarrow> cs)))"

text \<open>\<open>decode\<close> is \<open>json.Decoder\<close> with \<open>UseNumber\<close>, into an object.\<close>

definition ComputeClaims ::
  "(string \<Rightarrow> 'e + (string \<times> json) list) \<Rightarrow> UniqueKey list \<Rightarrow> string \<Rightarrow> ('e + unique_error) + UniqueClaim list" where
  "ComputeClaims decode keys doc =
     (if keys = [] then Ok []
      else (case decode doc of
              Inl e \<Rightarrow> Err (Inl e)
            | Inr obj \<Rightarrow> (case claims_of obj keys of Inl e \<Rightarrow> Err (Inr e) | Inr cs \<Rightarrow> Ok cs)))"

subsection \<open>Tokens name values\<close>

datatype field_scalar = VString string | VBool bool | VNumber rat

fun scalar_of :: "json \<Rightarrow> field_scalar option" where
  "scalar_of (JString s) = Some (VString s)"
| "scalar_of JTrue = Some (VBool True)"
| "scalar_of JFalse = Some (VBool False)"
| "scalar_of (JNumber n) = map_option VNumber (rat_SetString n)"
| "scalar_of _ = None"

fun token_of :: "field_scalar \<Rightarrow> string" where
  "token_of (VString s) = ''s'' @ dec_str (length s) @ '':'' @ s"
| "token_of (VBool b) = (if b then ''b:true'' else ''b:false'')"
| "token_of (VNumber r) = ''n:'' @ rat_RatString r"

lemma canonNum_value: "canonNum s = Ok t \<Longrightarrow> \<exists>r. rat_SetString s = Some r \<and> t = token_of (VNumber r)"
  by (auto simp: canonNum_def split: sum.splits prod.splits if_splits option.splits)

lemma tokenize_value: "tokenize f v = Ok t \<Longrightarrow> \<exists>x. scalar_of v = Some x \<and> t = token_of x"
  by (cases v) (auto dest: canonNum_value)

lemma digits_append_unique:
  assumes "digits @ c # r = digits' @ c' # r'" "\<forall>d \<in> set digits. is_digit d" "\<forall>d \<in> set digits'. is_digit d"
    "\<not> is_digit c" "\<not> is_digit c'"
  shows "digits = digits' \<and> c # r = c' # r'"
proof -
  have *: "takeWhile is_digit (ds @ k # q) = ds \<and> dropWhile is_digit (ds @ k # q) = k # q"
    if "\<forall>d \<in> set ds. is_digit d" "\<not> is_digit k" for ds k q
    using that by (simp add: takeWhile_append dropWhile_append)
  show ?thesis using * [of digits c r] * [of digits' c' r'] assms by metis
qed

lemma big_str_chars: "\<forall>c \<in> set (big_str u). is_digit c \<or> c = CHR ''-''"
  using dec_str_digits by (auto simp: big_str_def)

lemma big_str_inj: "big_str u = big_str v \<Longrightarrow> u = v"
proof -
  assume e: "big_str u = big_str v"
  have hd: "big_str w \<noteq> [] \<and> (hd (big_str w) = CHR ''-'' \<longleftrightarrow> w < 0)" for w
    by (cases "w = 0") (simp_all add: big_str_sign(1), simp_all add: big_str_def hd_dec_str_not_minus)
  then have "(u < 0) = (v < 0)" using e by metis
  then show "u = v" using e by (auto simp: big_str_def dec_str_inj split: if_splits)
qed

lemma rat_RatString_inj: "rat_RatString r = rat_RatString s \<Longrightarrow> r = s"
proof -
  assume e: "rat_RatString r = rat_RatString s"
  obtain p q where r: "quotient_of r = (p, q)" by fastforce
  obtain p' q' where s: "quotient_of s = (p', q')" by fastforce
  have slash: "CHR ''/'' \<notin> set (big_str u)" for u
    using big_str_chars [of u] by (auto simp: is_digit_def)
  have split: "takeWhile (\<lambda>c. c \<noteq> CHR ''/'') (big_str u @ x) = big_str u @ takeWhile (\<lambda>c. c \<noteq> CHR ''/'') x"
    "dropWhile (\<lambda>c. c \<noteq> CHR ''/'') (big_str u @ x) = dropWhile (\<lambda>c. c \<noteq> CHR ''/'') x" for u x
    using slash [of u] by (auto simp: takeWhile_append dropWhile_append)
  have *: "takeWhile (\<lambda>c. c \<noteq> CHR ''/'') (rat_RatString x) = big_str (fst (quotient_of x))
      \<and> dropWhile (\<lambda>c. c \<noteq> CHR ''/'') (rat_RatString x)
         = (if snd (quotient_of x) = 1 then [] else ''/'' @ big_str (snd (quotient_of x)))" for x
    using split [of "fst (quotient_of x)" "[]"] split [of "fst (quotient_of x)" "''/'' @ big_str (snd (quotient_of x))"]
    by (simp add: rat_RatString_def case_prod_beta)
  have "big_str p = big_str p'" using * [of r] * [of s] e r s by simp
  then have p: "p = p'" by (rule big_str_inj)
  have "(if snd (quotient_of r) = 1 then [] else ''/'' @ big_str (snd (quotient_of r)))
      = (if snd (quotient_of s) = 1 then [] else ''/'' @ big_str (snd (quotient_of s)))"
    using * [of r] * [of s] e by metis
  then have "q = q'" unfolding r s by (auto split: if_splits dest: big_str_inj)
  then show "r = s" using p r s by (metis quotient_of_inject)
qed

text \<open>A token followed by the separator or by nothing can be read off.\<close>

definition ends_token :: "string \<Rightarrow> bool" where
  "ends_token r \<longleftrightarrow> r = [] \<or> hd r = unit_separator"

lemma plain_token_split:
  assumes "t @ r = t' @ r'" "unit_separator \<notin> set t" "unit_separator \<notin> set t'" "ends_token r" "ends_token r'"
  shows "t = t' \<and> r = r'"
proof -
  have *: "takeWhile (\<lambda>c. c \<noteq> unit_separator) (a @ b) = a \<and> dropWhile (\<lambda>c. c \<noteq> unit_separator) (a @ b) = b"
    if "unit_separator \<notin> set a" "ends_token b" for a b
    using that by (cases b) (auto simp: ends_token_def takeWhile_append dropWhile_append)
  show ?thesis using * assms by metis
qed

lemma number_token_plain: "unit_separator \<notin> set (token_of (VNumber r))"
proof -
  have "unit_separator \<notin> set (big_str u)" for u
    using big_str_chars [of u] by (auto simp: unit_separator_def is_digit_def)
  then show ?thesis by (simp add: rat_RatString_def unit_separator_def split: prod.split)
qed

lemma bool_token_plain: "unit_separator \<notin> set (token_of (VBool b))"
  by (simp add: unit_separator_def)

lemma string_token_split:
  assumes "token_of (VString s) @ r = token_of (VString s') @ r'"
  shows "s = s' \<and> r = r'"
proof -
  have "dec_str (length s) @ CHR '':'' # (s @ r) = dec_str (length s') @ CHR '':'' # (s' @ r')"
    using assms by simp
  then have "dec_str (length s) = dec_str (length s') \<and> CHR '':'' # (s @ r) = CHR '':'' # (s' @ r')"
    by (rule digits_append_unique) (use dec_str_digits in \<open>auto simp: is_digit_def\<close>)
  then show ?thesis by (auto simp: dec_str_inj)
qed

lemma token_split:
  assumes "token_of x @ r = token_of y @ r'" "ends_token r" "ends_token r'"
  shows "x = y \<and> r = r'"
proof (cases "\<exists>s s'. x = VString s \<and> y = VString s'")
  case True
  then show ?thesis using string_token_split assms(1) by blast
next
  case False
  have h: "hd (token_of z) = (case z of VString _ \<Rightarrow> CHR ''s'' | VBool _ \<Rightarrow> CHR ''b'' | VNumber _ \<Rightarrow> CHR ''n'')
      \<and> token_of z \<noteq> []" for z by (cases z) auto
  then have "hd (token_of x) = hd (token_of y)" using assms(1) by (metis hd_append2)
  then have k: "(\<exists>b c. x = VBool b \<and> y = VBool c) \<or> (\<exists>p q. x = VNumber p \<and> y = VNumber q)"
    using False h [of x] h [of y] by (cases x; cases y) auto
  then have "unit_separator \<notin> set (token_of x) \<and> unit_separator \<notin> set (token_of y)"
    using number_token_plain bool_token_plain by blast
  then have "token_of x = token_of y \<and> r = r'" using plain_token_split assms by blast
  then show ?thesis using k by (auto dest: rat_RatString_inj split: if_splits)
qed

lemma join_tokens_Cons: "join_tokens (t # ts) = t @ (if ts = [] then [] else unit_separator # join_tokens ts)"
  by (cases ts) auto

lemma join_tokens_inj:
  "length xs = length ys \<Longrightarrow> join_tokens (map token_of xs) = join_tokens (map token_of ys) \<Longrightarrow> xs = ys"
proof (induction xs ys rule: list_induct2)
  case (Cons x xs y ys)
  have "x = y \<and> (if map token_of xs = [] then [] else unit_separator # join_tokens (map token_of xs))
      = (if map token_of ys = [] then [] else unit_separator # join_tokens (map token_of ys))"
    by (rule token_split) (use Cons.prems in \<open>simp_all add: join_tokens_Cons ends_token_def\<close>)
  then show ?case using Cons.IH Cons.hyps by (cases xs; cases ys) auto
qed simp


subsection \<open>Fields\<close>

definition field_value :: "(string \<times> json) list \<Rightarrow> string \<Rightarrow> field_scalar option" where
  "field_value obj f = (case walkPath f obj of None \<Rightarrow> None | Some v \<Rightarrow> scalar_of v)"

definition literal_ok :: "string \<Rightarrow> bool" where
  "literal_ok n \<longleftrightarrow> rat_SetString n \<noteq> None
     \<and> (case countDigitsExp n of
           Inr (digits, ex) \<Rightarrow> digits \<le> maxCoeffDigits \<and> \<bar>ex\<bar> \<le> maxNumExp | Inl _ \<Rightarrow> False)"

fun claimable :: "json \<Rightarrow> bool" where
  "claimable (JNumber n) \<longleftrightarrow> literal_ok n"
| "claimable v \<longleftrightarrow> scalar_of v \<noteq> None"

lemma canonNum_ok: "is_ok (canonNum n) \<longleftrightarrow> literal_ok n"
  by (auto simp: canonNum_def literal_ok_def split: sum.split prod.split option.split)

lemma tokenize_ok: "is_ok (tokenize f v) \<longleftrightarrow> claimable v"
  by (cases v) (simp_all add: canonNum_ok)

lemma field_tokens_length: "field_tokens obj fs = Ok toks \<Longrightarrow> length toks \<le> length fs"
  by (induction fs arbitrary: toks) (auto split: if_splits sum.splits intro: le_SucI)

lemma field_tokens_all:
  "field_tokens obj fs = Ok toks \<Longrightarrow> length toks = length fs \<Longrightarrow>
   \<exists>xs. toks = map token_of xs \<and> map (field_value obj) fs = map Some xs"
proof (induction fs arbitrary: toks)
  case (Cons f fs)
  show ?case
  proof (cases "missing f obj")
    case True
    then show ?thesis using Cons.prems field_tokens_length [of obj fs toks] by simp
  next
    case False
    then obtain v where v: "walkPath f obj = Some v" by (auto simp: missing_def)
    obtain tok ts where t: "tokenize f v = Ok tok" "field_tokens obj fs = Ok ts" "toks = tok # ts"
      using Cons.prems(1) False v by (auto split: sum.splits)
    obtain xs where xs: "ts = map token_of xs" "map (field_value obj) fs = map Some xs"
      using Cons.IH [OF t(2)] Cons.prems(2) t(3) by auto
    obtain x where x: "scalar_of v = Some x" "tok = token_of x" using tokenize_value [OF t(1)] by blast
    have "field_value obj f = Some x" using x(1) v by (simp add: field_value_def)
    then show ?thesis using t(3) xs x(2) by (intro exI [of _ "x # xs"]) simp
  qed
qed simp

lemma field_tokens_none: "field_tokens obj fs = Ok [] \<longleftrightarrow> (\<forall>f \<in> set fs. missing f obj)"
  by (induction fs) (auto split: sum.split)

lemma field_tokens_full:
  "(\<exists>toks. field_tokens obj fs = Ok toks \<and> length toks = length fs)
   \<longleftrightarrow> (\<forall>f \<in> set fs. \<exists>v. walkPath f obj = Some v \<and> claimable v)"
proof (induction fs)
  case (Cons f fs)
  show ?case
  proof (cases "missing f obj")
    case True
    then have "\<not> (\<exists>v. walkPath f obj = Some v \<and> claimable v)" by (auto simp: missing_def)
    moreover have "length toks \<noteq> Suc (length fs)" if "field_tokens obj fs = Ok toks" for toks
      using field_tokens_length [OF that] by simp
    ultimately show ?thesis using True by auto
  next
    case False
    then obtain v where v: "walkPath f obj = Some v" by (auto simp: missing_def)
    have "(\<exists>toks. field_tokens obj (f # fs) = Ok toks \<and> length toks = length (f # fs))
        \<longleftrightarrow> is_ok (tokenize f v) \<and> (\<exists>toks. field_tokens obj fs = Ok toks \<and> length toks = length fs)"
      using False v by (cases "tokenize f v"; cases "field_tokens obj fs") auto
    then show ?thesis using Cons.IH v by (simp add: tokenize_ok)
  qed
qed simp

lemma computeOneClaim_signature:
  "computeOneClaim key obj = Ok (Some c) \<Longrightarrow>
   uc_KeyID c = uk_ID key
   \<and> (\<exists>xs. uc_Signature c = join_tokens (map token_of xs) \<and> map (field_value obj) (uk_Fields key) = map Some xs)"
  unfolding computeOneClaim_def
  by (auto split: sum.splits if_splits dest!: field_tokens_all)

subsection \<open>The bound on literals\<close>

lemma capped_stuck: "maxNumExp + 1 < v \<Longrightarrow> capped v cs = v"
  by (induction cs) auto

lemma dec_val_Cons: "dec_val (c # cs) = digit_val c * 10 ^ length cs + dec_val cs"
  using dec_val_append [of "[c]" cs] dec_val_snoc [of "[]" c] by simp

lemma capped_spec:
  "0 \<le> v \<Longrightarrow>
   capped v ds \<le> v * 10 ^ length ds + int (dec_val ds)
   \<and> (capped v ds = v * 10 ^ length ds + int (dec_val ds)
      \<or> maxNumExp + 1 < capped v ds \<and> 10 * (maxNumExp + 2) \<le> v * 10 ^ length ds + int (dec_val ds))"
proof (induction ds arbitrary: v)
  case (Cons c cs)
  show ?case
  proof (cases "v \<le> maxNumExp + 1")
    case True
    have "v * 10 ^ length (c # cs) + int (dec_val (c # cs))
        = (v * 10 + int (digit_val c)) * 10 ^ length cs + int (dec_val cs)"
      by (simp add: dec_val_Cons algebra_simps)
    then show ?thesis using Cons.IH [of "v * 10 + int (digit_val c)"] Cons.prems True by simp
  next
    case False
    then have "capped v (c # cs) = v" by (intro capped_stuck) simp
    moreover have "10 * v \<le> v * 10 ^ length (c # cs)"
      using mult_left_mono [of 1 "10 ^ length cs" v] Cons.prems by simp
    ultimately have "capped v (c # cs) = v" "10 * v \<le> v * 10 ^ length (c # cs) + int (dec_val (c # cs))"
      by linarith+
    moreover have "6146 \<le> v" using False by (simp add: maxNumExp_def)
    moreover have "v' \<le> x \<and> (v' = x \<or> 6144 + 1 < v' \<and> 10 * (6144 + 2) \<le> x)"
      if "v' = v" "10 * v \<le> x" "6146 \<le> v" for v' x using that by auto
    ultimately show ?thesis unfolding maxNumExp_def by blast
  qed
qed simp

text \<open>What the count reports, against the literal it read.\<close>

lemma countDigitsExp_spec:
  assumes "countDigitsExp s = Ok (digits, ex)"
  shows "digits = int (length (literal_int (cut_sign s) @ literal_frac (cut_sign s)))"
    "ex \<le> max (power_of_ten s) (- int (length (literal_frac (cut_sign s))))"
    "ex < - int (length (literal_frac (cut_sign s))) \<Longrightarrow> power_of_ten s \<le> ex"
    "ex = power_of_ten s \<or> maxNumExp + 1 < \<bar>ex + int (length (literal_frac (cut_sign s)))\<bar>
       \<and> 10 * (maxNumExp + 2) \<le> \<bar>explicit_exp (after_mantissa (cut_sign s))\<bar>"
proof -
  let ?m = "cut_sign s" and ?f = "int (length (literal_frac (cut_sign s)))"
  obtain e where c: "count_exp (after_mantissa ?m) = Ok (e, [])" "ex = e - ?f"
    "digits = int (length (literal_int ?m)) + ?f"
    using assms by (auto simp: countDigitsExp_def Let_def split: if_splits sum.splits prod.splits)
  show "digits = int (length (literal_int ?m @ literal_frac ?m))" using c(3) by simp
  have e: "(e \<le> 0 \<or> e \<le> explicit_exp (after_mantissa ?m)) \<and> (e < 0 \<longrightarrow> explicit_exp (after_mantissa ?m) \<le> e)
    \<and> (e = explicit_exp (after_mantissa ?m) \<or> maxNumExp + 1 < \<bar>e\<bar>
       \<and> 10 * (maxNumExp + 2) \<le> \<bar>explicit_exp (after_mantissa ?m)\<bar>)"
  proof (cases "after_mantissa ?m")
    case Nil
    then show ?thesis using c(1) by (simp add: count_exp_def explicit_exp_def)
  next
    case (Cons k t)
    define ds where "ds = takeWhile is_digit (cut_sign t)"
    have "e = (if signed_minus t then - capped 0 ds else capped 0 ds)"
      using c(1) Cons by (auto simp: count_exp_def Let_def ds_def split: if_splits)
    moreover have "explicit_exp (after_mantissa ?m) = (if signed_minus t then - int (dec_val ds) else int (dec_val ds))"
      using Cons by (simp add: explicit_exp_def Let_def ds_def)
    moreover have "0 \<le> capped 0 ds" using capped_spec [of 0 ds] by (auto simp: maxNumExp_def)
    ultimately show ?thesis using capped_spec [of 0 ds] by auto
  qed
  have p: "power_of_ten s = explicit_exp (after_mantissa ?m) - ?f" by (simp add: power_of_ten_def Let_def)
  show "ex \<le> max (power_of_ten s) (- ?f)" "ex < - ?f \<Longrightarrow> power_of_ten s \<le> ex"
    "ex = power_of_ten s \<or> maxNumExp + 1 < \<bar>ex + ?f\<bar>
       \<and> 10 * (maxNumExp + 2) \<le> \<bar>explicit_exp (after_mantissa ?m)\<bar>"
    using e c(2) p by auto
qed

lemma rat_SetString_defined:
  "rat_SetString s \<noteq> None
   \<longleftrightarrow> literal_int (cut_sign s) @ literal_frac (cut_sign s) \<noteq> []
     \<and> - (2 ^ 63) \<le> explicit_exp (after_mantissa (cut_sign s)) \<and> explicit_exp (after_mantissa (cut_sign s)) < 2 ^ 63
     \<and> (coefficient s = 0 \<or> \<bar>power_of_ten s\<bar> \<le> 1000000)"
  by (auto simp: rat_SetString_def Let_def)

text \<open>The exponent limit can be passed: the count keeps the first four digits of this exponent.\<close>

definition long_literal :: string where "long_literal = ''1.00e61460''"

lemma exponent_limit_passed: "is_ok (canonNum long_literal)" "power_of_ten long_literal = 61458"
proof -
  have c: "countDigitsExp long_literal = Ok (3, 6144)" by code_simp
  have parts: "cut_sign long_literal = long_literal" "literal_int long_literal = ''1''"
    "literal_frac long_literal = ''00''" "after_mantissa long_literal = ''e61460''" "\<not> signed_minus long_literal"
    by code_simp+
  have e: "explicit_exp ''e61460'' = 61460"
    by (simp add: explicit_exp_def cut_sign_def signed_minus_def is_digit_def dec_val_def digit_val_def)
  have k: "coefficient long_literal \<noteq> 0" and p: "power_of_ten long_literal = 61458"
    by (simp_all add: coefficient_def power_of_ten_def parts e dec_val_def digit_val_def)
  show "power_of_ten long_literal = 61458" by (rule p)
  show "is_ok (canonNum long_literal)"
    unfolding canonNum_ok literal_ok_def rat_SetString_defined parts e p c using k
    by (simp add: maxCoeffDigits_def maxNumExp_def)
qed

lemma computeOneClaim_none: "computeOneClaim key obj = Ok None \<longleftrightarrow> (\<forall>f \<in> set (uk_Fields key). missing f obj)"
  unfolding field_tokens_none [symmetric] by (auto simp: computeOneClaim_def split: sum.splits if_splits)

subsection \<open>Properties\<close>

text \<open>
  C10: signatures identify values. When a key is claimed in two documents, the two signatures are equal
  exactly when every field of the key holds the same string, the same boolean or the same number, where
  numbers compare as rationals whatever their spelling. No string value can imitate other tokens.
\<close>
theorem signature_injective:
  assumes "computeOneClaim key obj1 = Ok (Some c1)" "computeOneClaim key obj2 = Ok (Some c2)"
  shows "uc_Signature c1 = uc_Signature c2
    \<longleftrightarrow> (\<forall>f \<in> set (uk_Fields key). field_value obj1 f = field_value obj2 f)"
proof -
  obtain xs where x: "uc_Signature c1 = join_tokens (map token_of xs)"
    "map (field_value obj1) (uk_Fields key) = map Some xs" using computeOneClaim_signature [OF assms(1)] by blast
  obtain ys where y: "uc_Signature c2 = join_tokens (map token_of ys)"
    "map (field_value obj2) (uk_Fields key) = map Some ys" using computeOneClaim_signature [OF assms(2)] by blast
  have "length xs = length ys" using x(2) y(2) by (metis length_map)
  then have "uc_Signature c1 = uc_Signature c2 \<longleftrightarrow> map Some xs = map Some ys"
    using x(1) y(1) join_tokens_inj by auto
  then show ?thesis using x(2) y(2) by (metis map_eq_conv)
qed

definition sample_key :: UniqueKey where
  "sample_key = \<lparr>uk_ID = ''k'', uk_Fields = [''$.a'', ''$.b.c'']\<rparr>"

definition sample_doc :: "string \<Rightarrow> (string \<times> json) list" where
  "sample_doc n = [(''a'', JNumber n), (''b'', JObject [(''c'', JString ''x'')])]"

theorem signature_injective_witness:
  "\<exists>c1 c2. computeOneClaim sample_key (sample_doc ''42.0'') = Ok (Some c1)
     \<and> computeOneClaim sample_key (sample_doc ''4.2e1'') = Ok (Some c2) \<and> uc_Signature c1 = uc_Signature c2"
proof -
  have ok: "\<forall>n \<in> {''42.0'', ''4.2e1''}. is_ok (computeOneClaim sample_key (sample_doc n))
      \<and> \<not> (\<forall>f \<in> set (uk_Fields sample_key). missing f (sample_doc n))" by code_simp
  then have ok: "is_ok (computeOneClaim sample_key (sample_doc n)) \<and> computeOneClaim sample_key (sample_doc n) \<noteq> Ok None"
    if "n = ''42.0'' \<or> n = ''4.2e1''" for n using that computeOneClaim_none by blast
  obtain c1 c2 where c: "computeOneClaim sample_key (sample_doc ''42.0'') = Ok (Some c1)"
    "computeOneClaim sample_key (sample_doc ''4.2e1'') = Ok (Some c2)"
    using ok [of "''42.0''"] ok [of "''4.2e1''"] by (auto elim!: is_okE)
  have "\<forall>f \<in> set (uk_Fields sample_key).
      field_value (sample_doc ''42.0'') f = field_value (sample_doc ''4.2e1'') f" by code_simp
  then show ?thesis using c signature_injective [OF c] by blast
qed

text \<open>
  C31: a key is inapplicable exactly when all its fields are absent or null, and claimed exactly when it
  has fields and each holds a string, a boolean or a number within the limits; every other document is
  refused. A path that meets a value other than a map before its end finds nothing, so its field is absent, as
  the code has it (\<open>walkPath\<close> returns not found); the comment above \<open>walkPath\<close> says such a path is an error.
\<close>
theorem unique_claim_outcome:
  "(computeOneClaim key obj = Ok None \<longleftrightarrow> (\<forall>f \<in> set (uk_Fields key). missing f obj))
   \<and> ((\<exists>c. computeOneClaim key obj = Ok (Some c))
      \<longleftrightarrow> uk_Fields key \<noteq> [] \<and> (\<forall>f \<in> set (uk_Fields key). \<exists>v. walkPath f obj = Some v \<and> claimable v))"
proof -
  have "(\<exists>c. computeOneClaim key obj = Ok (Some c))
      \<longleftrightarrow> uk_Fields key \<noteq> []
        \<and> (\<exists>toks. field_tokens obj (uk_Fields key) = Ok toks \<and> length toks = length (uk_Fields key))"
    by (cases "field_tokens obj (uk_Fields key)") (auto simp: computeOneClaim_def)
  then show ?thesis by (simp add: computeOneClaim_none field_tokens_full)
qed

theorem unique_claim_outcome_witness:
  "computeOneClaim sample_key [(''a'', JNull)] = Ok None
   \<and> \<not> (\<exists>c. computeOneClaim sample_key [(''a'', JTrue)] = Ok (Some c))"
proof -
  have "\<forall>f \<in> set (uk_Fields sample_key). missing f [(''a'', JNull)]" by code_simp
  moreover have "walkPath ''$.b.c'' [(''a'', JTrue)] = None" "''$.b.c'' \<in> set (uk_Fields sample_key)" by code_simp+
  ultimately show ?thesis
    using unique_claim_outcome [of sample_key "[(''a'', JNull)]"] unique_claim_outcome [of sample_key "[(''a'', JTrue)]"]
    by force
qed

text \<open>
  C36: an accepted literal has at most 64 coefficient characters and a power of ten of at least -6144. It
  is at most 6144 as well when the written exponent is below 61460, and never above a million unless the
  number is zero. At 61460 the limit of 6144 fails: \<open>1.00e61460\<close> is accepted.
\<close>
theorem literal_bounded:
  assumes "canonNum s = Ok t"
  shows "length (literal_int (cut_sign s) @ literal_frac (cut_sign s)) \<le> 64 \<and> - 6144 \<le> power_of_ten s
    \<and> (explicit_exp (after_mantissa (cut_sign s)) < 61460 \<longrightarrow> power_of_ten s \<le> 6144)
    \<and> (coefficient s \<noteq> 0 \<longrightarrow> power_of_ten s \<le> 1000000)
    \<and> is_ok (canonNum ''1.00e61460'') \<and> power_of_ten ''1.00e61460'' = 61458"
proof -
  let ?f = "int (length (literal_frac (cut_sign s)))"
  obtain d ex where c: "countDigitsExp s = Ok (d, ex)" "d \<le> 64" "\<bar>ex\<bar> \<le> 6144" and r: "rat_SetString s \<noteq> None"
    using assms by (auto simp: canonNum_def maxCoeffDigits_def maxNumExp_def split: sum.splits prod.splits if_splits option.splits)
  note cs = countDigitsExp_spec [OF c(1)]
  have f: "0 \<le> ?f" "?f \<le> 64" using cs(1) c(2) by auto
  have e: "power_of_ten s = explicit_exp (after_mantissa (cut_sign s)) - ?f" by (simp add: power_of_ten_def Let_def)
  have "ex = power_of_ten s \<or> 61460 \<le> explicit_exp (after_mantissa (cut_sign s))"
    using cs(2,3,4) c(3) e f by (auto simp: maxNumExp_def abs_le_iff split: if_splits)
  moreover have "coefficient s \<noteq> 0 \<longrightarrow> power_of_ten s \<le> 1000000"
    using r by (auto simp: rat_SetString_def Let_def split: if_splits)
  ultimately show ?thesis using c cs(1) e f exponent_limit_passed unfolding long_literal_def by auto
qed

theorem literal_bounded_witness: "is_ok (canonNum ''4.2e1'') \<and> power_of_ten ''4.2e1'' \<le> 6144"
proof -
  have "is_ok (canonNum ''4.2e1'')" by code_simp
  then obtain t where t: "canonNum ''4.2e1'' = Ok t" by (rule is_okE)
  have "explicit_exp (after_mantissa (cut_sign ''4.2e1'')) < 61460" by code_simp
  then show ?thesis using t literal_bounded [OF t] by simp
qed

end
