(* ===== verification/Attribution.thy ===== *)
theory Attribution
  imports Entity_Meta Unique_Signature
begin

text \<open>
  What travels in a \<open>context.Context\<close> (\<open>context.go\<close>, \<open>txcontext.go\<close>, \<open>unique_context.go\<close>) and the two
  rules that read it: the origin of a causal chain and the attribution of a write. Results: each value is
  read back whatever else is attached; a write is attributed to someone other than its executor only on
  behalf of a user or along a seeded chain; the origin survives every hop of a chain.
\<close>

subsection \<open>The values\<close>

record Tenant =
  te_ID :: string
  te_Name :: string

record UserContext =
  us_ID :: string
  us_Name :: string
  us_Kind :: principal_kind
  us_Tenant :: Tenant
  us_Roles :: "string list"
  us_Executor :: "Principal option"

record WriteAttribution =
  wa_Attributed :: Principal
  wa_Executor :: Principal

text \<open>The lock of a transaction's state is not modelled.\<close>

record TransactionState =
  ts_ID :: string
  ts_TenantID :: string
  ts_SnapshotTime :: go_time
  ts_Origin :: Principal
  ts_ReadSet :: "string \<rightharpoonup> bool"
  ts_WriteSet :: "string \<rightharpoonup> bool"
  ts_Buffer :: "string \<rightharpoonup> string Entity option"
  ts_Deletes :: "string \<rightharpoonup> bool"
  ts_DeleteAttribution :: "string \<rightharpoonup> WriteAttribution"
  ts_RolledBack :: bool
  ts_Closed :: bool

text \<open>
  A context is the list of its values, the innermost first. Each package-private key holds one type; a
  pointer and a slice can be nil.
\<close>

datatype ctx_value =
    UserValue "UserContext option"
  | OriginValue Principal
  | TransactionValue "TransactionState option"
  | UniqueKeysValue "UniqueKey list option"

datatype ctx_key = UserKey | OriginKey | TransactionKey | UniqueKeysKey

type_synonym go_context = "(ctx_key \<times> ctx_value) list"

definition WithValue :: "ctx_key \<Rightarrow> ctx_value \<Rightarrow> go_context \<Rightarrow> go_context" where
  "WithValue k v ctx = (k, v) # ctx"

subsection \<open>Attaching and reading\<close>

definition WithUserContext :: "UserContext option \<Rightarrow> go_context \<Rightarrow> go_context" where
  "WithUserContext uc = WithValue UserKey (UserValue uc)"

definition GetUserContext :: "go_context \<Rightarrow> UserContext option" where
  "GetUserContext ctx = (case map_of ctx UserKey of Some (UserValue uc) \<Rightarrow> uc | _ \<Rightarrow> None)"

text \<open>The panic of \<open>MustGetUserContext\<close> is None.\<close>

definition MustGetUserContext :: "go_context \<Rightarrow> UserContext option" where
  "MustGetUserContext ctx = GetUserContext ctx"

definition WithTransaction :: "TransactionState option \<Rightarrow> go_context \<Rightarrow> go_context" where
  "WithTransaction tx = WithValue TransactionKey (TransactionValue tx)"

definition GetTransaction :: "go_context \<Rightarrow> TransactionState option" where
  "GetTransaction ctx = (case map_of ctx TransactionKey of Some (TransactionValue tx) \<Rightarrow> tx | _ \<Rightarrow> None)"

definition WithUniqueKeys :: "UniqueKey list option \<Rightarrow> go_context \<Rightarrow> go_context" where
  "WithUniqueKeys keys = WithValue UniqueKeysKey (UniqueKeysValue keys)"

definition UniqueKeysFromContext :: "go_context \<Rightarrow> UniqueKey list option" where
  "UniqueKeysFromContext ctx = (case map_of ctx UniqueKeysKey of Some (UniqueKeysValue keys) \<Rightarrow> keys | _ \<Rightarrow> None)"

definition WithAmbientOrigin :: "Principal \<Rightarrow> go_context \<Rightarrow> go_context" where
  "WithAmbientOrigin p ctx = (if p = zero_principal then ctx else WithValue OriginKey (OriginValue p) ctx)"

definition GetAmbientOrigin :: "go_context \<Rightarrow> Principal" where
  "GetAmbientOrigin ctx = (case map_of ctx OriginKey of Some (OriginValue p) \<Rightarrow> p | _ \<Rightarrow> zero_principal)"

definition HasRole :: "string list \<Rightarrow> string \<Rightarrow> bool" where
  "HasRole roles role \<longleftrightarrow> (\<exists>r \<in> set roles. r = role)"

subsection \<open>Origin and attribution\<close>

definition PrincipalService :: principal_kind where "PrincipalService = ''service''"
definition PrincipalSystem :: principal_kind where "PrincipalSystem = ''system''"

definition user_principal :: "UserContext \<Rightarrow> Principal" where
  "user_principal uc = \<lparr>p_ID = us_ID uc, p_Kind = us_Kind uc\<rparr>"

definition ResolveOrigin :: "go_context \<Rightarrow> Principal" where
  "ResolveOrigin ctx =
     (let rest = (if GetAmbientOrigin ctx \<noteq> zero_principal then GetAmbientOrigin ctx
                  else (case GetUserContext ctx of Some uc \<Rightarrow> user_principal uc | None \<Rightarrow> zero_principal))
      in case GetTransaction ctx of
           Some tx \<Rightarrow> if ts_Origin tx \<noteq> zero_principal then ts_Origin tx else rest
         | None \<Rightarrow> rest)"

definition AttributionFor :: "go_context \<Rightarrow> Principal \<times> Principal" where
  "AttributionFor ctx =
     (case GetUserContext ctx of
        Some uc \<Rightarrow>
          (case us_Executor uc of
             Some executor \<Rightarrow> (user_principal uc, executor)
           | None \<Rightarrow>
               (let executor = user_principal uc in
                if p_Kind executor = PrincipalService \<or> p_Kind executor = PrincipalSystem
                then (ResolveOrigin ctx, executor) else (executor, executor)))
      | None \<Rightarrow> (zero_principal, zero_principal))"

subsection \<open>A slot of the context\<close>

text \<open>What each pair of functions promises: a read sees the innermost value of its own key.\<close>

locale ctx_slot =
  fixes put :: "'v \<Rightarrow> go_context \<Rightarrow> go_context" and get :: "go_context \<Rightarrow> 'v"
    and key :: ctx_key and seeds :: "'v \<Rightarrow> bool"
  assumes get_put: "seeds v \<Longrightarrow> get (put v ctx) = v"
    and put_nothing: "\<not> seeds v \<Longrightarrow> put v ctx = ctx"
    and get_other: "k \<noteq> key \<Longrightarrow> get (WithValue k w ctx) = get ctx"
begin

lemma get_buried: "key \<notin> fst ` set kws \<Longrightarrow> get (kws @ ctx) = get ctx"
proof (induction kws)
  case (Cons kw kws)
  obtain k w where kw: "kw = (k, w)" by fastforce
  have "(kw # kws) @ ctx = WithValue k w (kws @ ctx)" by (simp add: kw WithValue_def)
  then show ?case using Cons get_other [of k w "kws @ ctx"] kw by auto
qed simp

lemma get_put_buried: "key \<notin> fst ` set kws \<Longrightarrow> get (kws @ put v ctx) = (if seeds v then v else get ctx)"
  by (simp add: get_buried get_put put_nothing)

end

interpretation user_slot: ctx_slot WithUserContext GetUserContext UserKey "\<lambda>_. True"
  by unfold_locales (simp_all add: WithUserContext_def GetUserContext_def WithValue_def)

interpretation tx_slot: ctx_slot WithTransaction GetTransaction TransactionKey "\<lambda>_. True"
  by unfold_locales (simp_all add: WithTransaction_def GetTransaction_def WithValue_def)

interpretation keys_slot: ctx_slot WithUniqueKeys UniqueKeysFromContext UniqueKeysKey "\<lambda>_. True"
  by unfold_locales (simp_all add: WithUniqueKeys_def UniqueKeysFromContext_def WithValue_def)

interpretation origin_slot: ctx_slot WithAmbientOrigin GetAmbientOrigin OriginKey "\<lambda>p. p \<noteq> zero_principal"
  by unfold_locales (simp_all add: WithAmbientOrigin_def GetAmbientOrigin_def WithValue_def)

subsection \<open>Chains\<close>

text \<open>
  One hop: a transaction begun under a context takes its origin from it; work that joins the transaction
  attaches further values, never another transaction.
\<close>

type_synonym hop = "(ctx_key \<times> ctx_value) list \<times> TransactionState"

definition join_tx :: "go_context \<Rightarrow> hop \<Rightarrow> go_context" where
  "join_tx ctx h = fst h @ WithTransaction (Some ((snd h)\<lparr>ts_Origin := ResolveOrigin ctx\<rparr>)) ctx"

lemma origin_hop:
  assumes "TransactionKey \<notin> fst ` set (fst h)" "ResolveOrigin ctx \<noteq> zero_principal"
  shows "ResolveOrigin (join_tx ctx h) = ResolveOrigin ctx"
  using assms tx_slot.get_put_buried [OF assms(1)]
  by (simp add: join_tx_def ResolveOrigin_def [of "fst h @ _"] Let_def)

lemma origin_hops:
  "\<forall>h \<in> set hs. TransactionKey \<notin> fst ` set (fst h) \<Longrightarrow> ResolveOrigin ctx \<noteq> zero_principal \<Longrightarrow>
   ResolveOrigin (foldl join_tx ctx hs) = ResolveOrigin ctx"
  by (induction hs arbitrary: ctx) (auto simp: origin_hop)

text \<open>The principals a context can attribute work to without being asked on behalf of a user.\<close>

definition carried :: "go_context \<Rightarrow> Principal set" where
  "carried ctx =
     {p. p \<noteq> zero_principal
       \<and> (p = GetAmbientOrigin ctx \<or> (\<exists>tx. GetTransaction ctx = Some tx \<and> p = ts_Origin tx))}"

definition acts_for_itself :: "go_context \<Rightarrow> bool" where
  "acts_for_itself ctx \<longleftrightarrow> (\<forall>uc. GetUserContext ctx = Some uc \<longrightarrow> us_Executor uc = None)"

definition by_machine :: "Principal \<Rightarrow> bool" where
  "by_machine p \<longleftrightarrow> p_Kind p = PrincipalService \<or> p_Kind p = PrincipalSystem"

lemma ResolveOrigin_carried:
  "ResolveOrigin ctx \<in> carried ctx \<or> carried ctx = {} \<and> ResolveOrigin ctx =
     (case GetUserContext ctx of Some uc \<Rightarrow> user_principal uc | None \<Rightarrow> zero_principal)"
  by (auto simp: ResolveOrigin_def carried_def Let_def split: option.splits)

lemma attribution_itself:
  "acts_for_itself ctx \<Longrightarrow> AttributionFor ctx =
     (let e = (case GetUserContext ctx of Some uc \<Rightarrow> user_principal uc | None \<Rightarrow> zero_principal)
      in (if by_machine e then ResolveOrigin ctx else e, e))"
  by (auto simp: AttributionFor_def acts_for_itself_def by_machine_def Let_def zero_principal_def
      PrincipalService_def PrincipalSystem_def split: option.splits)

subsection \<open>Properties\<close>

text \<open>
  C34: work is attributed to someone other than its executor only on behalf of the user, or when the
  executor is a service or the system and the attributed principal is the origin of the transaction in
  the context or the seeded ambient origin. With neither, a machine's work is its own.
\<close>
theorem attribution_safe:
  assumes "acts_for_itself ctx" "AttributionFor ctx = (attributed, executor)"
  shows "attributed = executor \<or> by_machine executor \<and> attributed \<in> carried ctx"
  using assms attribution_itself [OF assms(1)] ResolveOrigin_carried [of ctx]
  by (auto simp: Let_def split: if_splits option.splits)

definition sample_user :: "principal_kind \<Rightarrow> UserContext" where
  "sample_user k = \<lparr>us_ID = ''m2m'', us_Name = ''m2m'', us_Kind = k, us_Tenant = \<lparr>te_ID = ''t'', te_Name = ''t''\<rparr>,
     us_Roles = [], us_Executor = None\<rparr>"

definition alice :: Principal where "alice = \<lparr>p_ID = ''alice'', p_Kind = ''user''\<rparr>"

definition sample_chain :: go_context where
  "sample_chain = WithUserContext (Some (sample_user PrincipalService)) (WithAmbientOrigin alice [])"

theorem attribution_safe_witness:
  "AttributionFor sample_chain = (alice, user_principal (sample_user PrincipalService))
   \<and> by_machine (user_principal (sample_user PrincipalService)) \<and> alice \<in> carried sample_chain"
proof -
  have a: "AttributionFor sample_chain = (alice, user_principal (sample_user PrincipalService))"
    "acts_for_itself sample_chain" "alice \<noteq> user_principal (sample_user PrincipalService)"
    by (simp_all add: sample_chain_def AttributionFor_def ResolveOrigin_def acts_for_itself_def GetUserContext_def
        GetTransaction_def GetAmbientOrigin_def WithUserContext_def WithAmbientOrigin_def WithValue_def sample_user_def
        user_principal_def alice_def zero_principal_def PrincipalService_def Let_def)
  then show ?thesis using attribution_safe [OF a(2,1)] by simp
qed

text \<open>
  C24: the origin of a chain reaches its end. Through any number of transactions, each begun under the
  context of the one before and joined by work that attaches users, ambient origins and keys as it likes,
  a machine's work is attributed to the origin the chain started from.
\<close>
theorem origin_reaches:
  assumes "\<And>h. h \<in> set hs \<Longrightarrow> TransactionKey \<notin> fst ` set (fst h)" "ResolveOrigin ctx \<noteq> zero_principal"
    "acts_for_itself (foldl join_tx ctx hs)" "by_machine (snd (AttributionFor (foldl join_tx ctx hs)))"
  shows "fst (AttributionFor (foldl join_tx ctx hs)) = ResolveOrigin ctx"
  using attribution_itself [OF assms(3)] assms(4) origin_hops [OF _ assms(2), of hs] assms(1)
  by (auto simp: Let_def split: if_splits)

definition sample_tx :: TransactionState where
  "sample_tx = \<lparr>ts_ID = ''x'', ts_TenantID = ''t'', ts_SnapshotTime = zero_time, ts_Origin = zero_principal,
     ts_ReadSet = Map.empty, ts_WriteSet = Map.empty, ts_Buffer = Map.empty, ts_Deletes = Map.empty,
     ts_DeleteAttribution = Map.empty, ts_RolledBack = False, ts_Closed = False\<rparr>"

definition sample_hop :: hop where
  "sample_hop = ([(UserKey, UserValue (Some (sample_user PrincipalSystem)))], sample_tx)"

theorem origin_reaches_witness:
  "fst (AttributionFor (foldl join_tx (WithAmbientOrigin alice []) [sample_hop, sample_hop])) = alice"
proof -
  have o: "ResolveOrigin (WithAmbientOrigin alice []) = alice" "alice \<noteq> zero_principal"
    by (simp_all add: ResolveOrigin_def GetTransaction_def GetAmbientOrigin_def WithAmbientOrigin_def WithValue_def
        alice_def zero_principal_def)
  have u: "GetUserContext (foldl join_tx (WithAmbientOrigin alice []) [sample_hop, sample_hop])
      = Some (sample_user PrincipalSystem)"
    by (simp add: join_tx_def sample_hop_def GetUserContext_def)
  then have a: "acts_for_itself (foldl join_tx (WithAmbientOrigin alice []) [sample_hop, sample_hop])"
    by (simp add: acts_for_itself_def sample_user_def)
  have "by_machine (snd (AttributionFor (foldl join_tx (WithAmbientOrigin alice []) [sample_hop, sample_hop])))"
    using attribution_itself [OF a] u by (simp add: Let_def by_machine_def user_principal_def sample_user_def)
  then show ?thesis
    using origin_reaches [of "[sample_hop, sample_hop]" "WithAmbientOrigin alice []"] o a
    by (auto simp: sample_hop_def)
qed

end
