(* ===== verification/Predicate_Codec.thy ===== *)
theory Predicate_Codec
  imports Conditions Unique_Signature "HOL-Library.Countable"
begin

text \<open>
  Reading and writing conditions as JSON (\<open>predicate/parse.go\<close>, \<open>predicate/marshal.go\<close>) under the strict
  member rule of \<open>strictjson\<close>. A body enters as the tree it spells, duplicates kept, with the bytes that spell each
  condition in it; the library's texts are parameters. Results: what is written for a parsed condition parses
  to the same condition, the kept bytes of function conditions compacted; parsed conditions stay within the
  parser's depth and hold only JSON values.
\<close>

subsection \<open>Trees\<close>

text \<open>The decoder refuses a repeated member name at any depth.\<close>

fun dups_free :: "json \<Rightarrow> bool" where
  "dups_free (JArray js) \<longleftrightarrow> (\<forall>j \<in> set js. dups_free j)"
| "dups_free (JObject ms) \<longleftrightarrow> distinct (map fst ms) \<and> (\<forall>m \<in> set ms. dups_free (snd m))"
| "dups_free _ \<longleftrightarrow> True"

text \<open>A Go map is written with its names in order.\<close>

fun canon :: "json \<Rightarrow> json" where
  "canon (JArray js) = JArray (map canon js)"
| "canon (JObject ms) = JObject (sort_key (\<lambda>m. map byte (fst m)) (map (\<lambda>(k, v). (k, canon v)) ms))"
| "canon j = j"

text \<open>A value decoded into an \<open>any\<close>, numbers as written. A map is carried as the text of its tree.\<close>

fun any_of :: "(json \<Rightarrow> string) \<Rightarrow> json \<Rightarrow> go_any" where
  "any_of txt JNull = GNil"
| "any_of txt JTrue = GBool True"
| "any_of txt JFalse = GBool False"
| "any_of txt (JNumber n) = GNumber n"
| "any_of txt (JString s) = GString s"
| "any_of txt (JArray js) = GSlice (map (any_of txt) js)"
| "any_of txt (JObject ms) = GMap (txt (canon (JObject ms)))"

subsection \<open>Strict decoding\<close>

text \<open>
  The refusals. A \<open>strictjson.Error\<close> keeps the location of the condition it arose in; the place and the
  reason inside that condition are left out.
\<close>

datatype parse_error =
    Strict string
  | TooDeep | NoTypeMember | UnknownConditionType string
  | OperatorTwice string string
  | InCondition nat parse_error | InPreCheck parse_error

text \<open>\<open>Under\<close> for a strict refusal, the wrapping text for any other.\<close>

fun place :: "string \<Rightarrow> (parse_error \<Rightarrow> parse_error) \<Rightarrow> parse_error \<Rightarrow> parse_error" where
  "place loc wrap (Strict p) = Strict (loc @ p)"
| "place loc wrap e = wrap e"

text \<open>The members of a struct; null leaves every field at its zero value.\<close>

definition members :: "bool \<Rightarrow> string list \<Rightarrow> json \<Rightarrow> (string \<rightharpoonup> json) option" where
  "members strict names j =
     (case j of
        JNull \<Rightarrow> Some Map.empty
      | JObject ms \<Rightarrow> if strict \<and> \<not> (\<forall>m \<in> set ms. fst m \<in> set names) then None else Some (map_of ms)
      | _ \<Rightarrow> None)"

definition string_ptr :: "(string \<rightharpoonup> json) \<Rightarrow> string \<Rightarrow> string option option" where
  "string_ptr m k =
     (case m k of None \<Rightarrow> Some None | Some JNull \<Rightarrow> Some None | Some (JString s) \<Rightarrow> Some (Some s) | _ \<Rightarrow> None)"

definition string_field :: "(string \<rightharpoonup> json) \<Rightarrow> string \<Rightarrow> string option" where
  "string_field m k = map_option (\<lambda>p. case p of None \<Rightarrow> [] | Some s \<Rightarrow> s) (string_ptr m k)"

definition slice_field :: "(string \<rightharpoonup> json) \<Rightarrow> string \<Rightarrow> json list option" where
  "slice_field m k =
     (case m k of None \<Rightarrow> Some [] | Some JNull \<Rightarrow> Some [] | Some (JArray js) \<Rightarrow> Some js | _ \<Rightarrow> None)"

definition any_field :: "(json \<Rightarrow> string) \<Rightarrow> (string \<rightharpoonup> json) \<Rightarrow> string \<Rightarrow> go_any" where
  "any_field txt m k = (case m k of None \<Rightarrow> GNil | Some j \<Rightarrow> any_of txt j)"

subsection \<open>Operators\<close>

definition operator_members :: "string list" where
  "operator_members = [''operatorType'', ''operator'', ''operation'']"

definition operatorFields :: "(string \<rightharpoonup> json) \<Rightarrow> (string \<times> string option) list option" where
  "operatorFields m = those (map (\<lambda>k. map_option (Pair k) (string_ptr m k)) operator_members)"

definition operator_name :: "(string \<times> string option) list \<Rightarrow> parse_error + string" where
  "operator_name fs =
     (case filter (\<lambda>f. snd f \<noteq> None) fs of
        [] \<Rightarrow> Ok []
      | [f] \<Rightarrow> Ok (the (snd f))
      | f # g # _ \<Rightarrow> Err (OperatorTwice (fst f) (fst g)))"

subsection \<open>Parsing\<close>

text \<open>The three leaves share the operator; they differ in one name and in how they hold the operand.\<close>

definition parse_leaf ::
  "string list \<Rightarrow> ((string \<rightharpoonup> json) \<Rightarrow> string \<Rightarrow> cond option) \<Rightarrow> json \<Rightarrow> parse_error + cond" where
  "parse_leaf names build j =
     (case members True (''type'' # operator_members @ names) j of
        None \<Rightarrow> Err (Strict [])
      | Some m \<Rightarrow>
          (case operatorFields m of
             None \<Rightarrow> Err (Strict [])
           | Some fs \<Rightarrow>
               (case build m (case operator_name fs of Inl _ \<Rightarrow> [] | Inr opn \<Rightarrow> opn) of
                  None \<Rightarrow> Err (Strict [])
                | Some c \<Rightarrow> (case operator_name fs of Inl e \<Rightarrow> Err e | Inr _ \<Rightarrow> Ok c))))"

definition parseSimple :: "(json \<Rightarrow> string) \<Rightarrow> json \<Rightarrow> parse_error + cond" where
  "parseSimple txt = parse_leaf [''jsonPath'', ''value'']
     (\<lambda>m opn. map_option (\<lambda>jp. SimpleCondition jp opn (any_field txt m ''value'')) (string_field m ''jsonPath''))"

definition parseLifecycle :: "(json \<Rightarrow> string) \<Rightarrow> json \<Rightarrow> parse_error + cond" where
  "parseLifecycle txt = parse_leaf [''field'', ''value'']
     (\<lambda>m opn. map_option (\<lambda>f. LifecycleCondition f opn (any_field txt m ''value'')) (string_field m ''field''))"

definition parseArray :: "(json \<Rightarrow> string) \<Rightarrow> json \<Rightarrow> parse_error + cond" where
  "parseArray txt = parse_leaf [''jsonPath'', ''values'']
     (\<lambda>m opn. case (string_field m ''jsonPath'', slice_field m ''values'') of
        (Some jp, Some js) \<Rightarrow> Some (ArrayCondition jp opn (map (any_of txt) js)) | _ \<Rightarrow> None)"

definition maxParseDepth :: nat where "maxParseDepth = 50"

definition condition_location :: "nat \<Rightarrow> string" where
  "condition_location i = ''/conditions/'' @ dec_str i"

text \<open>The criterion of a function, when it has one that is not null.\<close>

definition criterion_of :: "json \<Rightarrow> parse_error + json option" where
  "criterion_of j =
     (case members True [''type'', ''function''] j of
        None \<Rightarrow> Err (Strict [])
      | Some m \<Rightarrow>
          (case m ''function'' of
             None \<Rightarrow> Ok None
           | Some JNull \<Rightarrow> Ok None
           | Some fn \<Rightarrow>
               (case members True [''name'', ''config'', ''criterion''] fn of
                  None \<Rightarrow> Err (Strict [])
                | Some f \<Rightarrow>
                    if string_field f ''name'' = None then Err (Strict [])
                    else Ok (case f ''criterion'' of Some JNull \<Rightarrow> None | c \<Rightarrow> c))))"

definition group_of :: "json \<Rightarrow> (string \<times> json list) option" where
  "group_of j =
     (case members True [''type'', ''operator'', ''conditions''] j of
        None \<Rightarrow> None
      | Some m \<Rightarrow>
          (case (string_field m ''operator'', slice_field m ''conditions'') of
             (Some opn, Some js) \<Rightarrow> Some (opn, js) | _ \<Rightarrow> None))"

definition type_of :: "json \<Rightarrow> parse_error + string" where
  "type_of j =
     (if \<not> dups_free j then Err (Strict [])
      else (case members False [] j of
              None \<Rightarrow> Err (Strict [])
            | Some m \<Rightarrow>
                (case string_ptr m ''type'' of
                   None \<Rightarrow> Err (Strict []) | Some None \<Rightarrow> Err NoTypeMember | Some (Some ty) \<Rightarrow> Ok ty)))"

text \<open>
  The bytes of a body: of the condition itself at the empty position, of the \<open>i\<close>th condition of a group below
  \<open>i\<close>, of a function's criterion below 0. This is what the decoder hands out as \<open>json.RawMessage\<close>.
\<close>

type_synonym spelling = "nat list \<Rightarrow> string"

definition below :: "nat \<Rightarrow> spelling \<Rightarrow> spelling" where
  "below i sp = (\<lambda>p. sp (i # p))"

function parseConditionWithDepth :: "(json \<Rightarrow> string) \<Rightarrow> spelling \<Rightarrow> json \<Rightarrow> nat \<Rightarrow> parse_error + cond" where
  "parseConditionWithDepth txt sp j depth =
     (if depth > maxParseDepth then Err TooDeep
      else
        (case type_of j of
           Inl e \<Rightarrow> Err e
         | Inr ty \<Rightarrow>
             if ty = ''simple'' then parseSimple txt j
             else if ty = ''lifecycle'' then parseLifecycle txt j
             else if ty = ''group'' then
               (case group_of j of
                  None \<Rightarrow> Err (Strict [])
                | Some (opn, js) \<Rightarrow>
                    (case map_res (\<lambda>(i, c).
                            case parseConditionWithDepth txt (below i sp) c (depth + 1) of
                              Inl e \<Rightarrow> Err (place (condition_location i) (InCondition i) e)
                            | Inr d \<Rightarrow> Ok d) (enumerate 0 js) of
                       Inl e \<Rightarrow> Err e
                     | Inr cs \<Rightarrow> Ok (GroupCondition opn cs)))
             else if ty = ''array'' then parseArray txt j
             else if ty = ''function'' then
               (case criterion_of j of
                  Inl e \<Rightarrow> Err e
                | Inr None \<Rightarrow> Ok (FunctionCondition (sp []) NilCondition)
                | Inr (Some pc) \<Rightarrow>
                    (case parseConditionWithDepth txt (below 0 sp) pc (depth + 1) of
                       Inl e \<Rightarrow> Err (place ''/function/criterion'' InPreCheck e)
                     | Inr pre \<Rightarrow> Ok (FunctionCondition (sp []) pre)))
             else Err (UnknownConditionType ty)))"
  by pat_completeness auto
termination by (relation "measure (\<lambda>(txt, sp, j, depth). Suc maxParseDepth - depth)") auto

declare parseConditionWithDepth.simps [simp del]

definition ParseCondition :: "(json \<Rightarrow> string) \<Rightarrow> spelling \<Rightarrow> json \<Rightarrow> parse_error + cond" where
  "ParseCondition txt sp j = parseConditionWithDepth txt sp j 0"

subsection \<open>Writing\<close>

text \<open>
  \<open>json.Marshal\<close> of a condition, as the tree its output spells. The library compacts what a \<open>MarshalJSON\<close>
  returns, so the kept bytes of a function condition come out as \<open>squeeze\<close> of them (insignificant space
  dropped, some characters escaped); \<open>tree\<close> reads text. Operands the parser never makes have no tree here.
\<close>

fun value_tree :: "(string \<Rightarrow> json option) \<Rightarrow> go_any \<Rightarrow> json option" where
  "value_tree tree GNil = Some JNull"
| "value_tree tree (GBool b) = Some (if b then JTrue else JFalse)"
| "value_tree tree (GNumber n) = Some (JNumber n)"
| "value_tree tree (GString s) = Some (JString s)"
| "value_tree tree (GSlice vs) = map_option JArray (those (map (value_tree tree) vs))"
| "value_tree tree (GMap s) = tree s"
| "value_tree tree _ = None"

fun MarshalCondition :: "(string \<Rightarrow> json option) \<Rightarrow> (string \<Rightarrow> string) \<Rightarrow> cond \<Rightarrow> json option" where
  "MarshalCondition tree squeeze NilCondition = Some JNull"
| "MarshalCondition tree squeeze (SimpleCondition jp opn v) =
     map_option (\<lambda>j. JObject [(''type'', JString ''simple''), (''jsonPath'', JString jp),
       (''operatorType'', JString opn), (''value'', j)]) (value_tree tree v)"
| "MarshalCondition tree squeeze (LifecycleCondition f opn v) =
     map_option (\<lambda>j. JObject [(''type'', JString ''lifecycle''), (''field'', JString f),
       (''operatorType'', JString opn), (''value'', j)]) (value_tree tree v)"
| "MarshalCondition tree squeeze (GroupCondition opn cs) =
     map_option (\<lambda>js. JObject [(''type'', JString ''group''), (''operator'', JString opn),
       (''conditions'', JArray js)]) (those (map (MarshalCondition tree squeeze) cs))"
| "MarshalCondition tree squeeze (ArrayCondition jp opn vs) =
     map_option (\<lambda>js. JObject [(''type'', JString ''array''), (''jsonPath'', JString jp),
       (''operatorType'', JString opn), (''values'', JArray js)]) (those (map (value_tree tree) vs))"
| "MarshalCondition tree squeeze (FunctionCondition raw pre) =
     (if raw \<noteq> [] then tree (squeeze raw) else Some (JObject [(''type'', JString ''function'')]))"
| "MarshalCondition tree squeeze (ForeignCondition ty) = None"

text \<open>The bytes that output has at each function condition.\<close>

fun written :: "(string \<Rightarrow> string) \<Rightarrow> cond \<Rightarrow> spelling \<Rightarrow> bool"
  and written_from :: "(string \<Rightarrow> string) \<Rightarrow> nat \<Rightarrow> cond list \<Rightarrow> spelling \<Rightarrow> bool" where
  "written squeeze (GroupCondition opn cs) sp \<longleftrightarrow> written_from squeeze 0 cs sp"
| "written squeeze (FunctionCondition raw pre) sp \<longleftrightarrow> sp [] = squeeze raw \<and> written squeeze pre (below 0 sp)"
| "written squeeze _ sp \<longleftrightarrow> True"
| "written_from squeeze n [] sp \<longleftrightarrow> True"
| "written_from squeeze n (c # cs) sp \<longleftrightarrow> written squeeze c (below n sp) \<and> written_from squeeze (Suc n) cs sp"

fun compacted :: "(string \<Rightarrow> string) \<Rightarrow> cond \<Rightarrow> cond" where
  "compacted squeeze (GroupCondition opn cs) = GroupCondition opn (map (compacted squeeze) cs)"
| "compacted squeeze (FunctionCondition raw pre) = FunctionCondition (squeeze raw) (compacted squeeze pre)"
| "compacted squeeze c = c"

subsection \<open>What the library can spell\<close>

definition exponent_literal :: "string \<Rightarrow> bool" where
  "exponent_literal s =
     (case s of
        [] \<Rightarrow> True
      | c # t \<Rightarrow> is_exp_mark c \<and> cut_sign t \<noteq> [] \<and> (\<forall>d \<in> set (cut_sign t). is_digit d))"

definition number_literal :: "string \<Rightarrow> bool" where
  "number_literal s =
     (let m = (if s \<noteq> [] \<and> hd s = CHR ''-'' then tl s else s);
          i = takeWhile is_digit m; r = dropWhile is_digit m
      in i \<noteq> [] \<and> (length i = 1 \<or> hd i \<noteq> CHR ''0'')
         \<and> (if r \<noteq> [] \<and> hd r = CHR ''.''
            then takeWhile is_digit (tl r) \<noteq> [] \<and> exponent_literal (dropWhile is_digit (tl r))
            else exponent_literal r))"

fun proper :: "json \<Rightarrow> bool" where
  "proper (JNumber n) \<longleftrightarrow> number_literal n"
| "proper (JString s) \<longleftrightarrow> valid_utf8 s"
| "proper (JArray js) \<longleftrightarrow> (\<forall>j \<in> set js. proper j)"
| "proper (JObject ms) \<longleftrightarrow> distinct (map fst ms) \<and> (\<forall>m \<in> set ms. valid_utf8 (fst m) \<and> proper (snd m))"
| "proper _ \<longleftrightarrow> True"

text \<open>Reading a text gives back the tree it was written for; compacting a text keeps what it spells.\<close>

definition codec_ok :: "(json \<Rightarrow> string) \<Rightarrow> (string \<Rightarrow> json option) \<Rightarrow> (string \<Rightarrow> string) \<Rightarrow> bool" where
  "codec_ok txt tree squeeze \<longleftrightarrow>
     (\<forall>j. proper j \<longrightarrow> tree (txt j) = Some j) \<and> tree [] = None \<and> (\<forall>s. tree s \<noteq> None \<longrightarrow> tree (squeeze s) = tree s)"

text \<open>A spelling of a tree has, for each condition in it, bytes that spell that condition.\<close>

definition child_of :: "json \<Rightarrow> nat \<Rightarrow> json option" where
  "child_of j i =
     (case type_of j of
        Inl e \<Rightarrow> None
      | Inr ty \<Rightarrow>
          if ty = ''group'' then
            (case group_of j of None \<Rightarrow> None | Some (opn, js) \<Rightarrow> if i < length js then Some (js ! i) else None)
          else if ty = ''function'' \<and> i = 0 then (case criterion_of j of Inl e \<Rightarrow> None | Inr pc \<Rightarrow> pc)
          else None)"

fun condition_at :: "json \<Rightarrow> nat list \<Rightarrow> json option" where
  "condition_at j [] = Some j"
| "condition_at j (i # p) = (case child_of j i of None \<Rightarrow> None | Some j' \<Rightarrow> condition_at j' p)"

definition spells :: "(string \<Rightarrow> json option) \<Rightarrow> spelling \<Rightarrow> json \<Rightarrow> bool" where
  "spells tree sp j \<longleftrightarrow> (\<forall>p j'. condition_at j p = Some j' \<longrightarrow> tree (sp p) = Some j')"

lemma spells_here: "spells tree sp j \<Longrightarrow> tree (sp []) = Some j"
  by (simp add: spells_def)

lemma spells_below:
  assumes "spells tree sp j" "child_of j i = Some j'"
  shows "spells tree (below i sp) j'"
  unfolding spells_def below_def
proof (intro allI impI)
  fix p j'' assume "condition_at j' p = Some j''"
  then have "condition_at j (i # p) = Some j''" using assms(2) by simp
  then show "tree (sp (i # p)) = Some j''" using assms(1) unfolding spells_def by blast
qed

lemma proper_dups: "proper j \<Longrightarrow> dups_free j"
  by (induction j) auto

lemma canon_object: "canon (JObject ms) = JObject (sort_key (\<lambda>m. map byte (fst m)) (map (\<lambda>m. (fst m, canon (snd m))) ms))"
  by (simp add: case_prod_beta')

declare canon.simps(2) [simp del]

lemma proper_canon: "proper j \<Longrightarrow> proper (canon j)"
proof (induction j)
  case (JObject ms)
  have "distinct (map fst (sort_key (\<lambda>m. map byte (fst m)) (map (\<lambda>m. (fst m, canon (snd m))) ms)))"
    using JObject.prems by (simp add: distinct_map inj_on_def image_image o_def) (auto simp: inj_on_def)
  then show ?case using JObject by (fastforce simp: canon_object)
qed auto

lemma canon_idem: "canon (canon j) = canon j"
proof (induction j)
  case (JObject ms)
  let ?f = "\<lambda>m. map byte (fst m)" and ?L = "map (\<lambda>m. (fst m, canon (snd m))) ms"
  have "map (\<lambda>m. (fst m, canon (snd m))) (sort_key ?f ?L) = sort_key ?f ?L"
    using JObject by (intro map_idI) auto
  then show ?case by (simp add: canon_object del: sort_key_const) (simp add: sort_key_id_if_sorted)
qed simp_all

lemma any_of_canon: "any_of txt (canon j) = any_of txt j"
proof (induction j)
  case (JObject ms)
  have "any_of txt (canon (JObject ms)) = GMap (txt (canon (canon (JObject ms))))" by (simp add: canon_object)
  then show ?case by (simp add: canon_idem)
qed simp_all

lemma those_map: "(\<And>x. x \<in> set xs \<Longrightarrow> f x = Some (g x)) \<Longrightarrow> those (map f xs) = Some (map g xs)"
  by (induction xs) auto

lemma value_tree_any: "codec_ok txt tree squeeze \<Longrightarrow> proper j \<Longrightarrow> value_tree tree (any_of txt j) = Some (canon j)"
proof (induction j)
  case (JArray js)
  have "those (map (\<lambda>j. value_tree tree (any_of txt j)) js) = Some (map canon js)"
    by (rule those_map) (use JArray in auto)
  then show ?case by (simp add: o_def)
next
  case (JObject ms)
  then show ?case using proper_canon [of "JObject ms"] by (auto simp: codec_ok_def)
qed auto

subsection \<open>Fields of a proper tree\<close>

lemma members_proper: "members strict names j = Some m \<Longrightarrow> proper j \<Longrightarrow> m k = Some v \<Longrightarrow> proper v"
  by (auto simp: members_def split: json.splits if_splits dest!: map_of_SomeD)

lemma string_ptr_utf8:
  "string_ptr m k = Some (Some s) \<Longrightarrow> (\<And>v. m k = Some v \<Longrightarrow> proper v) \<Longrightarrow> valid_utf8 s"
  by (fastforce simp: string_ptr_def split: option.splits json.splits)

lemma string_field_utf8:
  "string_field m k = Some s \<Longrightarrow> (\<And>v. m k = Some v \<Longrightarrow> proper v) \<Longrightarrow> valid_utf8 s"
  by (auto simp: string_field_def split: option.splits dest: string_ptr_utf8)

lemma slice_field_proper:
  "slice_field m k = Some js \<Longrightarrow> (\<And>v. m k = Some v \<Longrightarrow> proper v) \<Longrightarrow> \<forall>j \<in> set js. proper j"
  by (fastforce simp: slice_field_def split: option.splits json.splits)

lemma operator_name_utf8:
  assumes "operatorFields m = Some fs" "operator_name fs = Ok opn" "\<And>k v. m k = Some v \<Longrightarrow> proper v"
  shows "valid_utf8 opn"
proof -
  have "opn = [] \<or> (\<exists>k. (k, Some opn) \<in> set fs)"
  proof (cases "filter (\<lambda>f. snd f \<noteq> None) fs")
    case Nil
    then show ?thesis using assms(2) by (simp add: operator_name_def)
  next
    case (Cons f gs)
    then have "f \<in> set (filter (\<lambda>f. snd f \<noteq> None) fs)" by simp
    then have "f \<in> set fs \<and> snd f \<noteq> None" by simp
    moreover have "opn = the (snd f)" using assms(2) Cons by (auto simp: operator_name_def split: list.splits)
    ultimately show ?thesis by (metis option.collapse prod.collapse)
  qed
  moreover have "\<forall>(k, p) \<in> set fs. string_ptr m k = Some p"
    using assms(1) by (auto simp: operatorFields_def operator_members_def split: option.splits)
  ultimately show ?thesis using string_ptr_utf8 [of m _ opn] assms(3) by auto
qed

lemma parse_leaf_Ok:
  assumes "parse_leaf names build j = Ok c" "proper j"
  obtains m opn where "build m opn = Some c" "valid_utf8 opn" "\<And>k v. m k = Some v \<Longrightarrow> proper v"
proof -
  obtain m fs opn where m: "members True (''type'' # operator_members @ names) j = Some m"
    "operatorFields m = Some fs" "operator_name fs = Ok opn" "build m opn = Some c"
    using assms(1) by (auto simp: parse_leaf_def split: option.splits sum.splits)
  have p: "m k = Some v \<Longrightarrow> proper v" for k v by (rule members_proper [OF m(1) assms(2)])
  show thesis by (rule that [OF m(4) operator_name_utf8 [OF m(2,3) p] p])
qed


subsection \<open>Writing and reading again\<close>

lemma leaf_names_utf8: "valid_utf8 ''type''" "valid_utf8 ''jsonPath''" "valid_utf8 ''operatorType''" "valid_utf8 ''value''"
  "valid_utf8 ''values''" "valid_utf8 ''field''" "valid_utf8 ''operator''" "valid_utf8 ''conditions''"
  "valid_utf8 ''simple''" "valid_utf8 ''lifecycle''" "valid_utf8 ''array''" "valid_utf8 ''group''"
  by code_simp+

lemmas leaf_decoding = parse_leaf_def members_def operator_members_def operatorFields_def string_ptr_def
  string_field_def slice_field_def any_field_def operator_name_def

lemma leaf_written:
  "parseSimple txt (JObject [(''type'', JString ''simple''), (''jsonPath'', JString jp), (''operatorType'', JString opn),
     (''value'', v)]) = Ok (SimpleCondition jp opn (any_of txt v))"
  "parseLifecycle txt (JObject [(''type'', JString ''lifecycle''), (''field'', JString jp), (''operatorType'', JString opn),
     (''value'', v)]) = Ok (LifecycleCondition jp opn (any_of txt v))"
  "parseArray txt (JObject [(''type'', JString ''array''), (''jsonPath'', JString jp), (''operatorType'', JString opn),
     (''values'', JArray vs)]) = Ok (ArrayCondition jp opn (map (any_of txt) vs))"
  by (simp_all add: parseSimple_def parseLifecycle_def parseArray_def leaf_decoding)

lemma type_written: "proper (JObject ((''type'', JString ty) # ms)) \<Longrightarrow> type_of (JObject ((''type'', JString ty) # ms)) = Ok ty"
  using proper_dups [of "JObject ((''type'', JString ty) # ms)"] by (simp add: type_of_def members_def string_ptr_def)

lemma group_written:
  "group_of (JObject [(''type'', JString ''group''), (''operator'', JString opn), (''conditions'', JArray js)]) = Some (opn, js)"
  by (simp add: group_of_def members_def string_field_def string_ptr_def slice_field_def)

lemma map_res_children:
  "map_res (\<lambda>(i, c). case F i c of Inl e \<Rightarrow> Err (W i e) | Inr d \<Rightarrow> Ok d) (enumerate n js) = Ok cs
   \<longleftrightarrow> list_all2 (\<lambda>(i, j) c. F i j = Ok c) (enumerate n js) cs"
proof (induction js arbitrary: n cs)
  case (Cons j js)
  show ?case
  proof (cases "F n j")
    case (Inr d)
    then have "map_res (\<lambda>(i, c). case F i c of Inl e \<Rightarrow> Err (W i e) | Inr d \<Rightarrow> Ok d) (enumerate n (j # js)) = Ok cs
        \<longleftrightarrow> (\<exists>cs'. cs = d # cs' \<and> map_res (\<lambda>(i, c). case F i c of Inl e \<Rightarrow> Err (W i e) | Inr d \<Rightarrow> Ok d) (enumerate (Suc n) js) = Ok cs')"
      by (auto split: sum.splits)
    then show ?thesis using Inr by (auto simp: Cons.IH list_all2_Cons1)
  qed (auto simp: list_all2_Cons1)
qed auto

text \<open>The conditions of a group, written and read one by one.\<close>

lemma children_again:
  assumes "list_all2 (\<lambda>(i, j) c. F i j = Ok c) (enumerate n js) cs"
    "\<And>i j c. (i, j) \<in> set (enumerate n js) \<Longrightarrow> F i j = Ok c
       \<Longrightarrow> \<exists>j'. M c = Some j' \<and> proper j' \<and> (\<forall>sp. written squeeze c (below i sp) \<longrightarrow> G sp i j' = Ok (compacted squeeze c))"
  shows "\<exists>js'. those (map M cs) = Some js' \<and> (\<forall>j \<in> set js'. proper j)
    \<and> (\<forall>sp. written_from squeeze n cs sp \<longrightarrow> list_all2 (\<lambda>(i, j) c. G sp i j = Ok c) (enumerate n js') (map (compacted squeeze) cs))"
  using assms
proof (induction js arbitrary: n cs)
  case (Cons j js)
  obtain c cs' where cs: "cs = c # cs'" "F n j = Ok c" "list_all2 (\<lambda>(i, j) c. F i j = Ok c) (enumerate (Suc n) js) cs'"
    using Cons.prems(1) by (auto simp: list_all2_Cons1)
  obtain js' where js': "those (map M cs') = Some js'" "\<forall>j \<in> set js'. proper j"
    "\<forall>sp. written_from squeeze (Suc n) cs' sp \<longrightarrow> list_all2 (\<lambda>(i, j) c. G sp i j = Ok c) (enumerate (Suc n) js') (map (compacted squeeze) cs')"
  proof -
    have "\<exists>js'. those (map M cs') = Some js' \<and> (\<forall>j \<in> set js'. proper j)
      \<and> (\<forall>sp. written_from squeeze (Suc n) cs' sp \<longrightarrow>
            list_all2 (\<lambda>(i, j) c. G sp i j = Ok c) (enumerate (Suc n) js') (map (compacted squeeze) cs'))"
      by (rule Cons.IH [OF cs(3)]) (rule Cons.prems(2), simp_all)
    then show thesis using that by blast
  qed
  obtain j' where j': "M c = Some j'" "proper j'" "\<forall>sp. written squeeze c (below n sp) \<longrightarrow> G sp n j' = Ok (compacted squeeze c)"
    using Cons.prems(2) [of n j c] cs(2) by auto
  show ?case using cs(1) js' j' by (intro exI [of _ "j' # js'"]) simp
qed simp

definition rereads ::
  "(json \<Rightarrow> string) \<Rightarrow> (string \<Rightarrow> json option) \<Rightarrow> (string \<Rightarrow> string) \<Rightarrow> nat \<Rightarrow> cond \<Rightarrow> bool" where
  "rereads txt tree squeeze depth c \<longleftrightarrow>
     (\<exists>j'. MarshalCondition tree squeeze c = Some j' \<and> proper j'
        \<and> (\<forall>sp. written squeeze c sp \<longrightarrow> parseConditionWithDepth txt sp j' depth = Ok (compacted squeeze c)))"

lemma any_field_written:
  assumes "codec_ok txt tree squeeze" "\<And>k v. m k = Some v \<Longrightarrow> proper v"
  obtains v where "value_tree tree (any_field txt m k) = Some v" "proper v" "any_of txt v = any_field txt m k"
proof (cases "m k")
  case None
  then show ?thesis using that by (simp add: any_field_def)
next
  case (Some v)
  then show ?thesis using that [of "canon v"] assms(2) [OF Some] value_tree_any [OF assms(1)] proper_canon any_of_canon
    by (auto simp: any_field_def)
qed

lemma simple_rereads:
  assumes "codec_ok txt tree squeeze" "proper j" "depth \<le> maxParseDepth" and p: "parseSimple txt j = Ok c"
  shows "rereads txt tree squeeze depth c"
proof -
  obtain m opn where b: "map_option (\<lambda>jp. SimpleCondition jp opn (any_field txt m ''value'')) (string_field m ''jsonPath'') = Some c"
    and m': "valid_utf8 opn" "\<And>k v. m k = Some v \<Longrightarrow> proper v"
    using parse_leaf_Ok [OF p [unfolded parseSimple_def] assms(2)] by blast
  from b obtain jp where "string_field m ''jsonPath'' = Some jp" "c = SimpleCondition jp opn (any_field txt m ''value'')" by auto
  note m = this m'
  obtain v where v: "value_tree tree (any_field txt m ''value'') = Some v" "proper v" "any_of txt v = any_field txt m ''value''"
    by (rule any_field_written [OF assms(1), of m "''value''"], rule m(4), assumption, rule that, assumption+)
  have pr: "proper (JObject [(''type'', JString ''simple''), (''jsonPath'', JString jp), (''operatorType'', JString opn), (''value'', v)])"
    using v(2) m(3) string_field_utf8 [OF m(1) m(4)] by (simp add: leaf_names_utf8)
  show ?thesis
    unfolding rereads_def m(2) using pr type_written [OF pr] v assms(3)
    by (subst parseConditionWithDepth.simps) (simp add: leaf_written)
qed

lemma lifecycle_rereads:
  assumes "codec_ok txt tree squeeze" "proper j" "depth \<le> maxParseDepth" and p: "parseLifecycle txt j = Ok c"
  shows "rereads txt tree squeeze depth c"
proof -
  obtain m opn where b: "map_option (\<lambda>jp. LifecycleCondition jp opn (any_field txt m ''value'')) (string_field m ''field'') = Some c"
    and m': "valid_utf8 opn" "\<And>k v. m k = Some v \<Longrightarrow> proper v"
    using parse_leaf_Ok [OF p [unfolded parseLifecycle_def] assms(2)] by blast
  from b obtain jp where "string_field m ''field'' = Some jp" "c = LifecycleCondition jp opn (any_field txt m ''value'')" by auto
  note m = this m'
  obtain v where v: "value_tree tree (any_field txt m ''value'') = Some v" "proper v" "any_of txt v = any_field txt m ''value''"
    by (rule any_field_written [OF assms(1), of m "''value''"], rule m(4), assumption, rule that, assumption+)
  have pr: "proper (JObject [(''type'', JString ''lifecycle''), (''field'', JString jp), (''operatorType'', JString opn), (''value'', v)])"
    using v(2) m(3) string_field_utf8 [OF m(1) m(4)] by (simp add: leaf_names_utf8)
  show ?thesis
    unfolding rereads_def m(2) using pr type_written [OF pr] v assms(3)
    by (subst parseConditionWithDepth.simps) (simp add: leaf_written)
qed

lemma array_rereads:
  assumes "codec_ok txt tree squeeze" "proper j" "depth \<le> maxParseDepth" and p: "parseArray txt j = Ok c"
  shows "rereads txt tree squeeze depth c"
proof -
  obtain m opn where b: "(case (string_field m ''jsonPath'', slice_field m ''values'') of
      (Some jp, Some js) \<Rightarrow> Some (ArrayCondition jp opn (map (any_of txt) js)) | _ \<Rightarrow> None) = Some c"
    and m': "valid_utf8 opn" "\<And>k v. m k = Some v \<Longrightarrow> proper v"
    by (rule parse_leaf_Ok [OF p [unfolded parseArray_def] assms(2)]) (rule that, assumption+)
  from b obtain jp js where "string_field m ''jsonPath'' = Some jp" "c = ArrayCondition jp opn (map (any_of txt) js)"
    and vs: "slice_field m ''values'' = Some js" by (auto split: option.splits)
  note m = this(1,2) m' vs
  have js: "\<forall>j \<in> set js. proper j" by (rule slice_field_proper [OF m(5) m(4)])
  have v: "those (map (value_tree tree) (map (any_of txt) js)) = Some (map canon js)"
    unfolding map_map o_def by (rule those_map) (use js value_tree_any [OF assms(1)] in blast)
  have pr: "proper (JObject [(''type'', JString ''array''), (''jsonPath'', JString jp), (''operatorType'', JString opn),
      (''values'', JArray (map canon js))])"
    using js proper_canon m(3) string_field_utf8 [OF m(1) m(4)] by (simp add: leaf_names_utf8)
  have "map (any_of txt) (map canon js) = map (any_of txt) js" by (simp add: any_of_canon)
  then have "parseConditionWithDepth txt sp (JObject [(''type'', JString ''array''), (''jsonPath'', JString jp),
      (''operatorType'', JString opn), (''values'', JArray (map canon js))]) depth = Ok c" for sp
    unfolding m(2) using type_written [OF pr] assms(3)
    by (subst parseConditionWithDepth.simps) (simp only: leaf_written, simp)
  then show ?thesis unfolding rereads_def m(2) using pr v by (simp del: map_map)
qed

lemmas leaf_rereads = simple_rereads lifecycle_rereads array_rereads

text \<open>The same tree, spelled anew: only what is kept changes.\<close>

lemma children_respelled:
  assumes "list_all2 (\<lambda>(i, j) c. F i j = Ok c) (enumerate n js) cs" "written_from squeeze n cs sp"
    "\<And>i j c. (i, j) \<in> set (enumerate n js) \<Longrightarrow> F i j = Ok c \<Longrightarrow> written squeeze c (below i sp) \<Longrightarrow> G i j = Ok (compacted squeeze c)"
  shows "list_all2 (\<lambda>(i, j) c. G i j = Ok c) (enumerate n js) (map (compacted squeeze) cs)"
  using assms
proof (induction js arbitrary: n cs)
  case (Cons j js)
  then obtain c cs' where cs: "cs = c # cs'" "F n j = Ok c" "list_all2 (\<lambda>(i, j) c. F i j = Ok c) (enumerate (Suc n) js) cs'"
    by (auto simp: list_all2_Cons1)
  have "list_all2 (\<lambda>(i, j) c. G i j = Ok c) (enumerate (Suc n) js) (map (compacted squeeze) cs')"
    using Cons.IH [OF cs(3)] Cons.prems(2,3) cs(1) by simp
  then show ?case using cs Cons.prems(2,3) by simp
qed simp

lemma leaf_compacted:
  "parseSimple txt j = Ok c \<Longrightarrow> compacted squeeze c = c"
  "parseLifecycle txt j = Ok c \<Longrightarrow> compacted squeeze c = c"
  "parseArray txt j = Ok c \<Longrightarrow> compacted squeeze c = c"
  by (auto simp: parseSimple_def parseLifecycle_def parseArray_def parse_leaf_def split: option.splits sum.splits)

lemma respelled:
  "parseConditionWithDepth txt sp0 j depth = Ok c \<Longrightarrow> written squeeze c sp
   \<Longrightarrow> parseConditionWithDepth txt sp j depth = Ok (compacted squeeze c)"
proof (induction "Suc maxParseDepth - depth" arbitrary: depth sp0 sp j c rule: less_induct)
  case less
  note parsed = less.prems(1)
  obtain ty where d: "depth \<le> maxParseDepth" and ty: "type_of j = Ok ty"
    using parsed by (subst (asm) parseConditionWithDepth.simps) (auto split: if_splits sum.splits)
  note unf = parseConditionWithDepth.simps [of "txt" _ _ depth]
  consider "ty = ''simple''" | "ty = ''lifecycle''" | "ty = ''array''" | "ty = ''group''" | "ty = ''function''"
    using parsed d ty by (subst (asm) unf) (auto split: if_splits)
  then show ?case
  proof cases
    case 4
    obtain opn js cs where g: "group_of j = Some (opn, js)" "c = GroupCondition opn cs"
      "list_all2 (\<lambda>(i, j) c. parseConditionWithDepth txt (below i sp0) j (Suc depth) = Ok c) (enumerate 0 js) cs"
      using parsed d ty 4 by (subst (asm) unf) (auto simp: map_res_children split: option.splits sum.splits)
    have "list_all2 (\<lambda>(i, j) c. parseConditionWithDepth txt (below i sp) j (Suc depth) = Ok c) (enumerate 0 js) (map (compacted squeeze) cs)"
      by (rule children_respelled [OF g(3)]) (use less.prems(2) g(2) less.hyps [of "Suc depth"] d in auto)
    then have "map_res (\<lambda>(i, c). case parseConditionWithDepth txt (below i sp) c (Suc depth) of
        Inl e \<Rightarrow> Err (place (condition_location i) (InCondition i) e) | Inr d \<Rightarrow> Ok d) (enumerate 0 js) = Ok (map (compacted squeeze) cs)"
      unfolding map_res_children .
    then show ?thesis using 4 d ty g(1,2) by (subst unf) simp
  next
    case 5
    obtain pc where pc: "criterion_of j = Ok pc" using parsed d ty 5 by (subst (asm) unf) (auto split: sum.splits)
    show ?thesis
    proof (cases pc)
      case None
      then show ?thesis using parsed less.prems(2) pc 5 d ty by (auto simp: unf)
    next
      case (Some p)
      then obtain pre where pre: "parseConditionWithDepth txt (below 0 sp0) p (Suc depth) = Ok pre" "c = FunctionCondition (sp0 []) pre"
        using parsed pc 5 d ty by (subst (asm) unf) (auto split: sum.splits)
      have "parseConditionWithDepth txt (below 0 sp) p (Suc depth) = Ok (compacted squeeze pre)"
        using less.hyps [of "Suc depth", OF _ pre(1)] less.prems(2) pre(2) d by simp
      then show ?thesis using Some pre(2) pc less.prems(2) 5 d ty by (subst unf) simp
    qed
  qed (use parsed d ty leaf_compacted in \<open>(simp add: unf)+\<close>)
qed

lemma parsed_rereads:
  "codec_ok txt tree squeeze \<Longrightarrow> proper j \<Longrightarrow> spells tree sp j \<Longrightarrow> parseConditionWithDepth txt sp j depth = Ok c
   \<Longrightarrow> rereads txt tree squeeze depth c"
proof (induction "Suc maxParseDepth - depth" arbitrary: depth sp j c rule: less_induct)
  case less
  note ok = less.prems(1) and pj = less.prems(2) and parsed = less.prems(4)
  obtain ty where d: "depth \<le> maxParseDepth" and ty: "type_of j = Ok ty"
    using parsed by (subst (asm) parseConditionWithDepth.simps) (auto split: if_splits sum.splits)
  note unf = parseConditionWithDepth.simps [of "txt" _ _ depth]
  consider "ty = ''simple''" | "ty = ''lifecycle''" | "ty = ''array''" | "ty = ''group''" | "ty = ''function''"
    using parsed d ty by (subst (asm) unf) (auto split: if_splits)
  then show ?case
  proof cases
    case 4
    obtain opn js cs where g: "group_of j = Some (opn, js)" "c = GroupCondition opn cs"
      "list_all2 (\<lambda>(i, j) c. parseConditionWithDepth txt (below i sp) j (Suc depth) = Ok c) (enumerate 0 js) cs"
      using parsed d ty 4 by (subst (asm) unf) (auto simp: map_res_children split: option.splits sum.splits)
    have p: "valid_utf8 opn" "\<forall>j \<in> set js. proper j"
      using g(1) pj by (auto simp: group_of_def split: option.splits
          intro: string_field_utf8 dest: members_proper dest!: slice_field_proper)
    have again: "\<exists>j'. MarshalCondition tree squeeze c' = Some j' \<and> proper j'
        \<and> (\<forall>sp. written squeeze c' (below i sp) \<longrightarrow> parseConditionWithDepth txt (below i sp) j' (Suc depth) = Ok (compacted squeeze c'))"
      if ij: "(i, j') \<in> set (enumerate 0 js)" and c': "parseConditionWithDepth txt (below i sp) j' (Suc depth) = Ok c'" for i j' c'
    proof -
      have j': "i < length js" "js ! i = j'" using ij by (auto simp: in_set_enumerate_eq)
      have "spells tree (below i sp) j'" using spells_below [OF less.prems(3)] j' g(1) ty 4 by (simp add: child_of_def)
      then have "rereads txt tree squeeze (Suc depth) c'"
        using less.hyps [OF _ ok _ _ c'] p(2) j' d by (simp add: Suc_diff_le nth_mem [of i js, simplified j'(2)])
      then show ?thesis by (auto simp: rereads_def)
    qed
    obtain js' where js': "those (map (MarshalCondition tree squeeze) cs) = Some js'"
      "\<forall>j \<in> set js'. proper j"
      "\<forall>sp. written_from squeeze 0 cs sp \<longrightarrow> list_all2 (\<lambda>(i, j) c. parseConditionWithDepth txt (below i sp) j (Suc depth) = Ok c)
         (enumerate 0 js') (map (compacted squeeze) cs)"
      using children_again [OF g(3), of "MarshalCondition tree squeeze" squeeze "\<lambda>sp i j. parseConditionWithDepth txt (below i sp) j (Suc depth)"]
        again by blast
    have read: "map_res (\<lambda>(i, c). case parseConditionWithDepth txt (below i sp) c (Suc depth) of
        Inl e \<Rightarrow> Err (place (condition_location i) (InCondition i) e) | Inr d \<Rightarrow> Ok d) (enumerate 0 js') = Ok (map (compacted squeeze) cs)"
      if "written_from squeeze 0 cs sp" for sp
      unfolding map_res_children using js'(3) that by simp
    have pr: "proper (JObject [(''type'', JString ''group''), (''operator'', JString opn), (''conditions'', JArray js')])"
      using js'(2) p(1) by (simp add: leaf_names_utf8)
    have "parseConditionWithDepth txt sp (JObject [(''type'', JString ''group''), (''operator'', JString opn),
        (''conditions'', JArray js')]) depth = Ok (compacted squeeze c)" if "written squeeze c sp" for sp
      using type_written [OF pr] d read [of sp] g(2) that by (subst unf) (simp add: group_written)
    then show ?thesis unfolding rereads_def g(2) using pr js'(1) by simp
  next
    case 5
    then obtain pre where c: "c = FunctionCondition (sp []) pre"
      using parsed d ty by (subst (asm) unf) (auto split: sum.splits option.splits)
    have "tree (sp []) = Some j" by (rule spells_here [OF less.prems(3)])
    then have "sp [] \<noteq> []" "tree (squeeze (sp [])) = Some j" using ok by (auto simp: codec_ok_def)
    then have "MarshalCondition tree squeeze c = Some j" by (simp add: c)
    then show ?thesis unfolding rereads_def using pj respelled [OF parsed] by blast
  qed (use parsed d ty leaf_rereads [OF ok pj d] in \<open>(subst (asm) unf; simp)+\<close>)
qed

subsection \<open>What the parser makes\<close>

fun parsed_value :: "go_any \<Rightarrow> bool" where
  "parsed_value (GSlice vs) \<longleftrightarrow> (\<forall>v \<in> set vs. parsed_value v)"
| "parsed_value v \<longleftrightarrow> (case v of GNil \<Rightarrow> True | GString _ \<Rightarrow> True | GBool _ \<Rightarrow> True | GNumber _ \<Rightarrow> True | GMap _ \<Rightarrow> True | _ \<Rightarrow> False)"

fun parsed_shape :: "cond \<Rightarrow> bool" where
  "parsed_shape (SimpleCondition jp opn v) \<longleftrightarrow> parsed_value v"
| "parsed_shape (LifecycleCondition f opn v) \<longleftrightarrow> parsed_value v"
| "parsed_shape (GroupCondition opn cs) \<longleftrightarrow> (\<forall>c \<in> set cs. parsed_shape c)"
| "parsed_shape (ArrayCondition jp opn vs) \<longleftrightarrow> (\<forall>v \<in> set vs. parsed_value v)"
| "parsed_shape (FunctionCondition raw pre) \<longleftrightarrow> pre = NilCondition \<or> parsed_shape pre"
| "parsed_shape _ \<longleftrightarrow> False"

lemma any_of_parsed: "parsed_value (any_of txt j)"
  by (induction j) auto

lemma leaf_shape:
  "parseSimple txt j = Ok c \<Longrightarrow> parsed_shape c \<and> height c \<le> 3"
  "parseLifecycle txt j = Ok c \<Longrightarrow> parsed_shape c \<and> height c \<le> 3"
  "parseArray txt j = Ok c \<Longrightarrow> parsed_shape c \<and> height c \<le> 3"
  by (auto simp: parseSimple_def parseLifecycle_def parseArray_def parse_leaf_def any_field_def any_of_parsed
      split: option.splits sum.splits)

lemma list_all2_right: "list_all2 P xs ys \<Longrightarrow> y \<in> set ys \<Longrightarrow> \<exists>x. P x y"
  by (induction rule: list_all2_induct) auto

lemma parsed_bounds:
  "parseConditionWithDepth txt sp j depth = Ok c \<Longrightarrow> parsed_shape c \<and> depth + height c \<le> maxParseDepth + 3"
proof (induction "Suc maxParseDepth - depth" arbitrary: depth sp j c rule: less_induct)
  case less
  note parsed = less.prems(1)
  obtain ty where d: "depth \<le> maxParseDepth" and ty: "type_of j = Ok ty"
    using parsed by (subst (asm) parseConditionWithDepth.simps) (auto split: if_splits sum.splits)
  note unf = parseConditionWithDepth.simps [of "txt" _ _ depth]
  consider "parseSimple txt j = Ok c" | "parseLifecycle txt j = Ok c" | "parseArray txt j = Ok c"
    | "ty = ''group''" | "ty = ''function''"
    using parsed d ty by (subst (asm) unf) (auto split: if_splits)
  then show ?case
  proof cases
    case 4
    obtain opn js cs where g: "c = GroupCondition opn cs"
      "list_all2 (\<lambda>(i, j) c. parseConditionWithDepth txt (below i sp) j (Suc depth) = Ok c) (enumerate 0 js) cs"
      using parsed d ty 4 by (subst (asm) unf) (auto simp: map_res_children split: option.splits sum.splits)
    have "parsed_shape c' \<and> depth + 1 + height c' \<le> maxParseDepth + 3" if c': "c' \<in> set cs" for c'
    proof -
      obtain i j' where "parseConditionWithDepth txt (below i sp) j' (Suc depth) = Ok c'"
        using list_all2_right [OF g(2) c'] by auto
      then show ?thesis using less.hyps [of "Suc depth" "below i sp" j' c'] d by simp
    qed
    then have "(\<forall>c' \<in> set cs. parsed_shape c') \<and> (\<forall>c' \<in> set cs. height c' \<le> maxParseDepth + 2 - depth)" by fastforce
    then show ?thesis using g(1) d height_children [of cs "maxParseDepth + 2 - depth"] by auto
  next
    case 5
    obtain raw pre where c: "c = FunctionCondition raw pre"
      and pre: "pre = NilCondition \<or> (\<exists>pc. parseConditionWithDepth txt (below 0 sp) pc (Suc depth) = Ok pre)"
      using parsed d ty 5 by (subst (asm) unf) (auto split: sum.splits option.splits)
    have "parsed_shape pre" if "parseConditionWithDepth txt (below 0 sp) pc (Suc depth) = Ok pre" for pc
      using less.hyps [OF _ that] d by simp
    then have "parsed_shape c" using c pre by auto
    then show ?thesis using c d by (simp add: maxParseDepth_def)
  qed (use leaf_shape(1) [of "txt" j c] leaf_shape(2) [of "txt" j c] leaf_shape(3) [of "txt" j c] d in simp_all)
qed

subsection \<open>A codec\<close>

instance json :: countable by countable_datatype

text \<open>A tree is written as its number; leading zeros play the part of white space.\<close>

definition code_text :: "json \<Rightarrow> string" where "code_text j = dec_str (to_nat j)"
definition code_tree :: "string \<Rightarrow> json option" where "code_tree s = (if s = [] then None else Some (from_nat (dec_val s)))"
definition code_compact :: "string \<Rightarrow> string" where "code_compact s = dec_str (dec_val s)"
definition code_spaced :: "json \<Rightarrow> spelling" where "code_spaced j = (\<lambda>p. ''0'' @ code_text (the (condition_at j p)))"

lemma dec_val_zero: "dec_val (CHR ''0'' # s) = dec_val s"
  using dec_val_append [of "''0''" s] by (simp add: dec_val_def digit_val_def)

lemma code_ok: "codec_ok code_text code_tree code_compact"
  by (auto simp: codec_ok_def code_text_def code_tree_def code_compact_def)

lemma code_spells: "spells code_tree (code_spaced j) j"
  by (auto simp: spells_def code_tree_def code_spaced_def code_text_def dec_val_zero)

definition sample_body :: json where
  "sample_body = JObject [(''type'', JString ''group''), (''operator'', JString ''AND''), (''conditions'', JArray
     [JObject [(''operation'', JString ''EQUALS''), (''type'', JString ''simple''), (''value'', JNumber ''42''),
        (''jsonPath'', JString ''$.a'')]])]"

definition sample_condition :: cond where
  "sample_condition = GroupCondition ''AND'' [SimpleCondition ''$.a'' ''EQUALS'' (GNumber ''42'')]"

lemma sample_parsed: "ParseCondition txt sp sample_body = Ok sample_condition"
  unfolding ParseCondition_def sample_body_def sample_condition_def
  by (simp add: parseConditionWithDepth.simps type_of_def group_of_def parseSimple_def leaf_decoding maxParseDepth_def)

lemma sample_proper: "proper sample_body"
  unfolding sample_body_def by code_simp

definition function_body :: json where
  "function_body = JObject [(''type'', JString ''function''), (''function'', JObject [(''name'', JString ''f'')])]"

lemma function_parsed: "ParseCondition txt sp function_body = Ok (FunctionCondition (sp []) NilCondition)"
  unfolding ParseCondition_def function_body_def
  by (simp add: parseConditionWithDepth.simps type_of_def criterion_of_def leaf_decoding maxParseDepth_def)

lemma function_proper: "proper function_body"
  unfolding function_body_def by code_simp

subsection \<open>Properties\<close>

text \<open>
  C11: a parsed condition survives being written and read: whatever aliases, member order or white space the
  body had, the JSON written for the condition parses to the same condition, with the bytes a function
  condition keeps compacted and nothing else changed; without function conditions it is the same condition.
\<close>
theorem condition_roundtrip:
  assumes "codec_ok txt tree squeeze" "proper j" "spells tree sp j" "ParseCondition txt sp j = Ok c"
  shows "\<exists>j'. MarshalCondition tree squeeze c = Some j' \<and> proper j'
    \<and> (\<forall>sp'. written squeeze c sp' \<longrightarrow> ParseCondition txt sp' j' = Ok (compacted squeeze c))"
  using parsed_rereads [OF assms(1-3), of 0 c] assms(4) by (simp add: ParseCondition_def rereads_def)

theorem condition_roundtrip_witness:
  "\<exists>j'. MarshalCondition code_tree code_compact (FunctionCondition (''0'' @ code_text function_body) NilCondition) = Some j'
     \<and> ParseCondition code_text (\<lambda>p. code_text function_body) j' = Ok (FunctionCondition (code_text function_body) NilCondition)"
proof -
  have "ParseCondition code_text (code_spaced function_body) function_body = Ok (FunctionCondition (''0'' @ code_text function_body) NilCondition)"
    by (simp add: function_parsed code_spaced_def)
  from condition_roundtrip [OF code_ok function_proper code_spells this]
  show ?thesis by (auto simp: code_compact_def code_tree_def code_text_def dec_val_zero)
qed

text \<open>
  C35: a parsed condition is within every later limit. It holds JSON values and known forms only, and both
  validators decide it by its operators, groups and patterns alone, never by their depth cap.
\<close>
theorem parsed_conditions:
  assumes "ParseCondition txt sp j = Ok c"
  shows "parsed_shape c \<and> height c \<le> 53
    \<and> (ValidateConditionOperators c = None \<longleftrightarrow> operators_ok c)
    \<and> (ValidateConditionPatterns ext c = None \<longleftrightarrow> patterns_ok ext c)"
  using parsed_bounds [of "txt" sp j 0 c] assms ops.validates [of 0 c] pats.validates [of 0 ext c]
  by (simp add: ParseCondition_def maxParseDepth_def MaxConditionDepth_def ValidateConditionOperators_def
      ValidateConditionPatterns_def operators_ok_def patterns_ok_def)

theorem parsed_conditions_witness:
  "ParseCondition code_text (code_spaced sample_body) sample_body = Ok sample_condition \<and> ValidateConditionOperators sample_condition = None"
proof -
  have "operators_ok sample_condition" by code_simp
  moreover have "ValidateConditionOperators sample_condition = None \<longleftrightarrow> operators_ok sample_condition"
    using parsed_conditions [OF sample_parsed] by blast
  ultimately show ?thesis using sample_parsed by blast
qed

end
