(* ===== verification/Plugins.thy ===== *)
theory Plugins
  imports Utf8 "HOL-Library.List_Lexorder"
begin

text \<open>
  The plugin registry and the factory options (\<open>plugin.go\<close>). The registry's lock makes each operation one
  step; a plugin is its name and whatever else it is. Results: after any sequence of registrations the
  registry answers exactly the plugins registered, in name order, and a repeated name panics; the last
  option of a kind decides.
\<close>

subsection \<open>Factory options\<close>

text \<open>A nil interface is None.\<close>

record ('b, 'c) factoryConfig =
  fc_broadcaster :: "'b option"
  fc_clock :: "'c option"

type_synonym ('b, 'c) FactoryOption = "('b, 'c) factoryConfig \<Rightarrow> ('b, 'c) factoryConfig"

definition WithClusterBroadcaster :: "'b option \<Rightarrow> ('b, 'c) FactoryOption" where
  "WithClusterBroadcaster b c = c\<lparr>fc_broadcaster := b\<rparr>"

definition WithClock :: "'c option \<Rightarrow> ('b, 'c) FactoryOption" where
  "WithClock cl f = f\<lparr>fc_clock := cl\<rparr>"

definition ApplyFactoryOptions :: "('b, 'c) FactoryOption list \<Rightarrow> ('b, 'c) factoryConfig" where
  "ApplyFactoryOptions opts = foldl (\<lambda>cfg opt. opt cfg) \<lparr>fc_broadcaster = None, fc_clock = None\<rparr> opts"

subsection \<open>The registry\<close>

record 'p Plugin =
  pl_Name :: string
  pl_impl :: 'p

text \<open>The map as the list of its entries, in the order an iteration happens to take.\<close>

type_synonym 'p registry = "(string \<times> 'p Plugin) list"

text \<open>The panic on a name that is taken is None.\<close>

definition Register :: "'p Plugin \<Rightarrow> 'p registry \<Rightarrow> 'p registry option" where
  "Register p reg = (if map_of reg (pl_Name p) \<noteq> None then None else Some ((pl_Name p, p) # reg))"

definition GetPlugin :: "'p registry \<Rightarrow> string \<Rightarrow> 'p Plugin option" where
  "GetPlugin reg n = map_of reg n"

definition RegisteredPlugins :: "'p registry \<Rightarrow> string list" where
  "RegisteredPlugins reg = sort_key (map byte) (map fst reg)"

fun register_all :: "'p Plugin list \<Rightarrow> 'p registry \<Rightarrow> 'p registry option" where
  "register_all [] reg = Some reg"
| "register_all (p # ps) reg = (case Register p reg of None \<Rightarrow> None | Some reg' \<Rightarrow> register_all ps reg')"

subsection \<open>What the registry holds\<close>

definition registry_ok :: "'p registry \<Rightarrow> bool" where
  "registry_ok reg \<longleftrightarrow> distinct (map fst reg) \<and> (\<forall>e \<in> set reg. fst e = pl_Name (snd e))"

lemma Register_ok: "registry_ok reg \<Longrightarrow> Register p reg = Some reg' \<Longrightarrow> registry_ok reg'"
  by (auto simp: registry_ok_def Register_def map_of_eq_None_iff split: if_splits)

lemma register_all_spec:
  "registry_ok reg \<Longrightarrow>
   register_all ps reg =
     (if distinct (map pl_Name ps) \<and> set (map pl_Name ps) \<inter> set (map fst reg) = {}
      then Some (rev (map (\<lambda>p. (pl_Name p, p)) ps) @ reg) else None)"
proof (induction ps arbitrary: reg)
  case (Cons p ps)
  show ?case
  proof (cases "pl_Name p \<in> set (map fst reg)")
    case True
    then have "Register p reg = None" by (simp add: Register_def map_of_eq_None_iff)
    then show ?thesis using True by simp
  next
    case False
    then have r: "Register p reg = Some ((pl_Name p, p) # reg)" by (simp add: Register_def map_of_eq_None_iff)
    show ?thesis using Cons.IH [OF Register_ok [OF Cons.prems r]] False r by auto
  qed
qed simp

lemma registry_lookup:
  "registry_ok reg \<Longrightarrow> GetPlugin reg n = Some p \<longleftrightarrow> p \<in> snd ` set reg \<and> pl_Name p = n"
  by (force simp: GetPlugin_def registry_ok_def image_iff)

lemma options_decide:
  "ApplyFactoryOptions (opts @ [opt]) = opt (ApplyFactoryOptions opts)"
  by (simp add: ApplyFactoryOptions_def)

lemma clock_decided:
  "fc_clock (ApplyFactoryOptions (opts @ WithClock c # map WithClusterBroadcaster bs)) = c"
  by (induction bs rule: rev_induct) (simp_all add: ApplyFactoryOptions_def WithClock_def WithClusterBroadcaster_def)

subsection \<open>Properties\<close>

text \<open>registering a sequence of plugins panics exactly when two share a name. Otherwise every lookup
  answers the plugin of that name, if one was registered, and the listing is the names in byte order, once
  each, in whatever order they were registered.
\<close>
theorem registry_exact:
  "(register_all ps [] = None \<longleftrightarrow> \<not> distinct (map pl_Name ps))
   \<and> (case register_all ps [] of
        None \<Rightarrow> True
      | Some reg \<Rightarrow>
          (\<forall>n p. GetPlugin reg n = Some p \<longleftrightarrow> p \<in> set ps \<and> pl_Name p = n)
          \<and> set (RegisteredPlugins reg) = pl_Name ` set ps \<and> distinct (RegisteredPlugins reg)
          \<and> sorted (map (map byte) (RegisteredPlugins reg)))"
proof (cases "distinct (map pl_Name ps)")
  case True
  let ?reg = "rev (map (\<lambda>p. (pl_Name p, p)) ps)"
  have r: "register_all ps [] = Some ?reg" using register_all_spec [of "[]" ps] True by (simp add: registry_ok_def)
  have ok: "registry_ok ?reg" using True by (simp add: registry_ok_def rev_map [symmetric] o_def)
  have "GetPlugin ?reg n = Some p \<longleftrightarrow> p \<in> set ps \<and> pl_Name p = n" for n p
    using registry_lookup [OF ok, of n p] by (force simp: image_iff)
  moreover have "set (RegisteredPlugins ?reg) = pl_Name ` set ps" by (simp add: RegisteredPlugins_def image_image)
  moreover have "distinct (RegisteredPlugins ?reg)"
    using True by (simp add: RegisteredPlugins_def rev_map [symmetric] o_def)
  ultimately show ?thesis using r True by (simp add: RegisteredPlugins_def)
next
  case False
  then show ?thesis using register_all_spec [of "[]" ps] by (simp add: registry_ok_def)
qed

end
