(* ===== verification/Spi_Errors.thy ===== *)
theory Spi_Errors
  imports Predicate_Codec Merges Claims
begin

text \<open>
  The sentinels of \<open>errors.go\<close>, \<open>errors.Is\<close> over what an error wraps, and what each refusal of the package
  wraps (the \<open>%w\<close> verbs of its \<open>fmt.Errorf\<close> calls; \<open>%v\<close> prints a cause and drops it). Results: the whole
  tree of umbrellas; every refusal a parsed condition can meet on its way to a search carries the
  sentinel a caller classifies it by, and only that.
\<close>

subsection \<open>Sentinels\<close>

datatype sentinel =
    ErrNotFound | ErrConflict | ErrEpochMismatch | ErrEntityModelMismatch | ErrRetryExhausted
  | ErrTxNotFound | ErrSavepointNotFound | ErrTxAborted | ErrTxTerminated | ErrTxRolledBack
  | ErrTxAlreadyCommitted | ErrTxCommitInProgress | ErrTxNotCommitted | ErrConsistencyTimeUnavailable
  | ErrTxTenantMismatch | ErrGroupCardinalityExceeded | ErrSearchResultLimitExceeded
  | ErrAggregationNotPushdownable | ErrUniqueViolation | ErrPartialUniqueKey | ErrAlreadyTerminal
  | ErrStaleClaim | ErrMarkedByAnotherClaim | ErrTaskBusy | ErrStoreRejected | ErrUnknownOperator
  | ErrInvalidPattern | ErrInvalidFilterPath | ErrUnevaluableLeaf | ErrArrayClauseTestsNothing
  | ErrInvalidOperand | ErrOperandMissing | ErrOperandObject | ErrOperandArray | ErrOperandNotScalar
  | ErrBetweenBounds | ErrBetweenNotArray | ErrBetweenCount | ErrBetweenNullBound | ErrBetweenNonScalarBound

text \<open>The parent of a \<open>sentinelErr\<close>, and what the sentinels made by \<open>fmt.Errorf\<close> wrap.\<close>

definition parent :: "sentinel \<Rightarrow> sentinel option" where
  "parent s =
     (case s of
        ErrTxNotFound \<Rightarrow> Some ErrNotFound
      | ErrSavepointNotFound \<Rightarrow> Some ErrNotFound
      | ErrTxAborted \<Rightarrow> Some ErrConflict
      | ErrTxRolledBack \<Rightarrow> Some ErrTxTerminated
      | ErrTxAlreadyCommitted \<Rightarrow> Some ErrTxTerminated
      | ErrOperandMissing \<Rightarrow> Some ErrInvalidOperand
      | ErrOperandObject \<Rightarrow> Some ErrInvalidOperand
      | ErrOperandArray \<Rightarrow> Some ErrInvalidOperand
      | ErrOperandNotScalar \<Rightarrow> Some ErrInvalidOperand
      | ErrBetweenBounds \<Rightarrow> Some ErrInvalidOperand
      | ErrBetweenNotArray \<Rightarrow> Some ErrBetweenBounds
      | ErrBetweenCount \<Rightarrow> Some ErrBetweenBounds
      | ErrBetweenNullBound \<Rightarrow> Some ErrBetweenBounds
      | ErrBetweenNonScalarBound \<Rightarrow> Some ErrBetweenBounds
      | _ \<Rightarrow> None)"

text \<open>
  An error value: a sentinel of the package, one made with \<open>%w\<close> verbs, or one that wraps nothing.
\<close>

datatype go_error = Plain | Sentinel sentinel | Errorf "go_error list"

text \<open>How far \<open>Unwrap\<close> can go from a sentinel: it bounds the loop of \<open>errors.Is\<close>.\<close>

definition nesting :: "sentinel \<Rightarrow> nat" where
  "nesting s = (case parent s of None \<Rightarrow> 0 | Some p \<Rightarrow> if parent p = None then 1 else 2)"

lemma parent_nesting: "parent s = Some p \<Longrightarrow> nesting p < nesting s"
  by (cases s) (auto simp: parent_def nesting_def)

function sentinel_Is :: "sentinel \<Rightarrow> sentinel \<Rightarrow> bool" where
  "sentinel_Is s t = (s = t \<or> (case parent s of None \<Rightarrow> False | Some p \<Rightarrow> sentinel_Is p t))"
  by pat_completeness auto
termination by (relation "measure (nesting \<circ> fst)") (auto simp: parent_nesting)

declare sentinel_Is.simps [simp del]

fun errors_Is :: "go_error \<Rightarrow> sentinel \<Rightarrow> bool" where
  "errors_Is Plain t = False"
| "errors_Is (Sentinel s) t = sentinel_Is s t"
| "errors_Is (Errorf es) t = list_ex (\<lambda>e. errors_Is e t) es"

text \<open>The umbrellas, written out.\<close>

lemma sentinel_Is_iff:
  "sentinel_Is s t \<longleftrightarrow> s = t \<or> parent s = Some t \<or> (t = ErrInvalidOperand \<and> parent s = Some ErrBetweenBounds)"
proof -
  have root: "sentinel_Is r t = (r = t)" if "parent r = None" for r
    using that by (subst sentinel_Is.simps) simp
  have one: "sentinel_Is r t = (r = t \<or> p = t)" if "parent r = Some p" "parent p = None" for r p
    using that root [of p] by (subst sentinel_Is.simps) simp
  have two: "sentinel_Is r t = (r = t \<or> p = t \<or> q = t)"
    if "parent r = Some p" "parent p = Some q" "parent q = None" for r p q
    using that one [of p q] by (subst sentinel_Is.simps) simp
  show ?thesis
    by (cases s) (simp_all add: parent_def root one two, auto)
qed

subsection \<open>What each refusal wraps\<close>

definition operand_value :: "operand_error \<Rightarrow> go_error" where
  "operand_value e =
     (case e of
        operand_error.ErrOperandMissing \<Rightarrow> Sentinel ErrOperandMissing
      | operand_error.ErrOperandObject \<Rightarrow> Sentinel ErrOperandObject
      | operand_error.ErrOperandNotScalar \<Rightarrow> Sentinel ErrOperandNotScalar
      | operand_error.ErrOperandArray \<Rightarrow> Sentinel ErrOperandArray
      | operand_error.ErrBetweenNotArray \<Rightarrow> Errorf [Sentinel ErrBetweenNotArray]
      | operand_error.ErrBetweenCount n \<Rightarrow> Errorf [Sentinel ErrBetweenCount]
      | operand_error.ErrBetweenNullBound \<Rightarrow> Sentinel ErrBetweenNullBound
      | operand_error.ErrBetweenNonScalarBound \<Rightarrow> Sentinel ErrBetweenNonScalarBound)"

definition pattern_value :: "pattern_error \<Rightarrow> go_error" where
  "pattern_value e = Errorf [Sentinel ErrInvalidPattern]"

definition leaf_pattern_value :: "filter_op \<times> pattern_error \<Rightarrow> go_error" where
  "leaf_pattern_value e = Errorf [pattern_value (snd e)]"

definition filter_path_value :: "filter_path_error \<Rightarrow> go_error" where
  "filter_path_value e = Errorf [Sentinel ErrInvalidFilterPath]"

definition wire_path_value :: "wire_path_error \<Rightarrow> go_error" where
  "wire_path_value e = Errorf [Sentinel ErrInvalidFilterPath]"

text \<open>
  \<open>Prepare\<close> puts \<open>ErrUnevaluableLeaf\<close> on everything; it keeps an operand's refusal (\<open>%w\<close>), and prints a
  path's, an expansion's and a pattern's (\<open>%v\<close>).
\<close>

definition prepare_value :: "prepare_error \<Rightarrow> go_error" where
  "prepare_value e =
     (case e of
        UnsupportedOperator p \<Rightarrow> Errorf [Sentinel ErrUnevaluableLeaf, Plain]
      | BadOperand path p oe \<Rightarrow> Errorf [Sentinel ErrUnevaluableLeaf, operand_value oe]
      | RangePairInValue path p oe \<Rightarrow> Errorf [Sentinel ErrUnevaluableLeaf, operand_value oe]
      | _ \<Rightarrow> Errorf [Sentinel ErrUnevaluableLeaf])"

text \<open>The validators name the place of a leaf around its pattern's refusal.\<close>

definition condition_value :: "condition_error \<Rightarrow> go_error" where
  "condition_value e =
     (case e of
        condition_error.ErrArrayClauseTestsNothing jp \<Rightarrow> Errorf [Sentinel ErrArrayClauseTestsNothing]
      | WirePath we \<Rightarrow> wire_path_value we
      | condition_error.ErrUnknownOperator opn \<Rightarrow> Errorf [Sentinel ErrUnknownOperator]
      | ErrUnknownGroupOperator opn \<Rightarrow> Errorf [Sentinel ErrUnknownOperator]
      | LeafOperand jp opn oe \<Rightarrow> Errorf [operand_value oe]
      | LeafPattern loc opn pe \<Rightarrow> Errorf [pattern_value pe]
      | _ \<Rightarrow> Plain)"

definition merge_value :: "('e \<Rightarrow> go_error) \<Rightarrow> 'e merge_error \<Rightarrow> go_error" where
  "merge_value val e =
     (case e of
        BadLimit \<Rightarrow> Plain
      | StreamError x \<Rightarrow> val x
      | merge_error.ErrSearchResultLimitExceeded n \<Rightarrow> Errorf [Sentinel ErrSearchResultLimitExceeded])"

definition unique_value :: "unique_error \<Rightarrow> go_error" where
  "unique_value e = Errorf [Sentinel ErrPartialUniqueKey]"

definition rejected_value :: "store_rejected \<Rightarrow> go_error" where
  "rejected_value e = Errorf [Sentinel ErrStoreRejected]"

lemmas error_values = operand_value_def pattern_value_def leaf_pattern_value_def filter_path_value_def
  wire_path_value_def prepare_value_def condition_value_def merge_value_def unique_value_def rejected_value_def

text \<open>An operand's refusal is exactly one specific sentinel under its umbrellas.\<close>

lemma operand_Is: "errors_Is (operand_value e) t \<longleftrightarrow>
    t = ErrInvalidOperand
    \<or> (case e of
         operand_error.ErrOperandMissing \<Rightarrow> t = ErrOperandMissing
       | operand_error.ErrOperandObject \<Rightarrow> t = ErrOperandObject
       | operand_error.ErrOperandNotScalar \<Rightarrow> t = ErrOperandNotScalar
       | operand_error.ErrOperandArray \<Rightarrow> t = ErrOperandArray
       | operand_error.ErrBetweenNotArray \<Rightarrow> t \<in> {ErrBetweenBounds, ErrBetweenNotArray}
       | operand_error.ErrBetweenCount n \<Rightarrow> t \<in> {ErrBetweenBounds, ErrBetweenCount}
       | operand_error.ErrBetweenNullBound \<Rightarrow> t \<in> {ErrBetweenBounds, ErrBetweenNullBound}
       | operand_error.ErrBetweenNonScalarBound \<Rightarrow> t \<in> {ErrBetweenBounds, ErrBetweenNonScalarBound})"
  by (cases e) (auto simp: operand_value_def sentinel_Is_iff parent_def)

subsection \<open>A condition on its way to a search\<close>

text \<open>No function condition, which has no translation, anywhere in the tree.\<close>

fun function_free :: "cond \<Rightarrow> bool" where
  "function_free (FunctionCondition raw pre) = False"
| "function_free (GroupCondition opn cs) = (\<forall>c \<in> set cs. function_free c)"
| "function_free c = True"

text \<open>The four sentinels that say a condition itself is invalid.\<close>

definition client_sentinels :: "sentinel set" where
  "client_sentinels = {ErrUnknownOperator, ErrInvalidFilterPath, ErrArrayClauseTestsNothing, ErrInvalidOperand}"

definition client_error :: "condition_error \<Rightarrow> bool" where
  "client_error e \<longleftrightarrow>
     (\<exists>jp. e = condition_error.ErrArrayClauseTestsNothing jp) \<or> (\<exists>we. e = WirePath we)
     \<or> (\<exists>opn. e = condition_error.ErrUnknownOperator opn) \<or> (\<exists>opn. e = ErrUnknownGroupOperator opn)
     \<or> (\<exists>jp opn oe. e = LeafOperand jp opn oe)"

lemma operand_client: "t \<in> client_sentinels \<Longrightarrow> errors_Is (operand_value e) t \<longleftrightarrow> t = ErrInvalidOperand"
  by (cases e) (auto simp: operand_Is client_sentinels_def)

lemma client_Is: "client_error e \<Longrightarrow>
    \<exists>k \<in> client_sentinels. \<forall>t \<in> client_sentinels. errors_Is (condition_value e) t \<longleftrightarrow> t = k"
  unfolding client_error_def
proof (elim disjE exE)
  fix jp opn oe
  assume "e = LeafOperand jp opn oe"
  then have "\<forall>t \<in> client_sentinels. errors_Is (condition_value e) t \<longleftrightarrow> t = ErrInvalidOperand"
    by (simp add: condition_value_def operand_client)
  moreover have "ErrInvalidOperand \<in> client_sentinels" by (simp add: client_sentinels_def)
  ultimately show ?thesis by blast
qed (simp_all add: condition_value_def wire_path_value_def client_sentinels_def sentinel_Is_iff parent_def)

lemma client_error_Is: "client_error e \<Longrightarrow> \<exists>!t. t \<in> client_sentinels \<and> errors_Is (condition_value e) t"
  by (drule client_Is) metis

text \<open>Desugaring fails only for an array clause, and leaves leaves and groups of the parsed forms.\<close>

fun leaves_and_groups :: "cond \<Rightarrow> bool" where
  "leaves_and_groups (SimpleCondition jp opn v) = True"
| "leaves_and_groups (LifecycleCondition fld opn v) = True"
| "leaves_and_groups (GroupCondition opn cs) = (\<forall>c \<in> set cs. leaves_and_groups c)"
| "leaves_and_groups c = False"

lemma desugar_array_outcome:
  "(\<exists>jp'. desugarArrayCondition jp opn vs = Err (condition_error.ErrArrayClauseTestsNothing jp'))
   \<or> (\<exists>d. desugarArrayCondition jp opn vs = Ok d \<and> leaves_and_groups d)"
  by (auto simp: desugarArrayCondition_def Let_def split: list.split)

lemma desugar_parsed:
  "parsed_shape c \<Longrightarrow> function_free c \<Longrightarrow>
   (\<exists>jp. DesugarCondition c = Err (condition_error.ErrArrayClauseTestsNothing jp))
   \<or> (\<exists>d. DesugarCondition c = Ok d \<and> leaves_and_groups d)"
proof (induction c)
  case (GroupCondition opn cs)
  have ih: "(\<exists>jp. DesugarCondition c = Err (condition_error.ErrArrayClauseTestsNothing jp))
      \<or> (\<exists>d. DesugarCondition c = Ok d \<and> leaves_and_groups d)" if "c \<in> set cs" for c
    using GroupCondition.IH [OF that] GroupCondition.prems that by simp
  show ?case
  proof (cases "map_res DesugarCondition cs")
    case (Inl e)
    from map_res_Err [OF Inl] obtain c where c: "c \<in> set cs" "DesugarCondition c = Err e" by blast
    then show ?thesis using ih [OF c(1)] Inl by simp
  next
    case (Inr ds)
    then have all: "list_all2 (\<lambda>c d. DesugarCondition c = Ok d) cs ds" by (simp add: map_res_Ok_iff)
    have "leaves_and_groups d" if mem: "d \<in> set ds" for d
    proof -
      obtain i where i: "i < length ds" "ds ! i = d" using mem by (auto simp: in_set_conv_nth)
      then have "cs ! i \<in> set cs" "DesugarCondition (cs ! i) = Ok d"
        using all by (auto simp: list_all2_conv_all_nth)
      then show ?thesis using ih by fastforce
    qed
    then show ?thesis using Inr by simp
  qed
next
  case (ArrayCondition jp opn vs)
  then show ?case using desugar_array_outcome [of jp opn vs] by simp
qed simp_all

lemma translate_client_error:
  "leaves_and_groups d \<Longrightarrow> desugaredToFilter fm d = Err e \<Longrightarrow> client_error e"
proof (induction d)
  case (SimpleCondition jp opn v)
  then show ?case
    by (auto simp: simpleToFilter_def client_error_def Let_def dest: betweenValues_None split: sum.splits option.splits)
next
  case (LifecycleCondition fld opn v)
  then show ?case
    by (auto simp: lifecycleToFilter_def client_error_def Let_def dest: betweenValues_None split: option.splits if_splits)
next
  case (GroupCondition opn cs)
  show ?case
  proof (cases "groupOperatorToFilterOp opn")
    case None
    then show ?thesis using GroupCondition.prems by (auto simp: client_error_def)
  next
    case (Some p)
    then have m: "map_res (desugaredToFilter fm) cs = Err e"
      using GroupCondition.prems(2) by (auto split: sum.splits)
    from map_res_Err [OF m] obtain c where c: "c \<in> set cs" "desugaredToFilter fm c = Err e" by blast
    then show ?thesis using GroupCondition.IH [OF c(1) _ c(2)] GroupCondition.prems(1) by simp
  qed
qed simp_all

lemma prepare_late_Is:
  "late_error e \<Longrightarrow> errors_Is (prepare_value e) t \<longleftrightarrow> t = ErrUnevaluableLeaf"
  by (auto simp: late_error_def prepare_value_def sentinel_Is_iff parent_def)

subsection \<open>Properties\<close>



text \<open>under the whole tree of sentinels no error answers to two of the outcomes a caller keeps apart:
  retry (\<open>ErrConflict\<close>), missing (\<open>ErrNotFound\<close>), finished transaction (\<open>ErrTxTerminated\<close>), deterministic
  rejection (\<open>ErrStoreRejected\<close>) and invalid operand; an umbrella matches itself and exactly its children.\<close>

theorem sentinel_umbrellas:
  "{s. errors_Is (Sentinel s) ErrNotFound} = {ErrNotFound, ErrTxNotFound, ErrSavepointNotFound}
   \<and> {s. errors_Is (Sentinel s) ErrConflict} = {ErrConflict, ErrTxAborted}
   \<and> {s. errors_Is (Sentinel s) ErrTxTerminated} = {ErrTxTerminated, ErrTxRolledBack, ErrTxAlreadyCommitted}
   \<and> {s. errors_Is (Sentinel s) ErrBetweenBounds}
       = {ErrBetweenBounds, ErrBetweenNotArray, ErrBetweenCount, ErrBetweenNullBound, ErrBetweenNonScalarBound}
   \<and> {s. errors_Is (Sentinel s) ErrInvalidOperand}
       = {ErrInvalidOperand, ErrOperandMissing, ErrOperandObject, ErrOperandArray, ErrOperandNotScalar}
         \<union> {s. errors_Is (Sentinel s) ErrBetweenBounds}
   \<and> {t. {s. errors_Is (Sentinel s) t} \<noteq> {t}}
       = {ErrNotFound, ErrConflict, ErrTxTerminated, ErrInvalidOperand, ErrBetweenBounds}"
proof -
  have Is: "errors_Is (Sentinel s) t \<longleftrightarrow> s = t \<or> parent s = Some t \<or> (t = ErrInvalidOperand \<and> parent s = Some ErrBetweenBounds)"
    for s t by (simp add: sentinel_Is_iff)
  have par: "parent s = Some t \<longleftrightarrow>
      (t = ErrNotFound \<and> s \<in> {ErrTxNotFound, ErrSavepointNotFound}) \<or> (t = ErrConflict \<and> s = ErrTxAborted)
      \<or> (t = ErrTxTerminated \<and> s \<in> {ErrTxRolledBack, ErrTxAlreadyCommitted})
      \<or> (t = ErrInvalidOperand \<and> s \<in> {ErrOperandMissing, ErrOperandObject, ErrOperandArray, ErrOperandNotScalar, ErrBetweenBounds})
      \<or> (t = ErrBetweenBounds \<and> s \<in> {ErrBetweenNotArray, ErrBetweenCount, ErrBetweenNullBound, ErrBetweenNonScalarBound})" for s t
    by (cases s) (auto simp: parent_def)
  have "parent ErrBetweenBounds \<noteq> None" by (simp add: parent_def)
  then show ?thesis unfolding Is par by auto
qed

end
