(* ===== verification/Suite_Search.thy ===== *)
theory Suite_Search
  imports Spi_Errors
begin

text \<open>
  The search cases of the conformance suite (\<open>spitest/searcher.go\<close>, \<open>filter_not.go\<close>, \<open>pattern.go\<close>, and the
  filters of \<open>iterable.go\<close> and \<open>trackingread.go\<close>): the fixtures it seeds, the filters it sends and what it
  requires of the answers. The store is a parameter: an answer is the pair of rows and error its entry
  point returns, over the rows the caller sees (committed and staged, in any order). Results: a store that
  answers as the interface documents passes every case that asserts which rows a filter selects, whatever ids
  it is given, so the expectations written in the suite agree with the shared kernel; and the faults the fixtures
  are built against are caught. Of \<open>runSearcherSuite\<close> the case \<open>PIT/CommittedOnlyInTx\<close> is left out; of
  \<open>runIterableSuite\<close> the point-in-time, ordered, overlay, cancelled, sticky-error and close cases are; the
  \<open>InTx\<close> variant of \<open>BoundedOrFail\<close> differs only in where its rows lie, which a view does not show; and of the
  \<open>TrackingRead\<close> cases of both suites only the rows each read hands back are kept, not the commits that follow. Contexts,
  tenants, transactions and the recording of read sets are not part of these definitions.
\<close>

subsection \<open>Answers\<close>

type_synonym answer = "json Entity list \<times> go_error option"

text \<open>\<open>require.Error\<close> with \<open>require.Empty\<close>, and the two with \<open>require.ErrorIs\<close>.\<close>

definition refused :: "answer \<Rightarrow> bool" where
  "refused a \<longleftrightarrow> fst a = [] \<and> snd a \<noteq> None"

definition refused_as :: "answer \<Rightarrow> sentinel \<Rightarrow> bool" where
  "refused_as a s \<longleftrightarrow> fst a = [] \<and> (case snd a of None \<Rightarrow> False | Some e \<Rightarrow> errors_Is e s)"

text \<open>A minimal entity: its payload is marshalled, names in order.\<close>

definition newEntity :: "string \<Rightarrow> string \<Rightarrow> (string \<times> json) list \<Rightarrow> json Entity" where
  "newEntity modelName i payload =
     \<lparr>Meta = zero_meta\<lparr>ID := i, ModelRefOf := \<lparr>EntityName = modelName, ModelVersion = ''1''\<rparr>\<rparr>,
      Data = canon (JObject payload)\<rparr>"

text \<open>
  A string member at the top of the payload; \<open>None\<close> fails the case that reads it. The suite only reads members
  it seeded as strings, so the texts gjson renders for other values do not enter.
\<close>

definition entityDataString :: "json Entity \<Rightarrow> string \<Rightarrow> string option" where
  "entityDataString e field = (case tree_get (Some (Data e)) field of Some (JString s) \<Rightarrow> Some s | _ \<Rightarrow> None)"

definition entityIDs :: "json Entity list \<Rightarrow> string list" where
  "entityIDs es = map (\<lambda>e. ID (Meta e)) es"

subsection \<open>Bounded or fail\<close>

definition searcherSeedOrder :: "bool list" where
  "searcherSeedOrder = [False, True, True, False, True, True, True]"

definition countSearcherMatches :: "bool list \<Rightarrow> int" where
  "countSearcherMatches order = foldl (\<lambda>n isMatch. if isMatch then n + 1 else n) 0 order"

definition searcherMatchN :: int where "searcherMatchN = countSearcherMatches searcherSeedOrder"

definition searcherCommittedN :: nat where "searcherCommittedN = 5"

definition searcherMatchValue :: string where "searcherMatchValue = ''match''"
definition searcherDecoyValue :: string where "searcherDecoyValue = ''no-match''"
definition searcherModel :: string where "searcherModel = ''searcher-bounded''"

definition seedSearcherEntities :: "string list \<Rightarrow> bool list \<Rightarrow> json Entity list" where
  "seedSearcherEntities ids order =
     map (\<lambda>(i, isMatch). newEntity searcherModel i
            [(''status'', JString (if isMatch then searcherMatchValue else searcherDecoyValue))])
       (zip ids order)"

text \<open>The leaf the suite selects with: a data path, a string operand, the declared type string.\<close>

definition string_leaf_filter :: "filter_op \<Rightarrow> string \<Rightarrow> string \<Rightarrow> filter" where
  "string_leaf_filter p path v = Filter p path SourceData (GString v) [] [] CoerceNone [String]"

definition status_filter :: filter where
  "status_filter = string_leaf_filter FilterEq ''status'' searcherMatchValue"

definition searcherBoundedOrFail :: "(int \<Rightarrow> answer) \<Rightarrow> bool" where
  "searcherBoundedOrFail search \<longleftrightarrow>
     refused_as (search (searcherMatchN - 1)) ErrSearchResultLimitExceeded
     \<and> snd (search searcherMatchN) = None \<and> int (length (fst (search searcherMatchN))) = searcherMatchN
     \<and> refused (search 0)
     \<and> refused (search (-1))"

subsection \<open>The grammar of filter paths\<close>

definition quote :: string where "quote = [CHR 0x27]"

definition filterPathRejects :: "string list" where
  "filterPathRejects =
    [''foo'' @ quote @ '';x'', ''status'' @ quote @ '';DROP TABLE entities;--'', ''foo'' @ [CHR 0x22] @ ''bar'',
     ''foo'' @ [CHR 0x5C] @ ''bar'', ''foo bar'', ''foo/bar'', ''foo*'', ''foo,bar'', ''foo:bar'', ''a..b'', ''.status'',
     ''status.'', ''.'', ''a['', ''a[-1]'', ''a[0:2]'', ''a[?(@.x)]'', ''a[0]b'', ''a[2147483648]'',
     ''a[99999999999999999999]'', ''$.status'', ''$'', ''h'' @ [CHR 0xC3, CHR 0xA9] @ ''llo'', ''foo'' @ [CHR 0x00] @ ''bar'',
     ''foo?bar'', ''foo#'', ''foo|bar'', ''!true'']"

definition filterPathAcceptsData :: "string list" where
  "filterPathAcceptsData =
    [''status'', ''user_name'', ''user-name'', ''Status9'', ''a.b.c'', ''tags.0'', ''tags[0]'', ''tags[*]'',
     ''items[*].sku'', ''tags[2147483647]'']"

definition filterPathAcceptsMeta :: "string list" where
  "filterPathAcceptsMeta =
    [''id'', ''state'', ''creationDate'', ''lastUpdateTime'', ''transitionForLatestSave'', ''transactionId'']"

definition malformedPathFilter :: "field_source \<Rightarrow> string \<Rightarrow> filter" where
  "malformedPathFilter src path = Filter FilterEq path src (GString ''irrelevant'') [] [] CoerceNone [String]"

definition wellFormedPathFilter :: "field_source \<Rightarrow> string \<Rightarrow> filter" where
  "wellFormedPathFilter src path = Filter FilterNotNull path src GNil [] [] CoerceNone []"

definition tree_filter :: "filter_op \<Rightarrow> filter list \<Rightarrow> filter" where
  "tree_filter p cs = Filter p [] (SourceOther []) GNil [] cs CoerceNone []"

definition nested :: filter where
  "nested = tree_filter FilterAnd
     [wellFormedPathFilter SourceData ''status'', malformedPathFilter SourceData (''foo'' @ quote @ '';x'')]"

definition nestedUnderUnknownBranch :: filter where
  "nestedUnderUnknownBranch = tree_filter (FilterOpOther ''__spitest_unknown_branch_op__'')
     [malformedPathFilter SourceData (''foo'' @ quote @ '';x'')]"

definition nestedUnderRealNot :: filter where
  "nestedUnderRealNot = tree_filter FilterNot [malformedPathFilter SourceData (''foo'' @ quote @ '';x'')]"

definition path_refused :: "go_error option \<Rightarrow> bool" where
  "path_refused err = (case err of None \<Rightarrow> False | Some e \<Rightarrow> errors_Is e ErrInvalidFilterPath)"

definition runFilterPathGrammar :: "(filter \<Rightarrow> go_error option) \<Rightarrow> bool" where
  "runFilterPathGrammar exec \<longleftrightarrow>
     (\<forall>src \<in> set [SourceData, SourceMeta]. \<forall>path \<in> set filterPathRejects.
        path_refused (exec (malformedPathFilter src path)))
     \<and> path_refused (exec nested)
     \<and> path_refused (exec nestedUnderUnknownBranch)
     \<and> path_refused (exec nestedUnderRealNot)
     \<and> (\<forall>path \<in> set filterPathAcceptsData. exec (wellFormedPathFilter SourceData path) = None)
     \<and> (\<forall>path \<in> set filterPathAcceptsMeta. exec (wellFormedPathFilter SourceMeta path) = None)"

subsection \<open>Negation\<close>

record filterNotFixtureEntry =
  fx_label :: string
  fx_tags :: "string list"
  fx_noTags :: bool
  fx_matches :: bool

definition filterNotFixture :: "filterNotFixtureEntry list" where
  "filterNotFixture =
    [\<lparr>fx_label = ''contains-red'', fx_tags = [''red'', ''blue''], fx_noTags = False, fx_matches = False\<rparr>,
     \<lparr>fx_label = ''no-red'', fx_tags = [''blue'', ''green''], fx_noTags = False, fx_matches = True\<rparr>,
     \<lparr>fx_label = ''empty-array'', fx_tags = [], fx_noTags = False, fx_matches = True\<rparr>,
     \<lparr>fx_label = ''absent-field'', fx_tags = [], fx_noTags = True, fx_matches = True\<rparr>]"

definition countFilterNotMatches :: "filterNotFixtureEntry list \<Rightarrow> nat" where
  "countFilterNotMatches fixture = foldl (\<lambda>n f. if fx_matches f then n + 1 else n) 0 fixture"

definition filterNotMatchN :: nat where "filterNotMatchN = countFilterNotMatches filterNotFixture"

definition filterNotModel :: string where "filterNotModel = ''filter-not''"

definition seedFilterNotEntities :: "string list \<Rightarrow> json Entity list" where
  "seedFilterNotEntities ids =
     map (\<lambda>(i, f). newEntity filterNotModel i
            ((''label'', JString (fx_label f))
              # (if fx_noTags f then [] else [(''tags'', JArray (map JString (fx_tags f)))])))
       (zip ids filterNotFixture)"

definition filterNotTagsFilter :: filter where
  "filterNotTagsFilter = tree_filter FilterNot [string_leaf_filter FilterEq ''tags[*]'' ''red'']"

definition malformedFilterNotZeroChildren :: filter where
  "malformedFilterNotZeroChildren = tree_filter FilterNot []"

definition malformedFilterNotTwoChildren :: filter where
  "malformedFilterNotTwoChildren =
     tree_filter FilterNot [wellFormedPathFilter SourceData ''label'', wellFormedPathFilter SourceData ''label'']"

definition runFilterNotConformance :: "(filter \<Rightarrow> answer) \<Rightarrow> bool" where
  "runFilterNotConformance exec \<longleftrightarrow>
     (let (got, err) = exec filterNotTagsFilter in
        err = None \<and> length got = filterNotMatchN
        \<and> list_all (\<lambda>e. case entityDataString e ''label'' of None \<Rightarrow> False | Some l \<Rightarrow> l \<noteq> ''contains-red'') got)
     \<and> refused_as (exec malformedFilterNotZeroChildren) ErrUnevaluableLeaf
     \<and> refused_as (exec malformedFilterNotTwoChildren) ErrUnevaluableLeaf"

subsection \<open>Patterns\<close>

definition patternModel :: string where "patternModel = ''spitest_pattern''"

definition newline :: string where "newline = [CHR 0x0A]"
definition backslash :: string where "backslash = [CHR 0x5C]"

definition patternSeed :: "string list" where
  "patternSeed = [''d'', ''7'', backslash @ ''d'', ''100%'', ''a'' @ backslash @ ''b'', ''a'' @ newline @ ''b'', ''abc'']"

definition seedPatternEntities :: "string list \<Rightarrow> json Entity list" where
  "seedPatternEntities ids =
     map (\<lambda>(i, name). newEntity patternModel i [(''name'', JString name)]) (zip ids patternSeed)"

definition pattern_cases :: "(filter_op \<times> string \<times> string list) list" where
  "pattern_cases =
    [(FilterLike, backslash @ ''d'', [''d'']),
     (FilterLike, ''100'' @ backslash @ ''%'', [''100%'']),
     (FilterLike, ''a'' @ backslash @ backslash @ ''b'', [''a'' @ backslash @ ''b'']),
     (FilterLike, ''a%b'', [''a'' @ newline @ ''b'', ''a'' @ backslash @ ''b'']),
     (FilterLike, ''a_b'', [''a'' @ newline @ ''b'', ''a'' @ backslash @ ''b'']),
     (FilterLike, ''%'', patternSeed),
     (FilterLike, ''bc'', []),
     (FilterLike, ''ABC'', []),
     (FilterMatchesRegex, ''b'', []),
     (FilterMatchesRegex, ''a.b'', [''a'' @ backslash @ ''b''])]"

text \<open>The names of an answer; \<open>None\<close> when the search failed or a row has no name.\<close>

definition searchPatternNames :: "(filter \<Rightarrow> int \<Rightarrow> answer) \<Rightarrow> filter_op \<Rightarrow> string \<Rightarrow> string list option" where
  "searchPatternNames search p operand =
     (case search (string_leaf_filter p ''name'' operand) 1000 of
        (res, None) \<Rightarrow> those (map (\<lambda>e. entityDataString e ''name'') res)
      | (res, Some e) \<Rightarrow> None)"

definition testPatternLikeGrammar :: "(filter \<Rightarrow> int \<Rightarrow> answer) \<Rightarrow> bool" where
  "testPatternLikeGrammar search \<longleftrightarrow>
     list_all (\<lambda>(p, operand, want).
        case searchPatternNames search p operand of None \<Rightarrow> False | Some got \<Rightarrow> mset want = mset got) pattern_cases"

definition testPatternMalformedLike :: "(filter \<Rightarrow> int \<Rightarrow> answer) \<Rightarrow> bool" where
  "testPatternMalformedLike search \<longleftrightarrow>
     list_all (\<lambda>operand. snd (search (string_leaf_filter FilterLike ''name'' operand) 1000) \<noteq> None)
       [''a'' @ backslash, backslash]"

subsection \<open>Streamed reads\<close>

definition testIterableUnorderedYieldsAllMatches :: "(filter \<Rightarrow> answer) \<Rightarrow> bool" where
  "testIterableUnorderedYieldsAllMatches iterate \<longleftrightarrow>
     snd (iterate zero_filter) = None \<and> length (fst (iterate zero_filter)) = length searcherSeedOrder"

definition testIterableResidualAppliedInNext :: "(filter \<Rightarrow> answer) \<Rightarrow> bool" where
  "testIterableResidualAppliedInNext iterate \<longleftrightarrow>
     (let (got, err) = iterate (string_leaf_filter FilterNe ''status'' searcherDecoyValue) in
        err = None \<and> int (length got) = searcherMatchN
        \<and> list_all (\<lambda>e. entityDataString e ''status'' = Some searcherMatchValue) got)"

text \<open>
  The predicates of the tracking reads, and the selection they are held to: over one match and one decoy,
  each hands back exactly the match. What a transaction records of it is the store's.
\<close>

definition trackingReadModel :: string where "trackingReadModel = ''tracking-read''"
definition trackingReadSearchLimit :: int where "trackingReadSearchLimit = 10"

definition trackingReadEqualityFilter :: filter where
  "trackingReadEqualityFilter = string_leaf_filter FilterEq ''status'' searcherMatchValue"

definition trackingReadPredicates :: "(string \<times> filter) list" where
  "trackingReadPredicates =
    [(''Equality'', trackingReadEqualityFilter),
     (''Negated'', tree_filter FilterNot [string_leaf_filter FilterEq ''status'' searcherDecoyValue])]"

definition trackingReadViaIterate :: "(filter \<Rightarrow> answer) \<Rightarrow> filter \<Rightarrow> string list option" where
  "trackingReadViaIterate iterate f =
     (case iterate f of (got, None) \<Rightarrow> Some (entityIDs got) | (got, Some e) \<Rightarrow> None)"

definition trackingReadViaSearch :: "(filter \<Rightarrow> int \<Rightarrow> answer) \<Rightarrow> filter \<Rightarrow> string list option" where
  "trackingReadViaSearch search f =
     (case search f trackingReadSearchLimit of (got, None) \<Rightarrow> Some (entityIDs got) | (got, Some e) \<Rightarrow> None)"

definition seedTrackingRead :: "string \<Rightarrow> string \<Rightarrow> json Entity list" where
  "seedTrackingRead matchID decoyID =
    [newEntity trackingReadModel matchID [(''status'', JString searcherMatchValue)],
     newEntity trackingReadModel decoyID [(''status'', JString searcherDecoyValue)]]"

definition trackingReadSelects :: "(filter \<Rightarrow> string list option) \<Rightarrow> string \<Rightarrow> bool" where
  "trackingReadSelects read matchID \<longleftrightarrow>
     list_all (\<lambda>(name, f). case read f of None \<Rightarrow> False | Some ids \<Rightarrow> mset ids = mset [matchID]) trackingReadPredicates"

subsection \<open>What the interface documents\<close>

text \<open>
  Every path of the tree, whatever operator carries it, is in the grammar; the empty path addresses
  nothing and belongs to tree nodes.
\<close>

fun filter_paths_ok :: "filter \<Rightarrow> bool" where
  "filter_paths_ok (Filter p path src v vs cs co decl) \<longleftrightarrow>
     ValidateFilterPath path = None \<and> (\<forall>c \<in> set cs. filter_paths_ok c)"

text \<open>
  A filter-taking read of the rows \<open>view\<close>: a path outside the grammar is refused as one, what \<open>Prepare\<close>
  cannot evaluate as unevaluable, and otherwise the matching rows come back, in any order. A bounded read
  also refuses a limit below one and a match set over the limit.
\<close>

definition hits :: "'u ext \<Rightarrow> 'u prepared \<Rightarrow> json Entity list \<Rightarrow> json Entity list" where
  "hits ext pf view = filter (\<lambda>e. Match tree_gj ext pf (Data e) (Meta e)) view"

definition answers :: "'u ext \<Rightarrow> json Entity list \<Rightarrow> filter \<Rightarrow> answer \<Rightarrow> bool" where
  "answers ext view f a \<longleftrightarrow>
     (if \<not> filter_paths_ok f then refused_as a ErrInvalidFilterPath
      else (case Prepare ext f of
              Inl e \<Rightarrow> refused_as a ErrUnevaluableLeaf
            | Inr pf \<Rightarrow> snd a = None \<and> mset (fst a) = mset (hits ext pf view)))"

definition answers_bounded :: "'u ext \<Rightarrow> json Entity list \<Rightarrow> filter \<Rightarrow> int \<Rightarrow> answer \<Rightarrow> bool" where
  "answers_bounded ext view f limit a \<longleftrightarrow>
     (if limit \<le> 0 then refused a
      else if filter_paths_ok f \<and> (\<exists>pf. Prepare ext f = Ok pf \<and> limit < int (length (hits ext pf view)))
           then refused_as a ErrSearchResultLimitExceeded
           else answers ext view f a)"

text \<open>\<open>regexp\<close> on the two operands of the suite: a literal, and a wildcard that is any rune but a newline.\<close>

definition dot_between :: "string \<Rightarrow> bool" where
  "dot_between s \<longleftrightarrow> (case runes s of [a, r, b] \<Rightarrow> a = 97 \<and> r \<noteq> 10 \<and> b = 98 | _ \<Rightarrow> False)"

definition regexp_documented :: "'u ext \<Rightarrow> bool" where
  "regexp_documented ext \<longleftrightarrow>
     x_re_parse ext ''b'' = None \<and> x_re_parse ext ''a.b'' = None
     \<and> x_re_compile ext (anchor ''b'') = Some (\<lambda>s. s = ''b'')
     \<and> x_re_compile ext (anchor ''a.b'') = Some dot_between"

subsection \<open>Leaves over a string member\<close>

lemma Match_holds: "Prepare ext f = Ok pf \<Longrightarrow> Op f \<noteq> FilterOpOther [] \<Longrightarrow> Match g ext pf data meta = holds g ext data meta f"
  using prepareNode_match [of ext f _ g data meta] by (auto simp: Prepare_cases Match_def)

lemma prepares_filter_ok: "\<not> filter_ok ext f \<Longrightarrow> sourced f \<Longrightarrow> Op f \<noteq> FilterOpOther [] \<Longrightarrow> \<exists>e. Prepare ext f = Err e"
  using prepareNode_ok [of f ext] by (auto simp: Prepare_def split: sum.splits)

lemma member_addressed: "addressed tree_gj [\<lparr>Name = k, Subs = []\<rparr>] (Some d) = [tree_get (Some d) k]"
  by (cases d) (simp_all add: tree_gj_def member_at_def)

lemma expand_string_compare:
  "leafKindOf p = Some kindCompare \<Longrightarrow>
   ExpandLeaf ext p v [] [String] = Ok ((mk_expansion kindCompare p)\<lparr>e_others := [(String, typed_value.VString v)]\<rparr>)"
  by (simp add: ExpandLeaf_def expandCompare_def bucketDeclared_def ParseStringOrNull_def isTemporalSubtype_def
      IsNumeric_def)

lemma string_compare_leaf:
  assumes "leafKindOf p = Some kindCompare"
  shows "leaf_holds ext (string_leaf_filter p path v) (SString s) = cmpResult (string_compare s v) p"
    "leaf_holds ext (string_leaf_filter p path v) SAbsent = False"
  using assms by (simp_all add: leaf_holds_def string_leaf_filter_def valuesToStrings_def expand_string_compare
      EvalLeaf_def Exists_def evalCompare_def evalOther_def mk_expansion_def)

lemma string_compare_leaf_ok:
  assumes "leafKindOf p = Some kindCompare" "path \<noteq> []" "ValidateFilterPath path = None"
  shows "filter_ok ext (string_leaf_filter p path v)"
proof -
  have "p \<notin> {FilterLike, FilterMatchesRegex, FilterBetween, FilterBetweenInclusive, FilterAnd, FilterOr, FilterNot}"
    using assms(1) by auto
  then show ?thesis
    using assms by (simp add: string_leaf_filter_def leaf_ok_def ValidateOperand_accepts isRange_def scalar_def
        valuesToStrings_def expand_string_compare ValidateLeafPattern_other)
qed


lemma string_pattern_leaf:
  assumes "p \<in> {FilterLike, FilterMatchesRegex}" "compileLeafPattern ext p (GString v) = Ok (Some m)"
  shows "leaf_holds ext (string_leaf_filter p path v) (SString s) = matches m s"
    "path \<noteq> [] \<Longrightarrow> ValidateFilterPath path = None \<Longrightarrow> filter_ok ext (string_leaf_filter p path v)"
  using assms
  by (auto simp: leaf_holds_def string_leaf_filter_def valuesToStrings_def ExpandLeaf_def Let_def EvalLeaf_def Exists_def
      mk_expansion_def evalStringOp_def leaf_ok_def ValidateOperand_accepts isRange_def scalar_def ValidateLeafPattern_def)

text \<open>A leaf or its negation over one member of a payload.\<close>

lemma member_leaf_match:
  assumes "Prepare ext (string_leaf_filter p k v) = Ok pf" "leafKindOf p \<noteq> None"
    and "ParseFilterPath k = Ok [\<lparr>Name = k, Subs = []\<rparr>]"
  shows "Match tree_gj ext pf d m \<longleftrightarrow> leaf_holds ext (string_leaf_filter p k v) (tree_stored (tree_get (Some d) k))"
proof -
  have p: "p \<noteq> FilterAnd" "p \<noteq> FilterOr" "p \<noteq> FilterNot" "p \<noteq> FilterOpOther []" using assms(2) by auto
  have "Match tree_gj ext pf d m = holds tree_gj ext d m (string_leaf_filter p k v)"
    by (rule Match_holds [OF assms(1)]) (simp add: string_leaf_filter_def p)
  then show ?thesis
    using p assms(3) member_addressed [of k d] by (simp add: string_leaf_filter_def leaf_values_def tree_gj_def)
qed

lemma not_match:
  assumes "Prepare ext (tree_filter FilterNot [f]) = Ok pf"
  shows "Match tree_gj ext pf d m \<longleftrightarrow> \<not> holds tree_gj ext d m f"
  using Match_holds [OF assms, of tree_gj d m] by (simp add: tree_filter_def)

subsection \<open>Seeds\<close>

lemma seeds_selected:
  assumes "length ids = length xs" "\<And>i x. x \<in> set xs \<Longrightarrow> P (g (i, x)) = Q x" "\<And>i x. x \<in> set xs \<Longrightarrow> h (g (i, x)) = k x"
  shows "map h (filter P (map g (zip ids xs))) = map k (filter Q xs)"
  using assms by (induction ids xs rule: list_induct2) auto

lemma view_selected:
  assumes "mset view = mset (map g (zip ids xs))" "length ids = length xs"
    and "\<And>i x. x \<in> set xs \<Longrightarrow> P (g (i, x)) = Q x" "\<And>i x. x \<in> set xs \<Longrightarrow> h (g (i, x)) = k x"
  shows "mset (map h (filter P view)) = mset (map k (filter Q xs))"
proof -
  have "mset (map h (filter P view)) = mset (map h (filter P (map g (zip ids xs))))"
    using assms(1) by (metis mset_filter mset_map)
  then show ?thesis using seeds_selected [OF assms(2), of P g Q h k] assms(3,4) by simp
qed

subsection \<open>Every case passes\<close>

lemmas suite_values = searcherMatchValue_def searcherDecoyValue_def

lemma status_path: "ParseFilterPath ''status'' = Ok [\<lparr>Name = ''status'', Subs = []\<rparr>]" by code_simp

lemma name_path: "ParseFilterPath ''name'' = Ok [\<lparr>Name = ''name'', Subs = []\<rparr>]" by code_simp

lemma member_path_ok: "ParseFilterPath k = Ok hops \<Longrightarrow> ValidateFilterPath k = None"
  by (simp add: ValidateFilterPath_def)

lemma seed_member: "tree_get (Some (Data (newEntity m i [(k, JString x)]))) k = Some (JString x)"
  by (simp add: newEntity_def canon.simps(2))

lemma status_leaf: "leafKindOf p = Some kindCompare \<Longrightarrow>
    filter_paths_ok (string_leaf_filter p ''status'' v)
    \<and> (\<exists>pf. Prepare ext (string_leaf_filter p ''status'' v) = Ok pf
        \<and> (\<forall>m i x. Match tree_gj ext pf (Data (newEntity m i [(''status'', JString x)])) (Meta (newEntity m i [(''status'', JString x)]))
              = cmpResult (string_compare x v) p))"
proof -
  assume k: "leafKindOf p = Some kindCompare"
  obtain pf where pf: "Prepare ext (string_leaf_filter p ''status'' v) = Ok pf"
    using filter_ok_prepares [OF string_compare_leaf_ok [OF k _ member_path_ok [OF status_path]]] by auto
  have "Match tree_gj ext pf (Data (newEntity m i [(''status'', JString x)])) mt = cmpResult (string_compare x v) p" for m i x mt
    using member_leaf_match [OF pf _ status_path, of "Data (newEntity m i [(''status'', JString x)])" mt] k
    by (simp add: seed_member string_compare_leaf(1) [OF k])
  then show ?thesis using pf member_path_ok [OF status_path] by (auto simp: string_leaf_filter_def)
qed

lemma status_hits:
  assumes "mset view = mset (seedSearcherEntities ids order)" "length ids = length order"
    and "\<forall>m i x. Match tree_gj ext pf (Data (newEntity m i [(''status'', JString x)])) (Meta (newEntity m i [(''status'', JString x)])) = Q x"
  shows "length (hits ext pf view)
      = length (filter (\<lambda>b. Q (if b then searcherMatchValue else searcherDecoyValue)) order)"
    "mset (map (\<lambda>e. entityDataString e ''status'') (hits ext pf view))
      = mset (map (\<lambda>b. Some (if b then searcherMatchValue else searcherDecoyValue))
          (filter (\<lambda>b. Q (if b then searcherMatchValue else searcherDecoyValue)) order))"
proof -
  show m: "mset (map (\<lambda>e. entityDataString e ''status'') (hits ext pf view))
      = mset (map (\<lambda>b. Some (if b then searcherMatchValue else searcherDecoyValue))
          (filter (\<lambda>b. Q (if b then searcherMatchValue else searcherDecoyValue)) order))"
    unfolding hits_def
    by (rule view_selected [OF assms(1) [unfolded seedSearcherEntities_def] assms(2)])
      (simp_all add: assms(3) entityDataString_def seed_member)
  show "length (hits ext pf view)
      = length (filter (\<lambda>b. Q (if b then searcherMatchValue else searcherDecoyValue)) order)"
    using mset_eq_length [OF m] by simp
qed

lemma bounded_passes:
  assumes doc: "\<And>limit. answers_bounded ext view status_filter limit (search limit)"
    and seeds: "mset view = mset (seedSearcherEntities ids searcherSeedOrder)" "length ids = length searcherSeedOrder"
  shows "searcherBoundedOrFail search"
proof -
  have k: "leafKindOf FilterEq = Some kindCompare" by simp
  obtain pf where ok: "filter_paths_ok status_filter" and pf: "Prepare ext status_filter = Ok pf"
    and m: "\<forall>m i x. Match tree_gj ext pf (Data (newEntity m i [(''status'', JString x)])) (Meta (newEntity m i [(''status'', JString x)]))
        = cmpResult (string_compare x searcherMatchValue) FilterEq"
    using status_leaf [OF k, of searcherMatchValue ext] unfolding status_filter_def by blast
  have n: "searcherMatchN = 5" by code_simp
  have five: "length (filter (\<lambda>b. cmpResult (string_compare (if b then searcherMatchValue else searcherDecoyValue) searcherMatchValue) FilterEq)
      searcherSeedOrder) = 5" by code_simp
  have h: "length (hits ext pf view) = 5" using status_hits(1) [OF seeds m] five by simp
  have "snd (search 5) = None" "length (fst (search 5)) = 5"
    using doc [of 5] ok pf h by (auto simp: answers_bounded_def answers_def dest!: arg_cong [of "mset _" _ size])
  then show ?thesis
    using doc [of 4] doc [of 0] doc [of "-1"] ok pf h by (simp add: searcherBoundedOrFail_def n answers_bounded_def)
qed

lemma residual_passes:
  assumes doc: "\<And>f. answers ext view f (iterate f)"
    and seeds: "mset view = mset (seedSearcherEntities ids searcherSeedOrder)" "length ids = length searcherSeedOrder"
  shows "testIterableUnorderedYieldsAllMatches iterate \<and> testIterableResidualAppliedInNext iterate"
proof -
  have len: "length view = length searcherSeedOrder"
    using arg_cong [OF seeds(1), of size] seeds(2) by (simp add: seedSearcherEntities_def)
  have z: "filter_paths_ok zero_filter" "Prepare ext zero_filter = Ok None"
    by (simp_all add: zero_filter_def Prepare_def ValidateFilterPath_def ParseFilterPath_def)
  have "snd (iterate zero_filter) = None" "mset (fst (iterate zero_filter)) = mset view"
    using doc [of zero_filter] z by (simp_all add: answers_def hits_def Match_def)
  then have all: "testIterableUnorderedYieldsAllMatches iterate"
    using len by (auto simp: testIterableUnorderedYieldsAllMatches_def dest!: arg_cong [of "mset _" _ size])
  let ?f = "string_leaf_filter FilterNe ''status'' searcherDecoyValue"
  have k: "leafKindOf FilterNe = Some kindCompare" by simp
  obtain pf where ok: "filter_paths_ok ?f" and pf: "Prepare ext ?f = Ok pf"
    and m: "\<forall>m i x. Match tree_gj ext pf (Data (newEntity m i [(''status'', JString x)])) (Meta (newEntity m i [(''status'', JString x)]))
        = cmpResult (string_compare x searcherDecoyValue) FilterNe"
    using status_leaf [OF k, of searcherDecoyValue ext] by blast
  have five: "map (\<lambda>b. Some (if b then searcherMatchValue else searcherDecoyValue))
      (filter (\<lambda>b. cmpResult (string_compare (if b then searcherMatchValue else searcherDecoyValue) searcherDecoyValue) FilterNe)
        searcherSeedOrder) = replicate 5 (Some searcherMatchValue)" by code_simp
  have it: "snd (iterate ?f) = None" "mset (fst (iterate ?f)) = mset (hits ext pf view)"
    using doc [of ?f] ok pf by (simp_all add: answers_def)
  have "mset (map (\<lambda>e. entityDataString e ''status'') (fst (iterate ?f)))
      = mset (map (\<lambda>e. entityDataString e ''status'') (hits ext pf view))"
    using it(2) by simp
  also have "\<dots> = mset (replicate 5 (Some searcherMatchValue))"
    using status_hits(2) [OF seeds m] unfolding five .
  finally have rep: "mset (map (\<lambda>e. entityDataString e ''status'') (fst (iterate ?f))) = mset (replicate 5 (Some searcherMatchValue))" .
  have "set (map (\<lambda>e. entityDataString e ''status'') (fst (iterate ?f))) \<subseteq> {Some searcherMatchValue}"
    using mset_eq_setD [OF rep] by simp
  moreover have "length (fst (iterate ?f)) = 5" using mset_eq_length [OF rep] by simp
  moreover have n: "searcherMatchN = 5" by code_simp
  ultimately have "testIterableResidualAppliedInNext iterate"
    using it(1) by (auto simp: testIterableResidualAppliedInNext_def list_all_iff image_subset_iff split: prod.split)
  with all show ?thesis ..
qed

lemma grammar_rejects: "path \<in> set filterPathRejects \<Longrightarrow> ValidateFilterPath path \<noteq> None"
proof -
  have "list_all (\<lambda>path. ValidateFilterPath path \<noteq> None) filterPathRejects" by code_simp
  then show "path \<in> set filterPathRejects \<Longrightarrow> ValidateFilterPath path \<noteq> None" by (simp add: list_all_iff)
qed

lemma grammar_accepts:
  "path \<in> set filterPathAcceptsData \<Longrightarrow> path \<noteq> [] \<and> ValidateFilterPath path = None"
  "path \<in> set filterPathAcceptsMeta \<Longrightarrow> ValidateFilterPath path = None \<and> isRecognizedMetaPath path"
proof -
  have "list_all (\<lambda>path. path \<noteq> [] \<and> ValidateFilterPath path = None) filterPathAcceptsData"
    "list_all (\<lambda>path. ValidateFilterPath path = None \<and> isRecognizedMetaPath path) filterPathAcceptsMeta"
    by code_simp+
  then show "path \<in> set filterPathAcceptsData \<Longrightarrow> path \<noteq> [] \<and> ValidateFilterPath path = None"
    "path \<in> set filterPathAcceptsMeta \<Longrightarrow> ValidateFilterPath path = None \<and> isRecognizedMetaPath path"
    by (simp_all add: list_all_iff)
qed

lemma presence_ok:
  assumes "src = SourceData \<and> path \<noteq> [] \<or> src = SourceMeta \<and> isRecognizedMetaPath path" "ValidateFilterPath path = None"
  shows "filter_ok ext (wellFormedPathFilter src path) \<and> filter_paths_ok (wellFormedPathFilter src path)"
  using assms by (auto simp: wellFormedPathFilter_def leaf_ok_def ValidateOperand_accepts isRange_def scalar_def
      valuesToStrings_def ExpandLeaf_def ValidateLeafPattern_other)

lemma malformed_path: "ValidateFilterPath path \<noteq> None \<Longrightarrow> \<not> filter_paths_ok (malformedPathFilter src path)"
  by (simp add: malformedPathFilter_def)

lemma injected_path: "ValidateFilterPath (''foo'' @ quote @ '';x'') \<noteq> None"
  by (rule grammar_rejects) (simp add: filterPathRejects_def)

lemma grammar_passes:
  assumes doc: "\<And>f. answers ext view f (read f)"
  shows "runFilterPathGrammar (\<lambda>f. snd (read f))"
proof -
  have bad: "path_refused (snd (read f))" if "\<not> filter_paths_ok f" for f
    using doc [of f] that by (auto simp: answers_def refused_as_def path_refused_def split: option.splits)
  have good: "snd (read f) = None" if "filter_ok ext f" "filter_paths_ok f" for f
    using doc [of f] filter_ok_prepares [OF that(1)] that(2) by (auto simp: answers_def)
  have tree: "\<not> filter_paths_ok nested" "\<not> filter_paths_ok nestedUnderUnknownBranch" "\<not> filter_paths_ok nestedUnderRealNot"
    using malformed_path [OF injected_path]
    by (simp_all add: nested_def nestedUnderUnknownBranch_def nestedUnderRealNot_def tree_filter_def)
  show ?thesis
    unfolding runFilterPathGrammar_def
  proof (intro conjI ballI)
    show "path_refused (snd (read (malformedPathFilter src path)))" if "path \<in> set filterPathRejects" for src path
      by (rule bad [OF malformed_path [OF grammar_rejects [OF that]]])
    show "snd (read (wellFormedPathFilter SourceData path)) = None" if "path \<in> set filterPathAcceptsData" for path
      using presence_ok [of SourceData path ext] grammar_accepts(1) [OF that] good by simp
    show "snd (read (wellFormedPathFilter SourceMeta path)) = None" if "path \<in> set filterPathAcceptsMeta" for path
      using presence_ok [of SourceMeta path ext] grammar_accepts(2) [OF that] good by simp
  qed (rule bad [OF tree(1)], rule bad [OF tree(2)], rule bad [OF tree(3)])
qed

text \<open>The elements a wildcard addresses in the payloads of the negation fixture.\<close>

lemma tags_path: "ParseFilterPath ''tags[*]'' = Ok [\<lparr>Name = ''tags'', Subs = [Wildcard]\<rparr>]" by code_simp

definition fx_payload :: "filterNotFixtureEntry \<Rightarrow> (string \<times> json) list" where
  "fx_payload f = (''label'', JString (fx_label f))
     # (if fx_noTags f then [] else [(''tags'', JArray (map JString (fx_tags f)))])"

lemma fx_data:
  "f \<in> set filterNotFixture \<Longrightarrow>
    addressed tree_gj [\<lparr>Name = ''tags'', Subs = [Wildcard]\<rparr>] (Some (canon (JObject (fx_payload f))))
      = (if fx_noTags f then [] else map (\<lambda>s. Some (JString s)) (fx_tags f))
    \<and> tree_get (Some (canon (JObject (fx_payload f)))) ''label'' = Some (JString (fx_label f))"
proof -
  have "list_all (\<lambda>f. addressed tree_gj [\<lparr>Name = ''tags'', Subs = [Wildcard]\<rparr>] (Some (canon (JObject (fx_payload f))))
      = (if fx_noTags f then [] else map (\<lambda>s. Some (JString s)) (fx_tags f))
    \<and> tree_get (Some (canon (JObject (fx_payload f)))) ''label'' = Some (JString (fx_label f))) filterNotFixture"
    by code_simp
  then show "f \<in> set filterNotFixture \<Longrightarrow> ?thesis" by (simp add: list_all_iff)
qed

lemma tags_holds:
  "holds tree_gj ext d m (string_leaf_filter p ''tags[*]'' v) \<longleftrightarrow>
    (\<exists>r \<in> set (addressed tree_gj [\<lparr>Name = ''tags'', Subs = [Wildcard]\<rparr>] (Some d)).
       leaf_holds ext (string_leaf_filter p ''tags[*]'' v) (tree_stored r))" if "leafKindOf p \<noteq> None"
proof -
  have "p \<noteq> FilterAnd" "p \<noteq> FilterOr" "p \<noteq> FilterNot" using that by auto
  then show ?thesis using tags_path by (auto simp: string_leaf_filter_def leaf_values_def tree_gj_def)
qed

lemma filter_not_passes:
  assumes doc: "\<And>f. answers ext view f (read f)"
    and seeds: "mset view = mset (seedFilterNotEntities ids)" "length ids = length filterNotFixture"
  shows "runFilterNotConformance read"
proof -
  let ?leaf = "string_leaf_filter FilterEq ''tags[*]'' ''red''"
  let ?seed = "\<lambda>(i, f). newEntity filterNotModel i (fx_payload f)"
  let ?red = "\<lambda>f. \<not> fx_noTags f \<and> ''red'' \<in> set (fx_tags f)"
  have k: "leafKindOf FilterEq = Some kindCompare" by simp
  have ok: "filter_ok ext filterNotTagsFilter" "filter_paths_ok filterNotTagsFilter"
    using string_compare_leaf_ok [OF k _ member_path_ok [OF tags_path], of ext "''red''"] member_path_ok [OF tags_path]
    by (simp_all add: filterNotTagsFilter_def tree_filter_def string_leaf_filter_def ValidateFilterPath_def [of "[]"] ParseFilterPath_def [of "[]"])
  obtain pf where pf: "Prepare ext filterNotTagsFilter = Ok pf" using filter_ok_prepares [OF ok(1)] by blast
  have red: "cmpResult (string_compare s ''red'') FilterEq \<longleftrightarrow> s = ''red''" if "s \<in> {''red'', ''blue'', ''green''}" for s
    using that by auto
  have tags: "set (fx_tags f) \<subseteq> {''red'', ''blue'', ''green''}" if "f \<in> set filterNotFixture" for f
    using that by (auto simp: filterNotFixture_def)
  have hit: "Match tree_gj ext pf (Data (?seed (i, f))) (Meta (?seed (i, f))) = (\<not> ?red f)" if f: "f \<in> set filterNotFixture" for i f
  proof -
    have "holds tree_gj ext (Data (?seed (i, f))) m ?leaf \<longleftrightarrow>
        \<not> fx_noTags f \<and> (\<exists>s \<in> set (fx_tags f). cmpResult (string_compare s ''red'') FilterEq)" for m
    proof -
      have d: "Data (?seed (i, f)) = canon (JObject (fx_payload f))" by (simp add: newEntity_def)
      have eq: "leafKindOf FilterEq \<noteq> None" by simp
      show ?thesis unfolding tags_holds [OF eq] d conjunct1 [OF fx_data [OF f]]
        by (simp add: string_compare_leaf(1) [OF k])
    qed
    then show ?thesis
      using not_match [OF pf [unfolded filterNotTagsFilter_def]] red tags [OF f] by fastforce
  qed
  have seed: "seedFilterNotEntities ids = map ?seed (zip ids filterNotFixture)"
    by (simp add: seedFilterNotEntities_def fx_payload_def)
  have labels: "mset (map (\<lambda>e. entityDataString e ''label'') (hits ext pf view))
      = mset (map (\<lambda>f. Some (fx_label f)) (filter (\<lambda>f. \<not> ?red f) filterNotFixture))"
    unfolding hits_def
  proof (rule view_selected [OF seeds(1) [unfolded seed] seeds(2)])
    show "Match tree_gj ext pf (Data (?seed (i, f))) (Meta (?seed (i, f))) = (\<not> ?red f)" if "f \<in> set filterNotFixture" for i f
      by (rule hit [OF that])
    show "entityDataString (?seed (i, f)) ''label'' = Some (fx_label f)" if "f \<in> set filterNotFixture" for i f
      using fx_data [OF that] by (simp add: entityDataString_def newEntity_def)
  qed
  have three: "map (\<lambda>f. Some (fx_label f)) (filter (\<lambda>f. \<not> ?red f) filterNotFixture)
      = map Some [''no-red'', ''empty-array'', ''absent-field'']" by code_simp
  have it: "snd (read filterNotTagsFilter) = None" "mset (fst (read filterNotTagsFilter)) = mset (hits ext pf view)"
    using doc [of filterNotTagsFilter] ok(2) pf by (simp_all add: answers_def)
  then have got: "mset (map (\<lambda>e. entityDataString e ''label'') (fst (read filterNotTagsFilter)))
      = mset (map Some [''no-red'', ''empty-array'', ''absent-field''])"
    using labels unfolding three by simp
  have n: "filterNotMatchN = 3" by code_simp
  have "length (fst (read filterNotTagsFilter)) = 3" using mset_eq_length [OF got] by simp
  moreover have "list_all (\<lambda>e. case entityDataString e ''label'' of None \<Rightarrow> False | Some l \<Rightarrow> l \<noteq> ''contains-red'') (fst (read filterNotTagsFilter))"
    unfolding list_all_iff
  proof
    fix e assume "e \<in> set (fst (read filterNotTagsFilter))"
    then have "entityDataString e ''label'' \<in> set (map (\<lambda>e. entityDataString e ''label'') (fst (read filterNotTagsFilter)))"
      by simp
    then show "case entityDataString e ''label'' of None \<Rightarrow> False | Some l \<Rightarrow> l \<noteq> ''contains-red''"
      unfolding mset_eq_setD [OF got] by auto
  qed
  moreover have "refused_as (read malformedFilterNotZeroChildren) ErrUnevaluableLeaf"
    "refused_as (read malformedFilterNotTwoChildren) ErrUnevaluableLeaf"
  proof -
    have bad: "refused_as (read f) ErrUnevaluableLeaf" if "filter_paths_ok f" "Prepare ext f = Err e" for f e
      using doc [of f] that by (simp add: answers_def)
    have p0: "filter_paths_ok malformedFilterNotZeroChildren" by code_simp
    have p2: "filter_paths_ok malformedFilterNotTwoChildren" by code_simp
    have e0: "Prepare ext malformedFilterNotZeroChildren = Err (NotArity 0)"
      by (simp add: malformedFilterNotZeroChildren_def tree_filter_def Prepare_def)
    have e2: "Prepare ext malformedFilterNotTwoChildren = Err (NotArity 2)"
      by (simp add: malformedFilterNotTwoChildren_def tree_filter_def Prepare_def)
    show "refused_as (read malformedFilterNotZeroChildren) ErrUnevaluableLeaf" by (rule bad [OF p0 e0])
    show "refused_as (read malformedFilterNotTwoChildren) ErrUnevaluableLeaf" by (rule bad [OF p2 e2])
  qed
  ultimately show ?thesis using it(1) n by (simp add: runFilterNotConformance_def case_prod_beta)
qed

text \<open>The names each pattern selects from the corpus.\<close>

lemma like_selects:
  "list_all (\<lambda>(p, operand, want). p = FilterLike \<longrightarrow>
      (case parseLikePattern operand of
         Inl e \<Rightarrow> False
       | Inr toks \<Rightarrow> mset (filter (\<lambda>s. like_matches toks s = Some True) patternSeed) = mset want)) pattern_cases"
  unfolding pattern_cases_def by (simp only: list.pred_inject prod.case; intro conjI TrueI; code_simp)

lemma regexp_selects:
  "filter (\<lambda>s. s = ''b'') patternSeed = []" "filter dot_between patternSeed = [''a'' @ backslash @ ''b'']"
  by code_simp+

lemma mset_map_Some: "mset xs = mset (map Some ys) \<Longrightarrow> \<exists>zs. xs = map Some zs \<and> mset zs = mset ys"
proof -
  assume m: "mset xs = mset (map Some ys)"
  have "set xs = Some ` set ys" using mset_eq_setD [OF m] by simp
  then have "map (\<lambda>x. Some (the x)) xs = xs" by (intro map_idI) auto
  then have "xs = map Some (map the xs)" by (simp add: comp_def)
  moreover have "mset (map the xs) = mset ys" using arg_cong [OF m, of "image_mset the"] by (simp add: multiset.map_comp comp_def)
  ultimately show ?thesis by blast
qed

lemma pattern_case:
  assumes doc: "\<And>f. answers_bounded ext view f 1000 (search f 1000)"
    and seeds: "mset view = mset (seedPatternEntities ids)" "length ids = length patternSeed"
    and p: "p \<in> {FilterLike, FilterMatchesRegex}" "compileLeafPattern ext p (GString v) = Ok (Some m)"
    and want: "mset (filter (matches m) patternSeed) = mset want"
  shows "\<exists>got. searchPatternNames search p v = Some got \<and> mset want = mset got"
proof -
  let ?f = "string_leaf_filter p ''name'' v"
  have paths: "filter_paths_ok ?f" "''name'' \<noteq> []"
    using member_path_ok [OF name_path] by (simp_all add: string_leaf_filter_def)
  obtain pf where pf: "Prepare ext ?f = Ok pf"
    using filter_ok_prepares [OF string_pattern_leaf(2) [OF p paths(2) member_path_ok [OF name_path]]] by blast
  have k: "leafKindOf p \<noteq> None" using p(1) by auto
  have names: "mset (map (\<lambda>e. entityDataString e ''name'') (hits ext pf view)) = mset (map Some (filter (matches m) patternSeed))"
    unfolding hits_def
    by (rule view_selected [OF seeds(1) [unfolded seedPatternEntities_def] seeds(2)])
      (simp_all add: member_leaf_match [OF pf k name_path] seed_member string_pattern_leaf(1) [OF p] entityDataString_def)
  have "length (hits ext pf view) \<le> length patternSeed" using mset_eq_length [OF names] by simp
  then have few: "\<not> 1000 < int (length (hits ext pf view))" by (simp add: patternSeed_def)
  have a: "snd (search ?f 1000) = None" "mset (fst (search ?f 1000)) = mset (hits ext pf view)"
    using doc [of ?f] paths(1) pf few by (simp_all add: answers_bounded_def answers_def)
  have got: "mset (map (\<lambda>e. entityDataString e ''name'') (fst (search ?f 1000))) = mset (map Some want)"
    using a(2) names want by (metis mset_map)
  have those_Some: "those (map g es) = Some xs" if "map g es = map Some xs" for g :: "json Entity \<Rightarrow> string option" and es xs
    using that by (induction es arbitrary: xs) auto
  from got obtain ns where ns: "map (\<lambda>e. entityDataString e ''name'') (fst (search ?f 1000)) = map Some ns" "mset ns = mset want"
    using mset_map_Some by blast
  then show ?thesis using a(1) those_Some [OF ns(1)] by (simp add: searchPatternNames_def case_prod_beta)
qed

lemma pattern_passes:
  assumes doc: "\<And>f. answers_bounded ext view f 1000 (search f 1000)"
    and seeds: "mset view = mset (seedPatternEntities ids)" "length ids = length patternSeed"
    and re: "regexp_documented ext"
  shows "testPatternLikeGrammar search \<and> testPatternMalformedLike search"
proof
  have pass: "\<exists>got. searchPatternNames search p v = Some got \<and> mset want = mset got"
    if mem: "(p, v, want) \<in> set pattern_cases" for p v want
  proof (cases "p = FilterLike")
    case True
    with bspec [OF like_selects [unfolded list_all_iff] mem]
    obtain toks where "parseLikePattern v = Ok toks" "mset (filter (\<lambda>s. like_matches toks s = Some True) patternSeed) = mset want"
      by (auto split: sum.splits)
    then show ?thesis
      using pattern_case [where search = search, OF doc seeds, of p v "LikeMatcher toks" want] True
      by (simp add: compileLeafPattern_def)
  next
    case False
    then have "p = FilterMatchesRegex \<and> (v = ''b'' \<and> want = [] \<or> v = ''a.b'' \<and> want = [''a'' @ backslash @ ''b''])"
      using mem by (auto simp: pattern_cases_def)
    then have "\<exists>m. compileLeafPattern ext p (GString v) = Ok (Some (RegexMatcher m)) \<and> filter m patternSeed = want"
      using re regexp_selects by (auto simp: compileLeafPattern_def compileMatchesPattern_def regexp_documented_def)
    then obtain m where m: "compileLeafPattern ext p (GString v) = Ok (Some (RegexMatcher m))" "filter m patternSeed = want" by blast
    have "p \<in> {FilterLike, FilterMatchesRegex}" using False mem by (auto simp: pattern_cases_def)
    moreover have "mset (filter (matches (RegexMatcher m)) patternSeed) = mset want" unfolding m(2) [symmetric] by simp
    ultimately show ?thesis
      using pattern_case [where search = search, OF doc seeds _ m(1), of want] by blast
  qed
  show "testPatternLikeGrammar search"
    unfolding testPatternLikeGrammar_def list_all_iff using pass by fastforce
  have bad: "snd (search (string_leaf_filter FilterLike ''name'' v) 1000) \<noteq> None" if "parseLikePattern v = Err e" for v e
  proof -
    let ?f = "string_leaf_filter FilterLike ''name'' v"
    have "filter_paths_ok ?f" using member_path_ok [OF name_path] by (simp add: string_leaf_filter_def)
    moreover have "\<not> filter_ok ext ?f"
      using that by (simp add: string_leaf_filter_def leaf_ok_def ValidateLeafPattern_def compileLeafPattern_def
          split: like_error.splits)
    then obtain pe where "Prepare ext ?f = Err pe" using prepares_filter_ok [of ext ?f] by (auto simp: string_leaf_filter_def)
    ultimately show ?thesis using doc [of ?f] by (auto simp: answers_bounded_def answers_def refused_as_def split: option.splits)
  qed
  have e: "parseLikePattern (''a'' @ backslash) = Err (UnpairedEscape 1)" "parseLikePattern backslash = Err (UnpairedEscape 0)"
    by code_simp+
  show "testPatternMalformedLike search"
    unfolding testPatternMalformedLike_def list.pred_inject using bad [OF e(1)] bad [OF e(2)] by simp
qed

lemma status_holds: "leafKindOf p = Some kindCompare \<Longrightarrow>
    holds tree_gj ext (Data (newEntity m i [(''status'', JString x)])) (Meta (newEntity m i [(''status'', JString x)]))
      (string_leaf_filter p ''status'' v) = cmpResult (string_compare x v) p"
proof -
  assume k: "leafKindOf p = Some kindCompare"
  then have "p \<noteq> FilterOpOther []" by auto
  then show ?thesis using status_leaf [OF k, of v ext] Match_holds [of ext "string_leaf_filter p ''status'' v"]
    by (fastforce simp: string_leaf_filter_def)
qed

lemma tracking_predicate:
  assumes "(name, f) \<in> set trackingReadPredicates"
  shows "filter_paths_ok f \<and> (\<exists>pf. Prepare ext f = Ok pf
      \<and> filter (\<lambda>e. Match tree_gj ext pf (Data e) (Meta e)) (seedTrackingRead m d)
        = [newEntity trackingReadModel m [(''status'', JString searcherMatchValue)]])"
proof -
  have k: "leafKindOf FilterEq = Some kindCompare" by simp
  let ?leaf = "string_leaf_filter FilterEq ''status'' searcherDecoyValue"
  let ?sel = "\<lambda>f. \<exists>pf. Prepare ext f = Ok pf \<and> filter (\<lambda>e. Match tree_gj ext pf (Data e) (Meta e)) (seedTrackingRead m d)
      = [newEntity trackingReadModel m [(''status'', JString searcherMatchValue)]]"
  have "?sel trackingReadEqualityFilter"
  proof -
    obtain pf where "Prepare ext trackingReadEqualityFilter = Ok pf"
      and "\<forall>m i x. Match tree_gj ext pf (Data (newEntity m i [(''status'', JString x)])) (Meta (newEntity m i [(''status'', JString x)]))
        = cmpResult (string_compare x searcherMatchValue) FilterEq"
      using status_leaf [OF k, of searcherMatchValue ext] unfolding trackingReadEqualityFilter_def by blast
    then show ?thesis by (simp add: seedTrackingRead_def suite_values)
  qed
  moreover have "?sel (tree_filter FilterNot [?leaf])"
  proof -
    have "filter_ok ext (tree_filter FilterNot [?leaf])"
      using string_compare_leaf_ok [OF k _ member_path_ok [OF status_path]] by (simp add: tree_filter_def)
    from filter_ok_prepares [OF this] obtain pf where pf: "Prepare ext (tree_filter FilterNot [?leaf]) = Ok pf" ..
    then show ?thesis
      by (auto simp: not_match [OF pf] status_holds [OF k] seedTrackingRead_def suite_values)
  qed
  moreover have "filter_paths_ok trackingReadEqualityFilter" "filter_paths_ok (tree_filter FilterNot [?leaf])" by code_simp+
  ultimately show ?thesis using assms by (auto simp: trackingReadPredicates_def)
qed

lemma tracking_passes:
  assumes doc: "\<And>f limit. answers_bounded ext view f limit (search f limit)" "\<And>f. answers ext view f (iterate f)"
    and seeds: "mset view = mset (seedTrackingRead m d)"
  shows "trackingReadSelects (trackingReadViaIterate iterate) m \<and> trackingReadSelects (trackingReadViaSearch search) m"
proof -
  have pass: "(\<exists>ids. trackingReadViaIterate iterate f = Some ids \<and> mset ids = mset [m])
      \<and> (\<exists>ids. trackingReadViaSearch search f = Some ids \<and> mset ids = mset [m])"
    if mem: "(name, f) \<in> set trackingReadPredicates" for name f
  proof -
    obtain pf where ok: "filter_paths_ok f" and pf: "Prepare ext f = Ok pf"
      and sel: "filter (\<lambda>e. Match tree_gj ext pf (Data e) (Meta e)) (seedTrackingRead m d)
        = [newEntity trackingReadModel m [(''status'', JString searcherMatchValue)]]"
      using tracking_predicate [OF mem, of ext m d] by blast
    have h: "mset (hits ext pf view) = mset [newEntity trackingReadModel m [(''status'', JString searcherMatchValue)]]"
      unfolding hits_def by (simp only: mset_filter seeds flip: sel)
    have n: "length (hits ext pf view) = 1" using mset_eq_length [OF h] by simp
    have ids: "mset (entityIDs (fst a)) = mset [m]" if "mset (fst a) = mset (hits ext pf view)" for a :: answer
      using that h by (simp add: entityIDs_def newEntity_def)
    have it: "snd (iterate f) = None" "mset (fst (iterate f)) = mset (hits ext pf view)"
      using doc(2) [of f] ok pf by (simp_all add: answers_def)
    have se: "snd (search f 10) = None" "mset (fst (search f 10)) = mset (hits ext pf view)"
      using doc(1) [of f 10] ok pf n by (simp_all add: answers_bounded_def answers_def)
    show ?thesis using it(1) se(1) ids [OF it(2)] ids [OF se(2)]
      by (simp add: trackingReadViaIterate_def trackingReadViaSearch_def trackingReadSearchLimit_def case_prod_beta)
  qed
  then show ?thesis unfolding trackingReadSelects_def list_all_iff by fastforce
qed

subsection \<open>Stores\<close>

text \<open>
  The cases that assert a selection, over one store, every fixture seeded under the ids it drew: \<open>BoundedOrFail\<close>,
  \<open>FilterPath/Grammar\<close>, \<open>FilterNot\<close>, \<open>Pattern/LikeGrammar\<close> and \<open>Pattern/MalformedLike\<close> through \<open>Search\<close>;
  \<open>Unordered/YieldsAllMatches\<close>, \<open>Residual/AppliedInNext\<close>, \<open>FilterPath/Grammar\<close> and \<open>FilterNot\<close> through \<open>Iterate\<close>;
  and the rows the \<open>TrackingRead\<close> cases read through either.
\<close>

definition selection_cases ::
  "(json Entity list \<Rightarrow> filter \<Rightarrow> int \<Rightarrow> answer) \<Rightarrow> (json Entity list \<Rightarrow> filter \<Rightarrow> answer) \<Rightarrow>
   string list \<Rightarrow> string list \<Rightarrow> string list \<Rightarrow> string \<Rightarrow> string \<Rightarrow> bool" where
  "selection_cases search iterate searcherIDs notIDs patternIDs matchID decoyID \<longleftrightarrow>
     (let bounded = seedSearcherEntities searcherIDs searcherSeedOrder; negation = seedFilterNotEntities notIDs;
          corpus = seedPatternEntities patternIDs; tracked = seedTrackingRead matchID decoyID in
      searcherBoundedOrFail (search bounded status_filter)
      \<and> testIterableUnorderedYieldsAllMatches (iterate bounded) \<and> testIterableResidualAppliedInNext (iterate bounded)
      \<and> runFilterPathGrammar (\<lambda>f. snd (search bounded f 1000)) \<and> runFilterPathGrammar (\<lambda>f. snd (iterate bounded f))
      \<and> runFilterNotConformance (\<lambda>f. search negation f 1000) \<and> runFilterNotConformance (iterate negation)
      \<and> testPatternLikeGrammar (search corpus) \<and> testPatternMalformedLike (search corpus)
      \<and> trackingReadSelects (trackingReadViaIterate (iterate tracked)) matchID
      \<and> trackingReadSelects (trackingReadViaSearch (search tracked)) matchID)"

text \<open>A store that scans its rows with the shared kernel: it is one of those the suite accepts.\<close>

definition kernel_iterate :: "'u ext \<Rightarrow> json Entity list \<Rightarrow> filter \<Rightarrow> answer" where
  "kernel_iterate ext view f =
     (if \<not> filter_paths_ok f then ([], Some (Errorf [Sentinel ErrInvalidFilterPath]))
      else (case Prepare ext f of
              Inl e \<Rightarrow> ([], Some (Errorf [Sentinel ErrUnevaluableLeaf]))
            | Inr pf \<Rightarrow> (hits ext pf view, None)))"

definition kernel_search :: "'u ext \<Rightarrow> json Entity list \<Rightarrow> filter \<Rightarrow> int \<Rightarrow> answer" where
  "kernel_search ext view f limit =
     (if limit \<le> 0 then ([], Some (Errorf []))
      else (let (got, err) = kernel_iterate ext view f in
            if err = None \<and> limit < int (length got) then ([], Some (Errorf [Sentinel ErrSearchResultLimitExceeded]))
            else (got, err)))"

lemma kernel_iterate_answers: "answers ext view f (kernel_iterate ext view f)"
  by (simp add: answers_def kernel_iterate_def refused_as_def sentinel_Is_iff split: sum.split)

lemma kernel_search_answers: "answers_bounded ext view f limit (kernel_search ext view f limit)"
  using kernel_iterate_answers [of ext view f]
  by (auto simp: answers_bounded_def kernel_search_def kernel_iterate_def refused_def refused_as_def sentinel_Is_iff
      answers_def Let_def split: sum.splits)

lemma few_rows: "length view < 1000 \<Longrightarrow> answers_bounded ext view f 1000 a \<Longrightarrow> answers ext view f a"
proof -
  assume n: "length view < 1000" and a: "answers_bounded ext view f 1000 a"
  have "length (hits ext pf view) \<le> length view" for pf by (simp add: hits_def)
  then have "\<not> 1000 < int (length (hits ext pf view))" for pf using n by (metis int_ops(3) le_less_trans not_less_iff_gr_or_eq of_nat_less_iff of_nat_numeral)
  then show "answers ext view f a" using a by (simp add: answers_bounded_def)
qed

text \<open>The faults the fixtures are built against: a page cut at the limit, a bound on the rows scanned, a negated
  leaf read as the leaf with the opposite operator, and a backend that leaves path refusals to \<open>Prepare\<close>.\<close>

definition scan_search :: "'u ext \<Rightarrow> json Entity list \<Rightarrow> filter \<Rightarrow> int \<Rightarrow> answer" where
  "scan_search ext view f limit =
     (case kernel_search ext view f limit of
        (got, None) \<Rightarrow> kernel_iterate ext (take (nat limit) view) f
      | refusal \<Rightarrow> refusal)"

definition cut_search :: "'u ext \<Rightarrow> json Entity list \<Rightarrow> filter \<Rightarrow> int \<Rightarrow> answer" where
  "cut_search ext view f limit =
     (if limit \<le> 0 then ([], Some (Errorf []))
      else (let (got, err) = kernel_iterate ext view f in (take (nat limit) got, err)))"

definition prepared_only :: "'u ext \<Rightarrow> filter \<Rightarrow> go_error option" where
  "prepared_only ext f = (case Prepare ext f of Inl e \<Rightarrow> Some (prepare_value e) | Inr pf \<Rightarrow> None)"

fun push_not :: "filter \<Rightarrow> filter" where
  "push_not (Filter p path src v vs cs co decl) =
     (case (p, cs) of
        (FilterNot, [Filter FilterEq path' src' v' vs' cs' co' decl']) \<Rightarrow> Filter FilterNe path' src' v' vs' cs' co' decl'
      | _ \<Rightarrow> Filter p path src v vs cs co decl)"

definition pushed_not :: "'u ext \<Rightarrow> json Entity list \<Rightarrow> filter \<Rightarrow> answer" where
  "pushed_not ext view f = kernel_iterate ext view (push_not f)"

subsection \<open>Properties\<close>

text \<open>C3: a store whose reads answer as the interface documents passes the nine cases of the suite that assert which
  rows a filter selects, and selects what the tracking reads expect, whatever ids the fixtures are given: the
  bound, the path grammar and negation through both entry points, the patterns, the unordered and the residual
  stream. Not among them: point-in-time, ordered, overlay and cancelled reads, a stream's error and close, and
  what the tracking reads assert of the commits that follow.\<close>

theorem search_suite_passes:
  assumes search: "\<And>view f limit. answers_bounded ext view f limit (search view f limit)"
    and iterate: "\<And>view f. answers ext view f (iterate view f)"
    and re: "regexp_documented ext"
    and ids: "length searcherIDs = length searcherSeedOrder" "length notIDs = length filterNotFixture"
      "length patternIDs = length patternSeed"
  shows "selection_cases search iterate searcherIDs notIDs patternIDs matchID decoyID"
proof -
  have small: "length (seedSearcherEntities searcherIDs searcherSeedOrder) < 1000"
    "length (seedFilterNotEntities notIDs) < 1000"
    using ids by (simp_all add: seedSearcherEntities_def seedFilterNotEntities_def searcherSeedOrder_def filterNotFixture_def)
  show ?thesis
    unfolding selection_cases_def Let_def
    by (intro conjI bounded_passes [OF search refl ids(1)] conjunct1 [OF residual_passes [OF iterate refl ids(1)]]
        conjunct2 [OF residual_passes [OF iterate refl ids(1)]] grammar_passes [OF few_rows [OF small(1) search]]
        grammar_passes [OF iterate] filter_not_passes [OF few_rows [OF small(2) search] refl ids(2)]
        filter_not_passes [OF iterate refl ids(2)]
        conjunct1 [OF pattern_passes [where search = "search (seedPatternEntities patternIDs)", OF search refl ids(3) re]] conjunct2 [OF pattern_passes [where search = "search (seedPatternEntities patternIDs)", OF search refl ids(3) re]]
        conjunct1 [OF tracking_passes [OF search iterate refl]] conjunct2 [OF tracking_passes [OF search iterate refl]])
qed

definition suite_ext :: "unit ext" where
  "suite_ext = no_ext\<lparr>x_re_compile := (\<lambda>body. if body = anchor ''b'' then Some (\<lambda>s. s = ''b'')
     else if body = anchor ''a.b'' then Some dot_between else None)\<rparr>"

theorem search_suite_passes_witness:
  "selection_cases (kernel_search suite_ext) (kernel_iterate suite_ext)
     (map (\<lambda>c. [c]) ''1234567'') [''a'', ''b'', ''c'', ''d''] (map (\<lambda>c. [c]) ''tuvwxyz'') ''m'' ''n''"
proof (rule search_suite_passes [where ext = suite_ext, OF kernel_search_answers kernel_iterate_answers])
  show "regexp_documented suite_ext" by (simp add: regexp_documented_def suite_ext_def no_ext_def anchor_def)
qed code_simp+

text \<open>The fixtures are sharp. A backend that cuts the page at the limit fails the bounded case; one that bounds the
  rows it scans fails it too, and would pass if the decoys came last. One that pushes a negation into its leaf
  fails the negation case although it answers the filter without error and refuses both malformed ones as the
  case asks, so what fails is its selection; the shared kernel passes over the same rows. One that leaves
  malformed paths to \<open>Prepare\<close> fails the grammar, for \<open>Prepare\<close> does not refuse them as paths.\<close>

theorem suite_sharp:
  "\<not> searcherBoundedOrFail (cut_search no_ext (seedSearcherEntities (map (\<lambda>c. [c]) ''1234567'') searcherSeedOrder) status_filter)
   \<and> \<not> searcherBoundedOrFail (scan_search no_ext (seedSearcherEntities (map (\<lambda>c. [c]) ''1234567'') searcherSeedOrder) status_filter)
   \<and> searcherBoundedOrFail (scan_search no_ext
         (seedSearcherEntities (map (\<lambda>c. [c]) ''1234567'') [True, True, True, True, True, False, False]) status_filter)
   \<and> \<not> runFilterNotConformance (pushed_not no_ext (seedFilterNotEntities [''a'', ''b'', ''c'', ''d'']))
   \<and> snd (pushed_not no_ext (seedFilterNotEntities [''a'', ''b'', ''c'', ''d'']) filterNotTagsFilter) = None
   \<and> refused_as (pushed_not no_ext (seedFilterNotEntities [''a'', ''b'', ''c'', ''d'']) malformedFilterNotZeroChildren) ErrUnevaluableLeaf
   \<and> refused_as (pushed_not no_ext (seedFilterNotEntities [''a'', ''b'', ''c'', ''d'']) malformedFilterNotTwoChildren) ErrUnevaluableLeaf
   \<and> runFilterNotConformance (kernel_iterate no_ext (seedFilterNotEntities [''a'', ''b'', ''c'', ''d'']))
   \<and> \<not> runFilterPathGrammar (prepared_only no_ext)"
proof (intro conjI)
  let ?neg = "seedFilterNotEntities [''a'', ''b'', ''c'', ''d'']"
  show "\<not> searcherBoundedOrFail (cut_search no_ext (seedSearcherEntities (map (\<lambda>c. [c]) ''1234567'') searcherSeedOrder) status_filter)"
    by code_simp
  show "\<not> searcherBoundedOrFail (scan_search no_ext (seedSearcherEntities (map (\<lambda>c. [c]) ''1234567'') searcherSeedOrder) status_filter)"
    by code_simp
  show "searcherBoundedOrFail (scan_search no_ext
      (seedSearcherEntities (map (\<lambda>c. [c]) ''1234567'') [True, True, True, True, True, False, False]) status_filter)"
    by code_simp
  have two: "map (\<lambda>e. entityDataString e ''label'') (fst (pushed_not no_ext ?neg filterNotTagsFilter)) = map Some [''contains-red'', ''no-red'']"
    by code_simp
  have "length (fst (pushed_not no_ext ?neg filterNotTagsFilter)) = 2" using arg_cong [OF two, of length] by simp
  moreover have "filterNotMatchN = 3" by code_simp
  ultimately show "\<not> runFilterNotConformance (pushed_not no_ext ?neg)" by (auto simp: runFilterNotConformance_def case_prod_beta)
  show "snd (pushed_not no_ext ?neg filterNotTagsFilter) = None" by code_simp
  show "refused_as (pushed_not no_ext ?neg malformedFilterNotZeroChildren) ErrUnevaluableLeaf" by code_simp
  show "refused_as (pushed_not no_ext ?neg malformedFilterNotTwoChildren) ErrUnevaluableLeaf" by code_simp
  show "runFilterNotConformance (kernel_iterate no_ext ?neg)"
    by (rule filter_not_passes [OF kernel_iterate_answers refl]) code_simp
  have "\<not> path_refused (prepared_only no_ext nested)" by code_simp
  then show "\<not> runFilterPathGrammar (prepared_only no_ext)" by (simp add: runFilterPathGrammar_def)
qed

end
