(* ===== verification/Suite_Base.thy ===== *)
theory Suite_Base
  imports Spi_Base
begin

text \<open>
  How the conformance suite drives a store (\<open>spitest/spitest.go\<close>): a case is a sequence of calls, later calls and
  assertions may depend on earlier answers, and the store is a parameter. Results: a case that passes on
  everything an interface allows passes on every store that keeps to the interface; and the register of
  skipped cases reports exactly the keys that named no case.
\<close>

subsection \<open>Cases\<close>

datatype ('c, 'a) test_case = Pass | Fail | Call 'c "'a \<Rightarrow> ('c, 'a) test_case"

definition require :: "bool \<Rightarrow> ('c, 'a) test_case \<Rightarrow> ('c, 'a) test_case" where
  "require ok k = (if ok then k else Fail)"

text \<open>A call whose answer is asserted on and not used again, and a row of them.\<close>

definition expect :: "'c \<Rightarrow> ('a \<Rightarrow> bool) \<Rightarrow> ('c, 'a) test_case \<Rightarrow> ('c, 'a) test_case" where
  "expect c ok k = Call c (\<lambda>a. require (ok a) k)"

definition expect_all :: "('c \<times> ('a \<Rightarrow> bool)) list \<Rightarrow> ('c, 'a) test_case \<Rightarrow> ('c, 'a) test_case" where
  "expect_all steps k = foldr (\<lambda>(c, ok) k. expect c ok k) steps k"

primrec run_case :: "('c \<Rightarrow> 's \<Rightarrow> 'a \<times> 's) \<Rightarrow> ('c, 'a) test_case \<Rightarrow> 's \<Rightarrow> bool" where
  "run_case exec Pass s = True"
| "run_case exec Fail s = False"
| "run_case exec (Call c k) s = run_case exec (k (fst (exec c s))) (snd (exec c s))"

text \<open>
  An interface says which answer and which next state a call may have. A case passes on it when every
  allowed run passes; a store keeps to it when every call does, seen through an abstraction of its state.
\<close>

primrec passes :: "('m \<Rightarrow> 'c \<Rightarrow> 'a \<Rightarrow> 'm \<Rightarrow> bool) \<Rightarrow> ('c, 'a) test_case \<Rightarrow> 'm \<Rightarrow> bool" where
  "passes allows Pass m = True"
| "passes allows Fail m = False"
| "passes allows (Call c k) m = (\<forall>a m'. allows m c a m' \<longrightarrow> passes allows (k a) m')"

definition keeps_to :: "('m \<Rightarrow> 'c \<Rightarrow> 'a \<Rightarrow> 'm \<Rightarrow> bool) \<Rightarrow> ('c \<Rightarrow> 's \<Rightarrow> 'a \<times> 's) \<Rightarrow> ('s \<Rightarrow> 'm) \<Rightarrow> bool" where
  "keeps_to allows exec view \<longleftrightarrow> (\<forall>c s. allows (view s) c (fst (exec c s)) (view (snd (exec c s))))"

lemma passes_run: "keeps_to allows exec view \<Longrightarrow> passes allows t (view s) \<Longrightarrow> run_case exec t s"
  by (induction t arbitrary: s) (auto simp: keeps_to_def)

text \<open>The same for the run of one case, where the interface also says what its surroundings are granted.\<close>

primrec run_keeps :: "('m \<Rightarrow> 'c \<Rightarrow> 'a \<Rightarrow> 'm \<Rightarrow> bool) \<Rightarrow> ('c \<Rightarrow> 's \<Rightarrow> 'a \<times> 's) \<Rightarrow> ('s \<Rightarrow> 'm) \<Rightarrow> ('c, 'a) test_case \<Rightarrow> 's \<Rightarrow> bool" where
  "run_keeps allows exec view Pass s = True"
| "run_keeps allows exec view Fail s = True"
| "run_keeps allows exec view (Call c k) s \<longleftrightarrow>
     allows (view s) c (fst (exec c s)) (view (snd (exec c s)))
     \<and> run_keeps allows exec view (k (fst (exec c s))) (snd (exec c s))"

lemma kept_run: "run_keeps allows exec view t s \<Longrightarrow> passes allows t (view s) \<Longrightarrow> run_case exec t s"
  by (induction t arbitrary: s) auto

text \<open>A case that passes on a simpler interface passes on one that refines it under an invariant.\<close>

lemma passes_refines:
  assumes step: "\<And>m c a m'. ok m \<Longrightarrow> allows m c a m' \<Longrightarrow> simpler (f m) c a (f m') \<and> ok m'"
  shows "ok m \<Longrightarrow> passes simpler t (f m) \<Longrightarrow> passes allows t m"
proof (induction t arbitrary: m)
  case (Call c k)
  have "passes allows (k a) m'" if "allows m c a m'" for a m'
    using Call.IH [of "k a" m'] step [OF Call.prems(1) that] Call.prems(2) by auto
  then show ?case by simp
qed simp_all

lemma passes_require [simp]: "passes allows (require ok k) m \<longleftrightarrow> ok \<and> passes allows k m"
  by (simp add: require_def)

lemma passes_expect [simp]:
  "passes allows (expect c ok k) m \<longleftrightarrow> (\<forall>a m'. allows m c a m' \<longrightarrow> ok a \<and> passes allows k m')"
  by (simp add: expect_def)

lemma passes_expect_all [simp]:
  "passes allows (expect_all [] k) m = passes allows k m"
  "passes allows (expect_all ((c, ok) # steps) k) m \<longleftrightarrow>
     (\<forall>a m'. allows m c a m' \<longrightarrow> ok a \<and> passes allows (expect_all steps k) m')"
  by (simp_all add: expect_all_def)

lemma expect_all_append: "expect_all (xs @ ys) k = expect_all xs (expect_all ys k)"
  by (simp add: expect_all_def)

subsection \<open>Skipped cases\<close>

text \<open>
  The harness gives a map from case paths to reasons; each case looks itself up under its name below the
  root test, and the tracker remembers the hits. \<open>None\<close> is a case that was skipped.
\<close>

type_synonym skip_map = "string \<rightharpoonup> string"

definition case_path :: "string \<Rightarrow> string" where
  "case_path name = (let rest = dropWhile (\<lambda>c. c \<noteq> CHR ''/'') name in if rest = [] then name else tl rest)"

definition recordMatch :: "string \<Rightarrow> string set \<Rightarrow> string set" where
  "recordMatch name matched = insert name matched"

definition skipIfRegistered :: "skip_map \<Rightarrow> string \<Rightarrow> string set \<Rightarrow> bool \<times> string set" where
  "skipIfRegistered skip name matched =
     (let path = case_path name in
      case skip path of None \<Rightarrow> (False, matched) | Some reason \<Rightarrow> (True, recordMatch path matched))"

definition unusedKeys :: "skip_map \<Rightarrow> string set \<Rightarrow> string set" where
  "unusedKeys skip matched = {k \<in> dom skip. k \<notin> matched}"

definition shouldCheckSkipKeys :: "string \<Rightarrow> bool" where
  "shouldCheckSkipKeys runFlag \<longleftrightarrow> runFlag = ''''"

text \<open>The cases of a run in order: which of them ran, and what the tracker holds after.\<close>

definition runSubtest :: "skip_map \<Rightarrow> string list \<times> string set \<Rightarrow> string \<Rightarrow> string list \<times> string set" where
  "runSubtest skip st name =
     (case skipIfRegistered skip name (snd st) of
        (True, matched) \<Rightarrow> (fst st, matched)
      | (False, matched) \<Rightarrow> (fst st @ [name], matched))"

definition run_cases :: "skip_map \<Rightarrow> string list \<Rightarrow> string list \<times> string set" where
  "run_cases skip names = foldl (runSubtest skip) ([], {}) names"

text \<open>The keys an unfiltered or filtered run complains about at its end.\<close>

definition skip_complaints :: "string \<Rightarrow> skip_map \<Rightarrow> string list \<Rightarrow> string set" where
  "skip_complaints runFlag skip names =
     (if shouldCheckSkipKeys runFlag then unusedKeys skip (snd (run_cases skip names)) else {})"

lemma run_cases_spec:
  "run_cases skip names = (filter (\<lambda>n. skip (case_path n) = None) names, case_path ` set names \<inter> dom skip)"
proof -
  have "foldl (runSubtest skip) (ran, matched) names
      = (ran @ filter (\<lambda>n. skip (case_path n) = None) names, matched \<union> (case_path ` set names \<inter> dom skip))" for ran matched
    by (induction names arbitrary: ran matched)
      (auto simp: runSubtest_def skipIfRegistered_def recordMatch_def Let_def split: option.split)
  from this [of "[]" "{}"] show ?thesis by (simp add: run_cases_def)
qed

lemma case_path_below: "CHR ''/'' \<notin> set rootname \<Longrightarrow> case_path (rootname @ CHR ''/'' # path) = path"
  by (simp add: case_path_def dropWhile_append)

text \<open>a run under a skip map leaves out exactly the cases whose path below the root it names, in place; an
  unfiltered run complains about exactly the keys that are the path of no case, a filtered run about none.\<close>

theorem skips_exact:
  assumes "CHR ''/'' \<notin> set rootname"
  shows "fst (run_cases skip (map (\<lambda>p. rootname @ ''/'' @ p) paths)) = map (\<lambda>p. rootname @ ''/'' @ p) (filter (\<lambda>p. skip p = None) paths)
    \<and> skip_complaints runFlag skip (map (\<lambda>p. rootname @ ''/'' @ p) paths) = (if runFlag = [] then dom skip - set paths else {})"
  using case_path_below [OF assms]
  by (auto simp: run_cases_spec skip_complaints_def shouldCheckSkipKeys_def unusedKeys_def filter_map comp_def image_image)

theorem skips_exact_witness:
  "fst (run_cases [''Entity/Delete'' \<mapsto> ''slow'', ''Entity/Delte'' \<mapsto> ''typo''] [''T/Entity/Count'', ''T/Entity/Delete''])
     = [''T/Entity/Count'']
   \<and> skip_complaints '''' [''Entity/Delete'' \<mapsto> ''slow'', ''Entity/Delte'' \<mapsto> ''typo''] [''T/Entity/Count'', ''T/Entity/Delete'']
     = {''Entity/Delte''}"
proof -
  have "CHR ''/'' \<notin> set ''T''" by simp
  note this = skips_exact [OF this, of "[''Entity/Delete'' \<mapsto> ''slow'', ''Entity/Delte'' \<mapsto> ''typo'']" "[''Entity/Count'', ''Entity/Delete'']" "[]"]
  then show ?thesis by (auto split: if_splits)
qed

end
