(* ===== verification/Suite_KeyValue.thy ===== *)
theory Suite_KeyValue
  imports Suite_Base Spi_Errors "HOL-Library.AList"
begin

text \<open>
  The key-value store: the contract \<open>KeyValueStore\<close> of \<open>persistence.go\<close> and the cases of
  \<open>spitest/keyvalue.go\<close>. The store is a parameter; what it promises is stated over the map of its committed
  values. Results: every sequential case passes on every store that keeps the contract and of which no call
  fails; and among racing
  conditional writes at most one is applied, in every interleaving, whichever of them fail with an
  unknown outcome and however late such a write lands.
\<close>

subsection \<open>The contract\<close>

text \<open>A byte slice as an argument: \<open>None\<close> is nil, which is stored and compared as the empty value.\<close>

type_synonym byte_slice = "string option"

definition bytes_of :: "byte_slice \<Rightarrow> string" where
  "bytes_of v = (case v of None \<Rightarrow> [] | Some s \<Rightarrow> s)"

datatype kv_call =
    Put string string byte_slice
  | Get string string
  | Delete string string
  | List string
  | PutIfAbsent string string byte_slice
  | CompareAndPut string string byte_slice byte_slice
  | DeleteIfEqual string string byte_slice

datatype kv_answer = Done | Bytes string | Entries "(string \<times> string) list" | Applied bool | Failed go_error

text \<open>The committed values by tenant, namespace and key.\<close>

type_synonym kv_map = "string \<times> string \<times> string \<rightharpoonup> string"

fun kv_write :: "string \<Rightarrow> kv_call \<Rightarrow> kv_map \<Rightarrow> kv_map" where
  "kv_write tn (Put ns k v) m = m((tn, ns, k) \<mapsto> bytes_of v)"
| "kv_write tn (Get ns k) m = m"
| "kv_write tn (Delete ns k) m = m((tn, ns, k) := None)"
| "kv_write tn (List ns) m = m"
| "kv_write tn (PutIfAbsent ns k v) m =
     (case m (tn, ns, k) of None \<Rightarrow> m((tn, ns, k) \<mapsto> bytes_of v) | Some _ \<Rightarrow> m)"
| "kv_write tn (CompareAndPut ns k expected v) m =
     (if m (tn, ns, k) = Some (bytes_of expected) then m((tn, ns, k) \<mapsto> bytes_of v) else m)"
| "kv_write tn (DeleteIfEqual ns k expected) m =
     (if m (tn, ns, k) = Some (bytes_of expected) then m((tn, ns, k) := None) else m)"

fun not_found :: "kv_answer \<Rightarrow> bool" where
  "not_found (Failed e) = errors_Is e ErrNotFound"
| "not_found _ = False"

fun kv_reply :: "string \<Rightarrow> kv_call \<Rightarrow> kv_map \<Rightarrow> kv_answer \<Rightarrow> bool" where
  "kv_reply tn (Put ns k v) m a = (a = Done)"
| "kv_reply tn (Get ns k) m a = (case m (tn, ns, k) of None \<Rightarrow> not_found a | Some v \<Rightarrow> a = Bytes v)"
| "kv_reply tn (Delete ns k) m a = (a = Done)"
| "kv_reply tn (List ns) m a =
     (case a of Entries es \<Rightarrow> distinct (map fst es) \<and> (\<forall>k. map_of es k = m (tn, ns, k)) | _ \<Rightarrow> False)"
| "kv_reply tn (PutIfAbsent ns k v) m a = (a = Applied (m (tn, ns, k) = None))"
| "kv_reply tn (CompareAndPut ns k expected v) m a = (a = Applied (m (tn, ns, k) = Some (bytes_of expected)))"
| "kv_reply tn (DeleteIfEqual ns k expected) m a = (a = Applied (m (tn, ns, k) = Some (bytes_of expected)))"

text \<open>
  A call carries the tenant of its context and whether the context carries an open transaction, which no
  key-value call joins; beginning and rolling back a transaction leave the values alone.
\<close>

datatype kv_op = KV string bool kv_call | Begin string | Rollback string

definition kv_answered :: "kv_map \<Rightarrow> kv_op \<Rightarrow> kv_answer \<Rightarrow> kv_map \<Rightarrow> bool" where
  "kv_answered m c a m' \<longleftrightarrow>
     (case c of
        KV tn inTx call \<Rightarrow> kv_reply tn call m a \<and> m' = kv_write tn call m
      | Begin tn \<Rightarrow> a = Done \<and> m' = m
      | Rollback tn \<Rightarrow> a = Done \<and> m' = m)"

text \<open>
  The whole contract: a call may also fail, and then its outcome is unknown; its write may be there when the
  call returns or not. (That it may still land afterwards is said with the races below.)
\<close>

definition kv_allows :: "kv_map \<Rightarrow> kv_op \<Rightarrow> kv_answer \<Rightarrow> kv_map \<Rightarrow> bool" where
  "kv_allows m c a m' \<longleftrightarrow>
     kv_answered m c a m'
     \<or> (case c of KV tn inTx call \<Rightarrow> (\<exists>e. a = Failed e) \<and> (m' = m \<or> m' = kv_write tn call m) | _ \<Rightarrow> False)"

text \<open>A store none of whose calls fails: \<open>ErrNotFound\<close> for an absent key is an answer, not a failure.\<close>

definition unfailing :: "(kv_op \<Rightarrow> 's \<Rightarrow> kv_answer \<times> 's) \<Rightarrow> ('s \<Rightarrow> kv_map) \<Rightarrow> bool" where
  "unfailing exec view \<longleftrightarrow> (\<forall>tn inTx call s. kv_reply tn call (view s) (fst (exec (KV tn inTx call) s)))"

lemma reply_failed: "kv_reply tn call m (Failed e) \<Longrightarrow> kv_write tn call m = m"
  by (cases call) auto

lemma unfailing_answered:
  assumes "keeps_to kv_allows exec view" "unfailing exec view"
  shows "keeps_to kv_answered exec view"
  unfolding keeps_to_def
proof (intro allI)
  fix c s
  have k: "kv_allows (view s) c (fst (exec c s)) (view (snd (exec c s)))" using assms(1) by (simp add: keeps_to_def)
  show "kv_answered (view s) c (fst (exec c s)) (view (snd (exec c s)))"
  proof (cases c)
    case (KV tn inTx call)
    have "kv_reply tn call (view s) (fst (exec c s))" using assms(2) KV by (simp add: unfailing_def)
    then show ?thesis using k KV reply_failed by (auto simp: kv_allows_def kv_answered_def)
  qed (use k in \<open>simp_all add: kv_allows_def\<close>)
qed

subsection \<open>The cases\<close>

definition no_error :: "kv_answer \<Rightarrow> bool" where
  "no_error a = (case a of Failed e \<Rightarrow> False | _ \<Rightarrow> True)"

definition returns :: "string \<Rightarrow> kv_answer \<Rightarrow> bool" where
  "returns v a \<longleftrightarrow> a = Bytes v"

definition applied :: "bool \<Rightarrow> kv_answer \<Rightarrow> bool" where
  "applied want a \<longleftrightarrow> a = Applied want"

text \<open>A listing of the given number of entries (if asserted) with the given values.\<close>

definition listing :: "nat option \<Rightarrow> (string \<times> string) list \<Rightarrow> kv_answer \<Rightarrow> bool" where
  "listing n want a = (case a of
       Entries es \<Rightarrow> (case n of None \<Rightarrow> True | Some n \<Rightarrow> length es = n) \<and> (\<forall>(k, v) \<in> set want. map_of es k = Some v)
     | _ \<Rightarrow> False)"

type_synonym kv_steps = "(kv_op \<times> (kv_answer \<Rightarrow> bool)) list"

definition testKVPutAndGet :: "string \<Rightarrow> kv_steps" where
  "testKVPutAndGet t =
    [(KV t False (Put ''ns1'' ''k1'' (Some ''v1'')), no_error),
     (KV t False (Get ''ns1'' ''k1''), returns ''v1'')]"

definition testKVGetNotFound :: "string \<Rightarrow> kv_steps" where
  "testKVGetNotFound t = [(KV t False (Get ''ns'' ''missing''), not_found)]"

definition testKVOverwrite :: "string \<Rightarrow> kv_steps" where
  "testKVOverwrite t =
    [(KV t False (Put ''ns'' ''k'' (Some ''old'')), no_error),
     (KV t False (Put ''ns'' ''k'' (Some ''new'')), no_error),
     (KV t False (Get ''ns'' ''k''), returns ''new'')]"

definition testKVDelete :: "string \<Rightarrow> kv_steps" where
  "testKVDelete t =
    [(KV t False (Put ''ns'' ''k'' (Some ''v'')), no_error),
     (KV t False (Delete ''ns'' ''k''), no_error),
     (KV t False (Get ''ns'' ''k''), not_found)]"

definition testKVDeleteAbsent :: "string \<Rightarrow> kv_steps" where
  "testKVDeleteAbsent t =
    [(KV t False (Delete ''ns'' ''never-written''), no_error),
     (KV t False (Put ''ns'' ''k'' (Some ''v'')), no_error),
     (KV t False (Delete ''ns'' ''k''), no_error),
     (KV t False (Delete ''ns'' ''k''), no_error)]"

definition testKVListNamespace :: "string \<Rightarrow> kv_steps" where
  "testKVListNamespace t =
    [(KV t False (Put ''ns1'' ''a'' (Some ''1'')), no_error),
     (KV t False (Put ''ns1'' ''b'' (Some ''2'')), no_error),
     (KV t False (Put ''ns2'' ''c'' (Some ''3'')), no_error),
     (KV t False (List ''ns1''), listing (Some 2) [(''a'', ''1''), (''b'', ''2'')]),
     (KV t False (List ''ns2''), listing (Some 1) [])]"

definition testKVTenantIsolation :: "string \<Rightarrow> string \<Rightarrow> kv_steps" where
  "testKVTenantIsolation tA tB =
    [(KV tA False (Put ''ns'' ''shared-key'' (Some ''A'')), no_error),
     (KV tB False (Put ''ns'' ''shared-key'' (Some ''B'')), no_error),
     (KV tA False (Get ''ns'' ''shared-key''), returns ''A''),
     (KV tB False (Get ''ns'' ''shared-key''), returns ''B'')]"

definition binary_payload :: string where
  "binary_payload = map char_of [0x00 :: nat, 0xFF, 0x01, 0x7F, 0x80, 0xDE, 0xAD, 0xBE, 0xEF, 0x00]"

definition testKVBinarySafe :: "string \<Rightarrow> kv_steps" where
  "testKVBinarySafe t =
    [(KV t False (Put ''ns'' ''bin'' (Some binary_payload)), no_error),
     (KV t False (Get ''ns'' ''bin''), returns binary_payload)]"

definition testKVPutIfAbsent :: "string \<Rightarrow> kv_steps" where
  "testKVPutIfAbsent t =
    [(KV t False (PutIfAbsent ''ns'' ''k'' (Some ''v1'')), applied True),
     (KV t False (PutIfAbsent ''ns'' ''k'' (Some ''v2'')), applied False),
     (KV t False (Get ''ns'' ''k''), returns ''v1'')]"

definition testKVCompareAndPut :: "string \<Rightarrow> kv_steps" where
  "testKVCompareAndPut t =
    [(KV t False (CompareAndPut ''ns'' ''k'' (Some ''x'') (Some ''y'')), applied False),
     (KV t False (Get ''ns'' ''k''), not_found),
     (KV t False (Put ''ns'' ''k'' (Some ''v1'')), no_error),
     (KV t False (CompareAndPut ''ns'' ''k'' (Some ''other'') (Some ''v2'')), applied False),
     (KV t False (CompareAndPut ''ns'' ''k'' (Some ''v1'') (Some ''v2'')), applied True),
     (KV t False (Get ''ns'' ''k''), returns ''v2'')]"

definition testKVDeleteIfEqual :: "string \<Rightarrow> kv_steps" where
  "testKVDeleteIfEqual t =
    [(KV t False (DeleteIfEqual ''ns'' ''k'' (Some ''v'')), applied False),
     (KV t False (Put ''ns'' ''k'' (Some ''v1'')), no_error),
     (KV t False (DeleteIfEqual ''ns'' ''k'' (Some ''stale'')), applied False),
     (KV t False (Get ''ns'' ''k''), returns ''v1''),
     (KV t False (DeleteIfEqual ''ns'' ''k'' (Some ''v1'')), applied True),
     (KV t False (Get ''ns'' ''k''), not_found)]"

definition testKVConditionalDeletedKey :: "string \<Rightarrow> kv_steps" where
  "testKVConditionalDeletedKey t =
    [(KV t False (Put ''ns'' ''k'' (Some ''old'')), no_error),
     (KV t False (Delete ''ns'' ''k''), no_error),
     (KV t False (CompareAndPut ''ns'' ''k'' (Some ''old'') (Some ''x'')), applied False),
     (KV t False (DeleteIfEqual ''ns'' ''k'' (Some ''old'')), applied False),
     (KV t False (PutIfAbsent ''ns'' ''k'' (Some ''new'')), applied True),
     (KV t False (Get ''ns'' ''k''), returns ''new''),
     (KV t False (List ''ns''), listing (Some 1) [(''k'', ''new'')])]"

definition testKVConditionalIsolation :: "string \<Rightarrow> string \<Rightarrow> kv_steps" where
  "testKVConditionalIsolation tA tB =
    [(KV tB False (Put ''ns'' ''k'' (Some ''B'')), no_error),
     (KV tA False (Put ''other'' ''k'' (Some ''A-other'')), no_error),
     (KV tA False (PutIfAbsent ''ns'' ''k'' (Some ''A'')), applied True),
     (KV tA False (CompareAndPut ''ns'' ''k'' (Some ''B'') (Some ''x'')), applied False),
     (KV tA False (DeleteIfEqual ''ns'' ''k'' (Some ''A-other'')), applied False),
     (KV tB False (Get ''ns'' ''k''), returns ''B''),
     (KV tA False (Get ''other'' ''k''), returns ''A-other'')]"

definition testKVConditionalEmptyValue :: "string \<Rightarrow> kv_steps" where
  "testKVConditionalEmptyValue t =
    [(KV t False (PutIfAbsent ''ns'' ''k'' None), applied True),
     (KV t False (CompareAndPut ''ns'' ''k'' (Some []) (Some ''v'')), applied True)]
    @ concat (map (\<lambda>expected.
        [(KV t False (CompareAndPut ''ns'' ''absent'' expected (Some ''v'')), applied False),
         (KV t False (Get ''ns'' ''absent''), not_found)]) [None, Some []])
    @ [(KV t False (DeleteIfEqual ''ns'' ''absent'' None), applied False),
       (KV t False (PutIfAbsent ''ns'' ''empty'' None), applied True),
       (KV t False (Get ''ns'' ''empty''), returns []),
       (KV t False (DeleteIfEqual ''ns'' ''empty'' (Some [])), applied True),
       (KV t False (Get ''ns'' ''empty''), not_found)]"

definition testKVConditionalByteForByte :: "string \<Rightarrow> kv_steps" where
  "testKVConditionalByteForByte t =
    (KV t False (Put ''ns'' ''k'' (Some ''v1'')), no_error)
    # map (\<lambda>expected. (KV t False (CompareAndPut ''ns'' ''k'' (Some expected) (Some ''x'')), applied False))
        [''V1'', ''v1'' @ [CHR 0x00], ''v'', ''v12'']
    @ [(KV t False (DeleteIfEqual ''ns'' ''k'' (Some ''V1'')), applied False),
       (KV t False (Get ''ns'' ''k''), returns ''v1'')]"

definition outside_reads :: "string \<Rightarrow> kv_steps" where
  "outside_reads t =
    map (\<lambda>(k, want). (KV t False (Get ''ns'' k), returns want)) [(''put'', ''v''), (''pia'', ''v''), (''cap'', ''b'')]
    @ map (\<lambda>k. (KV t False (Get ''ns'' k), not_found)) [''del'', ''die'']"

definition testKVNoTransactionJoin :: "string \<Rightarrow> kv_steps" where
  "testKVNoTransactionJoin t =
    [(Begin t, no_error),
     (KV t True (Put ''ns'' ''put'' (Some ''v'')), no_error),
     (KV t True (PutIfAbsent ''ns'' ''pia'' (Some ''v'')), applied True),
     (KV t False (Put ''ns'' ''cap'' (Some ''a'')), no_error),
     (KV t True (CompareAndPut ''ns'' ''cap'' (Some ''a'') (Some ''b'')), applied True),
     (KV t False (Put ''ns'' ''del'' (Some ''v'')), no_error),
     (KV t True (Delete ''ns'' ''del''), no_error),
     (KV t False (Put ''ns'' ''die'' (Some ''v'')), no_error),
     (KV t True (DeleteIfEqual ''ns'' ''die'' (Some ''v'')), applied True)]
    @ outside_reads t
    @ [(KV t False (Put ''ns'' ''late'' (Some ''late'')), no_error),
       (KV t True (Get ''ns'' ''late''), returns ''late''),
       (KV t True (List ''ns''), listing None [(''late'', ''late'')]),
       (Rollback t, no_error)]
    @ outside_reads t"

text \<open>
  The registered cases, each run under tenants of its own: a row of calls; writers racing from no value or from
  one; a plain write against a conditional one. What a race asserts is defined with the races.
\<close>

datatype kv_case = Sequential kv_steps | Concurrent "string option" | AgainstPlain

definition runKeyValueSuite :: "string \<Rightarrow> string \<Rightarrow> (string \<times> kv_case) list" where
  "runKeyValueSuite tA tB =
    [(''PutAndGet'', Sequential (testKVPutAndGet tA)),
     (''Get/NotFound'', Sequential (testKVGetNotFound tA)),
     (''Overwrite'', Sequential (testKVOverwrite tA)),
     (''Delete'', Sequential (testKVDelete tA)),
     (''DeleteAbsent'', Sequential (testKVDeleteAbsent tA)),
     (''List/Namespace'', Sequential (testKVListNamespace tA)),
     (''TenantIsolation'', Sequential (testKVTenantIsolation tA tB)),
     (''Value/BinarySafe'', Sequential (testKVBinarySafe tA)),
     (''Conditional/PutIfAbsent'', Sequential (testKVPutIfAbsent tA)),
     (''Conditional/CompareAndPut'', Sequential (testKVCompareAndPut tA)),
     (''Conditional/DeleteIfEqual'', Sequential (testKVDeleteIfEqual tA)),
     (''Conditional/DeletedKeyIsAbsent'', Sequential (testKVConditionalDeletedKey tA)),
     (''Conditional/ConcurrentPutIfAbsent'', Concurrent None),
     (''Conditional/ConcurrentCompareAndPut'', Concurrent (Some ''start'')),
     (''Conditional/AtomicAgainstPlainWrites'', AgainstPlain),
     (''Conditional/Isolation'', Sequential (testKVConditionalIsolation tA tB)),
     (''Conditional/EmptyValue'', Sequential (testKVConditionalEmptyValue tA)),
     (''Conditional/ByteForByte'', Sequential (testKVConditionalByteForByte tA)),
     (''NoTransactionJoin'', Sequential (testKVNoTransactionJoin tA))]"

definition sequential_cases :: "(string \<times> kv_case) list \<Rightarrow> kv_steps list" where
  "sequential_cases cs = concat (map (\<lambda>(name, c). case c of Sequential steps \<Rightarrow> [steps] | _ \<Rightarrow> []) cs)"

lemma sequential_suite:
  "sequential_cases (runKeyValueSuite tA tB) =
    [testKVPutAndGet tA, testKVGetNotFound tA, testKVOverwrite tA, testKVDelete tA, testKVDeleteAbsent tA,
     testKVListNamespace tA, testKVTenantIsolation tA tB, testKVBinarySafe tA, testKVPutIfAbsent tA,
     testKVCompareAndPut tA, testKVDeleteIfEqual tA, testKVConditionalDeletedKey tA,
     testKVConditionalIsolation tA tB, testKVConditionalEmptyValue tA, testKVConditionalByteForByte tA,
     testKVNoTransactionJoin tA]"
  by (simp add: sequential_cases_def runKeyValueSuite_def)

lemmas kv_case_defs = testKVPutAndGet_def testKVGetNotFound_def testKVOverwrite_def testKVDelete_def
  testKVDeleteAbsent_def testKVListNamespace_def testKVTenantIsolation_def testKVBinarySafe_def
  testKVPutIfAbsent_def testKVCompareAndPut_def testKVDeleteIfEqual_def testKVConditionalDeletedKey_def
  testKVConditionalIsolation_def testKVConditionalEmptyValue_def testKVConditionalByteForByte_def
  outside_reads_def testKVNoTransactionJoin_def

lemmas kv_asserts = no_error_def returns_def applied_def

text \<open>How many entries a listing has.\<close>

lemma listed_length:
  assumes "kv_reply tn (List ns) m a" "{k. m (tn, ns, k) \<noteq> None} = set ks" "distinct ks"
  shows "listing (Some (length ks)) (map (\<lambda>k. (k, the (m (tn, ns, k)))) ks) a"
proof -
  obtain es where a: "a = Entries es" and d: "distinct (map fst es)" and m: "\<And>k. map_of es k = m (tn, ns, k)"
    using assms(1) by (auto split: kv_answer.splits)
  have "set (map fst es) = dom (map_of es)" by (simp add: dom_map_of_conv_image_fst)
  then have "set (map fst es) = set ks" using assms(2) m by (auto simp: dom_def)
  then have "length (map fst es) = length ks" using distinct_card [OF d] distinct_card [OF assms(3)] by simp
  moreover have "m (tn, ns, k) \<noteq> None" if "k \<in> set ks" for k using that assms(2) by auto
  ultimately show ?thesis by (auto simp: a listing_def m)
qed

text \<open>Each case, from any values in which its tenants have none.\<close>

definition fresh_tenant :: "string \<Rightarrow> kv_map \<Rightarrow> bool" where
  "fresh_tenant tn m \<longleftrightarrow> (\<forall>ns k. m (tn, ns, k) = None)"

lemma kv_case_passes:
  assumes "fresh_tenant tA m" "fresh_tenant tB m" "tA \<noteq> tB" and steps: "steps \<in> set (sequential_cases (runKeyValueSuite tA tB))"
  shows "passes kv_answered (expect_all steps Pass) m"
proof -
  note fresh = assms(1,2) [unfolded fresh_tenant_def, rule_format]
  have one: "listing (Some 1) [(k, v)] a \<and> listing (Some 1) [] a"
    if "kv_reply tn (List ns) m' a" "\<And>k'. m' (tn, ns, k') = (if k' = k then Some v else None)" for tn ns m' a k v
  proof -
    have "{k'. m' (tn, ns, k') \<noteq> None} = set [k]" using that(2) by auto
    from listed_length [OF that(1) this] show ?thesis using that(2) by (auto simp: listing_def split: kv_answer.splits)
  qed
  have two: "listing (Some 2) [(k, v), (l, w)] a"
    if "kv_reply tn (List ns) m' a" "k \<noteq> l" "\<And>k'. m' (tn, ns, k') = (if k' = k then Some v else if k' = l then Some w else None)" for tn ns m' a k v l w
  proof -
    have "{k'. m' (tn, ns, k') \<noteq> None} = set [k, l]" using that(3) by auto
    from listed_length [OF that(1) this] show ?thesis using that(2,3) by (simp add: numeral_2_eq_2)
  qed
  have some: "listing None [(k, v)] a" if "kv_reply tn (List ns) m' a" "m' (tn, ns, k) = Some v" for tn ns m' a k v
    using that by (auto simp: listing_def split: kv_answer.splits)
  let ?abc = "m((tA, ''ns1'', ''a'') \<mapsto> ''1'', (tA, ''ns1'', ''b'') \<mapsto> ''2'', (tA, ''ns2'', ''c'') \<mapsto> ''3'')"
  have l1: "listing (Some 2) [(''a'', ''1''), (''b'', ''2'')] a" if "kv_reply tA (List ''ns1'') ?abc a" for a
    by (rule two [OF that]) (simp_all add: fresh)
  have l2: "listing (Some 1) [] a" if "kv_reply tA (List ''ns2'') ?abc a" for a
    by (rule conjunct2 [OF one [OF that, of "''c''" "''3''"]]) (simp add: fresh)
  have namespaces: "passes kv_answered (expect_all (testKVListNamespace tA) Pass) m"
    using l1 l2 by (simp add: testKVListNamespace_def kv_answered_def bytes_of_def no_error_def del: kv_reply.simps(4))
  have l3: "listing (Some 1) [(''k'', ''new'')] a"
    if "kv_reply tA (List ''ns'') (m((tA, ''ns'', ''k'') \<mapsto> ''new'')) a" for a
    by (rule conjunct1 [OF one [OF that]]) (simp add: fresh)
  have deleted: "passes kv_answered (expect_all (testKVConditionalDeletedKey tA) Pass) m"
    using l3 by (simp add: testKVConditionalDeletedKey_def kv_answered_def bytes_of_def kv_asserts del: kv_reply.simps(4))
  have joins: "passes kv_answered (expect_all (testKVNoTransactionJoin tA) Pass) m"
    by (simp add: testKVNoTransactionJoin_def outside_reads_def kv_answered_def bytes_of_def kv_asserts fresh some
        del: kv_reply.simps(4))
  have rest: "list_all (\<lambda>steps. passes kv_answered (expect_all steps Pass) m)
      [testKVPutAndGet tA, testKVGetNotFound tA, testKVOverwrite tA, testKVDelete tA, testKVDeleteAbsent tA,
       testKVTenantIsolation tA tB, testKVBinarySafe tA, testKVPutIfAbsent tA, testKVCompareAndPut tA,
       testKVDeleteIfEqual tA, testKVConditionalIsolation tA tB, testKVConditionalEmptyValue tA,
       testKVConditionalByteForByte tA]"
    using assms(3) by (simp add: kv_case_defs kv_answered_def bytes_of_def kv_asserts fresh)
  show ?thesis using steps namespaces deleted joins rest by (auto simp: sequential_suite)
qed

subsection \<open>Races\<close>

text \<open>
  Calls in flight on the values of one tenant. A call lands, in one atomic step, and is answered; or it fails
  with its outcome unknown, and then its write may still land, once, at any later time or never.
\<close>

record race =
  r_map :: kv_map
  r_flying :: "nat set"
  r_loose :: "nat set"
  r_answers :: "nat \<rightharpoonup> kv_answer"

inductive race_step :: "string \<Rightarrow> (nat \<Rightarrow> kv_call) \<Rightarrow> race \<Rightarrow> race \<Rightarrow> bool" for tn :: string and calls :: "nat \<Rightarrow> kv_call" where
  lands: "i \<in> r_flying R \<Longrightarrow> kv_reply tn (calls i) (r_map R) a \<Longrightarrow>
    race_step tn calls R (R\<lparr>r_map := kv_write tn (calls i) (r_map R), r_flying := r_flying R - {i},
      r_answers := (r_answers R)(i \<mapsto> a)\<rparr>)"
| fails: "i \<in> r_flying R \<Longrightarrow>
    race_step tn calls R (R\<lparr>r_flying := r_flying R - {i}, r_loose := insert i (r_loose R),
      r_answers := (r_answers R)(i \<mapsto> Failed e)\<rparr>)"
| late: "i \<in> r_loose R \<Longrightarrow>
    race_step tn calls R (R\<lparr>r_map := kv_write tn (calls i) (r_map R), r_loose := r_loose R - {i}\<rparr>)"

inductive_cases race_stepE: "race_step tn calls R R'"

definition race_run :: "string \<Rightarrow> (nat \<Rightarrow> kv_call) \<Rightarrow> race \<Rightarrow> race \<Rightarrow> bool" where
  "race_run tn calls = (race_step tn calls)\<^sup>*\<^sup>*"

definition race_start :: "kv_map \<Rightarrow> nat \<Rightarrow> race" where
  "race_start m n = \<lparr>r_map = m, r_flying = {..<n}, r_loose = {}, r_answers = Map.empty\<rparr>"

lemma race_invariant:
  assumes "race_run tn calls R R'" "P R" "\<And>R R'. race_step tn calls R R' \<Longrightarrow> P R \<Longrightarrow> P R'"
  shows "P R'"
  using assms(1) unfolding race_run_def by (induction rule: rtranclp_induct) (auto intro: assms(2,3))

text \<open>Once no call is in flight the answers stay.\<close>

lemma race_done:
  assumes "race_run tn calls R R'" "r_flying R = {}"
  shows "r_flying R' = {} \<and> r_answers R' = r_answers R"
  by (rule race_invariant [OF assms(1)]) (auto simp: assms(2) elim: race_stepE)

text \<open>
  The racers of the suite write distinct values; they put if absent, or they compare with one expected
  value. Its loop finds the winner, and fails on a second one; after it the winner's value is read.
\<close>

definition racer_value :: "nat \<Rightarrow> string" where
  "racer_value i = ''v'' @ dec_str i"

definition racer :: "string \<Rightarrow> string \<Rightarrow> string option \<Rightarrow> nat \<Rightarrow> kv_call" where
  "racer ns k initial i =
     (case initial of
        None \<Rightarrow> PutIfAbsent ns k (Some (racer_value i))
      | Some v \<Rightarrow> CompareAndPut ns k (Some v) (Some (racer_value i)))"

definition conditionalRacers :: nat where "conditionalRacers = 8"

definition race_winner :: "(nat \<rightharpoonup> kv_answer) \<Rightarrow> nat \<Rightarrow> int option" where
  "race_winner results n =
     foldl (\<lambda>w i. case w of
         None \<Rightarrow> None
       | Some winner \<Rightarrow>
           if results i = Some (Applied True) then (if winner = -1 then Some (int i) else None) else Some winner)
       (Some (-1)) [0..<n]"

definition any_error :: "(nat \<rightharpoonup> kv_answer) \<Rightarrow> nat \<Rightarrow> bool" where
  "any_error results n \<longleftrightarrow> list_ex (\<lambda>i. case results i of Some (Failed e) \<Rightarrow> True | _ \<Rightarrow> False) [0..<n]"

definition race_round :: "string \<Rightarrow> (nat \<rightharpoonup> kv_answer) \<Rightarrow> nat \<Rightarrow> kv_answer \<Rightarrow> kv_answer option \<Rightarrow> bool" where
  "race_round k results n got all =
     (case race_winner results n of
        None \<Rightarrow> False
      | Some winner \<Rightarrow>
          if winner < 0 then any_error results n
          else returns (racer_value (nat winner)) got
            \<and> (case all of None \<Rightarrow> True | Some a \<Rightarrow> listing None [(k, racer_value (nat winner))] a))"

text \<open>
  What keeps the race: an applied write stands, for every other racer expects the starting value; and until
  something is applied or fails, the starting value stands and no call has been answered.
\<close>

definition race_inv :: "string \<Rightarrow> string \<Rightarrow> string \<Rightarrow> string option \<Rightarrow> nat \<Rightarrow> race \<Rightarrow> bool" where
  "race_inv tn ns k initial n R \<longleftrightarrow>
     (\<forall>i. r_answers R i = Some (Applied True) \<longrightarrow> r_map R (tn, ns, k) = Some (racer_value i))
     \<and> ((\<exists>i. r_answers R i = Some (Applied True)) \<or> (\<exists>i e. r_answers R i = Some (Failed e))
         \<or> (r_map R (tn, ns, k) = initial \<and> r_answers R = Map.empty \<and> r_loose R = {}))
     \<and> dom (r_answers R) \<union> r_flying R = {..<n} \<and> dom (r_answers R) \<inter> r_flying R = {}"

lemma racer_value_inj: "racer_value i = racer_value j \<longleftrightarrow> i = j"
  by (simp add: racer_value_def dec_str_inj)

lemma race_inv_step:
  assumes initial: "\<And>i. initial \<noteq> Some (racer_value i)" and step: "race_step tn (racer ns k initial) R R'"
    and inv: "race_inv tn ns k initial n R"
  shows "race_inv tn ns k initial n R'"
  using step
proof (cases rule: race_step.cases)
  case (lands i a)
  have a: "a = Applied (r_map R (tn, ns, k) = initial)"
    using lands(3) by (auto simp: racer_def bytes_of_def split: option.splits)
  have w: "kv_write tn (racer ns k initial i) (r_map R)
      = (if r_map R (tn, ns, k) = initial then (r_map R)((tn, ns, k) \<mapsto> racer_value i) else r_map R)"
    by (auto simp: racer_def bytes_of_def split: option.splits)
  have "r_answers R i = None" using inv lands(2) by (auto simp: race_inv_def)
  then have others: "j \<noteq> i" if "r_answers R j = Some b" for j b using that by auto
  show ?thesis
    using inv lands(2) initial unfolding lands(1) race_inv_def a w
    by (auto split: if_splits dest: others)
next
  case (fails i e)
  have "r_answers R i = None" using inv fails(2) by (auto simp: race_inv_def)
  then show ?thesis using inv fails(2) unfolding fails(1) race_inv_def by auto
next
  case (late i)
  have w: "kv_write tn (racer ns k initial i) (r_map R)
      = (if r_map R (tn, ns, k) = initial then (r_map R)((tn, ns, k) \<mapsto> racer_value i) else r_map R)"
    by (auto simp: racer_def bytes_of_def split: option.splits)
  show ?thesis
    using inv late(2) initial unfolding late(1) race_inv_def w by (auto split: if_splits)
qed

lemma race_winner_spec:
  assumes "\<And>i j. results i = Some (Applied True) \<Longrightarrow> results j = Some (Applied True) \<Longrightarrow> i = j"
  shows "(\<exists>i<n. results i = Some (Applied True) \<and> race_winner results n = Some (int i))
    \<or> ((\<forall>i<n. results i \<noteq> Some (Applied True)) \<and> race_winner results n = Some (-1))"
proof (induction n)
  case 0
  then show ?case by (simp add: race_winner_def)
next
  case (Suc n)
  have s: "race_winner results (Suc n) = (case race_winner results n of
      None \<Rightarrow> None
    | Some winner \<Rightarrow> if results n = Some (Applied True) then (if winner = -1 then Some (int n) else None) else Some winner)"
    by (simp add: race_winner_def)
  show ?case
  proof (cases "results n = Some (Applied True)")
    case True
    then have "\<not> (\<exists>i<n. results i = Some (Applied True))" using assms [of _ n] by blast
    then have "race_winner results n = Some (-1)" using Suc by blast
    then show ?thesis using True unfolding s by auto
  next
    case False
    from Suc show ?thesis using False unfolding s by (elim disjE exE conjE) (auto simp: less_Suc_eq)
  qed
qed

lemma race_inv_start: "m (tn, ns, k) = initial \<Longrightarrow> race_inv tn ns k initial n (race_start m n)"
  by (simp add: race_inv_def race_start_def)

lemma race_inv_round:
  assumes inv: "race_inv tn ns k initial n R" and over: "r_flying R = {}" and some: "0 < n"
    and got: "\<forall>i. r_answers R i = Some (Applied True) \<longrightarrow> r_map R1 (tn, ns, k) = Some (racer_value i)"
      "kv_reply tn (Get ns k) (r_map R1) got"
    and all: "\<And>a. all = Some a \<Longrightarrow> \<exists>m2. kv_reply tn (List ns) m2 a
      \<and> (\<forall>i. r_answers R i = Some (Applied True) \<longrightarrow> m2 (tn, ns, k) = Some (racer_value i))"
  shows "race_round k (r_answers R) n got all"
proof -
  have one: "r_answers R i = Some (Applied True) \<Longrightarrow> r_answers R j = Some (Applied True) \<Longrightarrow> i = j" for i j
  proof -
    assume "r_answers R i = Some (Applied True)" "r_answers R j = Some (Applied True)"
    then have "Some (racer_value i) = Some (racer_value j)"
      using inv unfolding race_inv_def by metis
    then show "i = j" by (simp add: racer_value_inj)
  qed
  have "(\<exists>i<n. r_answers R i = Some (Applied True) \<and> race_winner (r_answers R) n = Some (int i))
      \<or> ((\<forall>i<n. r_answers R i \<noteq> Some (Applied True)) \<and> race_winner (r_answers R) n = Some (-1))"
    by (rule race_winner_spec) (erule (1) one)
  then show ?thesis
  proof (elim disjE exE conjE)
    fix i assume i: "i < n" "r_answers R i = Some (Applied True)" "race_winner (r_answers R) n = Some (int i)"
    have "r_map R1 (tn, ns, k) = Some (racer_value i)" using got(1) i(2) by simp
    then have "returns (racer_value i) got" using got(2) by (simp add: returns_def)
    moreover have "listing None [(k, racer_value i)] a" if "all = Some a" for a
      using all [OF that] i(2) by (auto simp: listing_def split: kv_answer.splits)
    ultimately show ?thesis using i(3) by (auto simp: race_round_def split: option.split)
  next
    assume none: "\<forall>i<n. r_answers R i \<noteq> Some (Applied True)" "race_winner (r_answers R) n = Some (-1)"
    have d: "dom (r_answers R) = {..<n}" using inv over by (simp add: race_inv_def)
    then have "r_answers R \<noteq> Map.empty" using some by auto
    moreover have "\<not> (\<exists>i. r_answers R i = Some (Applied True))" using none(1) d by (metis domI lessThan_iff)
    ultimately obtain i e where e: "r_answers R i = Some (Failed e)" using inv by (auto simp: race_inv_def)
    then have "i < n" using d by (metis domI lessThan_iff)
    then have "any_error (r_answers R) n" using e by (auto simp: any_error_def list_ex_iff intro!: bexI [of _ i])
    then show ?thesis using none(2) by (simp add: race_round_def)
  qed
qed

text \<open>A plain write racing with a conditional one on the same key: the plain one is call 0.\<close>

definition plain_race :: "string \<Rightarrow> string \<Rightarrow> bool \<Rightarrow> nat \<Rightarrow> kv_call" where
  "plain_race ns k deletes i =
     (if deletes then (if i = 0 then Delete ns k else CompareAndPut ns k (Some ''prev'') (Some ''x''))
      else (if i = 0 then Put ns k (Some ''v'') else PutIfAbsent ns k (Some ''w'')))"

definition plain_read :: "bool \<Rightarrow> kv_answer \<Rightarrow> bool" where
  "plain_read deletes got = (if deletes then not_found got else returns ''v'' got)"

definition plain_inv :: "string \<Rightarrow> string \<Rightarrow> string \<Rightarrow> bool \<Rightarrow> race \<Rightarrow> bool" where
  "plain_inv tn ns k deletes R \<longleftrightarrow>
     (r_answers R 0 = None \<and> 0 \<in> r_flying R \<and> 0 \<notin> r_loose R) \<or> ((\<exists>e. r_answers R 0 = Some (Failed e)) \<and> 0 \<notin> r_flying R)
     \<or> (r_map R (tn, ns, k) = (if deletes then None else Some ''v'') \<and> 0 \<notin> r_flying R \<and> 0 \<notin> r_loose R)"

lemma plain_inv_step:
  assumes "race_step tn (plain_race ns k deletes) R R'" "plain_inv tn ns k deletes R"
  shows "plain_inv tn ns k deletes R'"
  using assms
  by (cases rule: race_step.cases) (auto simp: plain_inv_def plain_race_def bytes_of_def split: if_splits option.splits)

subsection \<open>A store that keeps the contract\<close>

text \<open>The values as an association list, newest first.\<close>

type_synonym kv_list = "((string \<times> string \<times> string) \<times> string) list"

fun kv_list_write :: "string \<Rightarrow> kv_call \<Rightarrow> kv_list \<Rightarrow> kv_list" where
  "kv_list_write tn (Put ns k v) s = ((tn, ns, k), bytes_of v) # s"
| "kv_list_write tn (Delete ns k) s = AList.delete (tn, ns, k) s"
| "kv_list_write tn (PutIfAbsent ns k v) s = (if map_of s (tn, ns, k) = None then ((tn, ns, k), bytes_of v) # s else s)"
| "kv_list_write tn (CompareAndPut ns k e v) s =
     (if map_of s (tn, ns, k) = Some (bytes_of e) then ((tn, ns, k), bytes_of v) # s else s)"
| "kv_list_write tn (DeleteIfEqual ns k e) s =
     (if map_of s (tn, ns, k) = Some (bytes_of e) then AList.delete (tn, ns, k) s else s)"
| "kv_list_write tn _ s = s"

fun kv_list_read :: "string \<Rightarrow> kv_call \<Rightarrow> kv_list \<Rightarrow> kv_answer" where
  "kv_list_read tn (Get ns k) s = (case map_of s (tn, ns, k) of None \<Rightarrow> Failed (Sentinel ErrNotFound) | Some v \<Rightarrow> Bytes v)"
| "kv_list_read tn (List ns) s =
     Entries (map (\<lambda>k. (k, the (map_of s (tn, ns, k))))
       (filter (\<lambda>k. map_of s (tn, ns, k) \<noteq> None) (remdups (map (\<lambda>((t, n, k), v). k) s))))"
| "kv_list_read tn (PutIfAbsent ns k v) s = Applied (map_of s (tn, ns, k) = None)"
| "kv_list_read tn (CompareAndPut ns k e v) s = Applied (map_of s (tn, ns, k) = Some (bytes_of e))"
| "kv_list_read tn (DeleteIfEqual ns k e) s = Applied (map_of s (tn, ns, k) = Some (bytes_of e))"
| "kv_list_read tn _ s = Done"

definition kv_list_exec :: "kv_op \<Rightarrow> kv_list \<Rightarrow> kv_answer \<times> kv_list" where
  "kv_list_exec c s =
     (case c of KV tn inTx call \<Rightarrow> (kv_list_read tn call s, kv_list_write tn call s) | _ \<Rightarrow> (Done, s))"

lemma kv_list_listing:
  fixes s :: kv_list
  shows "map_of (map (\<lambda>k. (k, the (map_of s (tn, ns, k))))
     (filter (\<lambda>k. map_of s (tn, ns, k) \<noteq> None) (remdups (map (\<lambda>((t, n, k), v). k) s)))) k = map_of s (tn, ns, k)"
proof -
  have "map_of (map (\<lambda>k. (k, f k)) ks) k = (if k \<in> set ks then Some (f k) else None)" for f :: "string \<Rightarrow> string" and ks
    by (induction ks) auto
  moreover have "k \<in> set (map (\<lambda>((t, n, k), v). k) s)" if "map_of s (tn, ns, k) = Some v" for v
    using map_of_SomeD [OF that] by force
  ultimately show ?thesis by (cases "map_of s (tn, ns, k)") auto
qed

lemma kv_list_keeps: "keeps_to kv_allows kv_list_exec map_of" "unfailing kv_list_exec map_of"
proof -
  have "map_of (kv_list_write tn c s) = kv_write tn c (map_of s)" for tn c s
    by (cases c) (auto simp: AList.delete_conv' split: option.split)
  moreover have reply: "kv_reply tn c (map_of s) (kv_list_read tn c s)" for tn c s
    by (cases c) (simp_all add: kv_list_listing sentinel_Is_iff distinct_map inj_on_def comp_def del: not_None_eq split: option.split)
  ultimately show "keeps_to kv_allows kv_list_exec map_of"
    by (auto simp: keeps_to_def kv_allows_def kv_answered_def kv_list_exec_def split: kv_op.split)
  show "unfailing kv_list_exec map_of" using reply by (simp add: unfailing_def kv_list_exec_def)
qed

subsection \<open>Properties\<close>

text \<open>C15: each of the sixteen sequential cases of the suite passes on every store that keeps the contract and of which
  no call fails, from any state in which the tenants of the case hold no values: isolation, absence after
  deletion, empty and binary values, byte-for-byte comparison, and no part in a transaction. A failed call fails
  the case that makes it; the three racing cases are the subject of the two theorems after this one.\<close>

theorem kv_suite_passes:
  assumes "keeps_to kv_allows exec view" "unfailing exec view"
    and "fresh_tenant tA (view s)" "fresh_tenant tB (view s)" "tA \<noteq> tB"
  shows "list_all (\<lambda>steps. run_case exec (expect_all steps Pass) s) (sequential_cases (runKeyValueSuite tA tB))"
  using kv_case_passes [OF assms(3-5)] passes_run [OF unfailing_answered [OF assms(1,2)]] by (simp add: list_all_iff)

theorem kv_suite_passes_witness:
  "list_all (\<lambda>steps. run_case kv_list_exec (expect_all steps Pass) [((''C'', ''ns'', ''k''), ''c'')])
     (sequential_cases (runKeyValueSuite ''A'' ''B''))"
  by (rule kv_suite_passes [OF kv_list_keeps]) (simp_all add: fresh_tenant_def)

text \<open>C13: of any number of conditional writes racing from one starting value, in any interleaving, with any of
  them failing and landing late or never, at most one is applied and its value is what is read and listed
  from then on; and none is applied only if one failed.\<close>

theorem kv_race_one_winner:
  assumes given: "m (tn, ns, k) = initial" "\<And>i. initial \<noteq> Some (racer_value i)" "0 < n"
    and race: "race_run tn (racer ns k initial) (race_start m n) R" "r_flying R = {}"
    and read: "race_run tn (racer ns k initial) R R1" "kv_reply tn (Get ns k) (r_map R1) got"
    and list: "race_run tn (racer ns k initial) R1 R2" "kv_reply tn (List ns) (r_map R2) all"
  shows "race_round k (r_answers R) n got None \<and> race_round k (r_answers R) n got (Some all)"
proof -
  note keep = race_invariant [where P = "race_inv tn ns k initial n", OF _ _ race_inv_step [OF given(2)]]
  have inv: "race_inv tn ns k initial n R" by (rule keep [OF race(1) race_inv_start]) (simp_all add: given)
  have inv1: "race_inv tn ns k initial n R1" by (rule keep [OF read(1) inv])
  have inv2: "race_inv tn ns k initial n R2" by (rule keep [OF list(1) inv1])
  have same: "r_answers R1 = r_answers R" "r_answers R2 = r_answers R"
    using race_done [OF read(1) race(2)] race_done [OF list(1)] by auto
  have a1: "\<forall>i. r_answers R i = Some (Applied True) \<longrightarrow> r_map R1 (tn, ns, k) = Some (racer_value i)"
    using inv1 same(1) by (simp add: race_inv_def)
  have a2: "\<forall>i. r_answers R i = Some (Applied True) \<longrightarrow> r_map R2 (tn, ns, k) = Some (racer_value i)"
    using inv2 same(2) by (simp add: race_inv_def)
  show ?thesis
    using race_inv_round [OF inv race(2) given(3) a1 read(2), of None] race_inv_round [OF inv race(2) given(3) a1 read(2), of "Some all"]
      list(2) a2 by blast
qed

theorem kv_race_one_winner_witness:
  "race_round ''k'' [0 \<mapsto> Failed Plain, 1 \<mapsto> Applied True] 2 (Bytes ''v1'') (Some (Entries [(''k'', ''v1'')]))"
proof -
  let ?c = "racer ''ns'' ''k'' None"
  let ?R = "\<lparr>r_map = [(''t'', ''ns'', ''k'') \<mapsto> ''v1''], r_flying = {}, r_loose = {0}, r_answers = [0 \<mapsto> Failed Plain, 1 \<mapsto> Applied True]\<rparr>"
  let ?M = "\<lparr>r_map = Map.empty, r_flying = {1}, r_loose = {0}, r_answers = [0 \<mapsto> Failed Plain]\<rparr>"
  have v1: "racer_value 1 = ''v1''" by code_simp
  have s1: "race_step ''t'' ?c (race_start Map.empty 2) ?M"
    using fails [of 0 "race_start Map.empty 2" "''t''" ?c Plain] by (simp add: race_start_def numeral_2_eq_2 lessThan_Suc insert_Diff_if)
  have s2: "race_step ''t'' ?c ?M ?R"
    using lands [of 1 ?M "''t''" ?c "Applied True"] v1 by (simp add: racer_def bytes_of_def)
  have run: "race_run ''t'' ?c (race_start Map.empty 2) ?R"
    unfolding race_run_def using s1 s2 by (meson r_into_rtranclp rtranclp_trans)
  have stay: "race_run ''t'' ?c ?R ?R" by (simp add: race_run_def)
  show ?thesis
    using kv_race_one_winner [OF _ _ _ run _ stay _ stay, of "Bytes ''v1''" "Entries [(''k'', ''v1'')]"] by simp
qed

text \<open>C14: a plain write racing with a conditional one decides: once a \<open>Delete\<close> has returned without error the key is
  absent, once a \<open>Put\<close> has the value is its own, whatever became of the racing \<open>CompareAndPut\<close> or
  \<open>PutIfAbsent\<close>, then and later.\<close>

theorem kv_plain_decides:
  assumes race: "race_run tn (plain_race ns k deletes) (race_start m 2) R" "r_flying R = {}"
    and ok: "r_answers R 0 = Some a" "no_error a"
    and read: "race_run tn (plain_race ns k deletes) R R1" "kv_reply tn (Get ns k) (r_map R1) got"
  shows "plain_read deletes got"
proof -
  note keep = race_invariant [where P = "plain_inv tn ns k deletes", OF _ _ plain_inv_step]
  have "plain_inv tn ns k deletes R" by (rule keep [OF race(1)]) (auto simp: plain_inv_def race_start_def)
  then have "plain_inv tn ns k deletes R1" by (rule keep [OF read(1)])
  then have "r_map R1 (tn, ns, k) = (if deletes then None else Some ''v'')"
    using race_done [OF read(1) race(2)] ok by (auto simp: plain_inv_def no_error_def)
  then show ?thesis using read(2) by (auto simp: plain_read_def returns_def)
qed

theorem kv_plain_decides_witness:
  "plain_read True (Failed (Sentinel ErrNotFound))"
proof -
  let ?c = "plain_race ''ns'' ''k'' True"
  let ?m = "[(''t'', ''ns'', ''k'') \<mapsto> ''prev'']"
  let ?M = "\<lparr>r_map = ?m, r_flying = {0}, r_loose = {1}, r_answers = [1 \<mapsto> Failed Plain]\<rparr>"
  let ?N = "\<lparr>r_map = Map.empty, r_flying = {}, r_loose = {1}, r_answers = [1 \<mapsto> Failed Plain, 0 \<mapsto> Done]\<rparr>"
  have s1: "race_step ''t'' ?c (race_start ?m 2) ?M"
    using fails [of 1 "race_start ?m 2" "''t''" ?c Plain] by (simp add: race_start_def numeral_2_eq_2 lessThan_Suc insert_Diff_if insert_commute)
  have s2: "race_step ''t'' ?c ?M ?N"
    using lands [of 0 ?M "''t''" ?c Done] by (simp add: plain_race_def)
  have s3: "race_step ''t'' ?c ?N (?N\<lparr>r_loose := {}\<rparr>)"
    using late [of 1 ?N "''t''" ?c] by (simp add: plain_race_def bytes_of_def)
  have run: "race_run ''t'' ?c (race_start ?m 2) ?N" "race_run ''t'' ?c ?N (?N\<lparr>r_loose := {}\<rparr>)"
    unfolding race_run_def using s1 s2 s3 by (meson r_into_rtranclp rtranclp_trans)+
  show ?thesis
    using kv_plain_decides [OF run(1) _ _ _ run(2), of Done "Failed (Sentinel ErrNotFound)"] by (simp add: no_error_def sentinel_Is_iff)
qed

end
