(* ===== verification/Search_Jobs.thy ===== *)
theory Search_Jobs
  imports Spi_Errors "HOL-Library.AList"
begin

text \<open>
  Asynchronous search jobs: the job record of \<open>search_store.go\<close>, and what \<open>Suite_Jobs\<close> takes a store of them to
  do. No store is under \<open>src/\<close>: this is a reading of the comments on \<open>AsyncSearchStore\<close>, completed by what the
  suite itself needs, and a hypothesis of everything stated with it, never a model of code. Three points go
  beyond the comments: the clocks of one store lie within \<open>skew\<close> of each other, where the suite only says that its
  stamps are hours apart so that skew cannot matter; a claim takes everything claimable when the limit allows,
  where the comment says up to the limit; and \<open>AdvanceClock\<close> moves the clock by all it is given, where a harness
  may cap it. The list store at the end shows that the hypothesis can be met.
\<close>

subsection \<open>Jobs\<close>

text \<open>
  Times and durations are nanoseconds. The request a job carries (model, condition, point in time, options) is
  opaque to a store and left out. \<open>row_released\<close> and \<open>row_results\<close> are what a store keeps beside the job.
\<close>

record SearchJob =
  sj_ID :: string
  sj_TenantID :: string
  sj_Status :: string
  sj_ResultCount :: int
  sj_Error :: string
  sj_CreateTime :: int
  sj_FinishTime :: "int option"
  sj_CalcTimeMs :: int
  sj_HeartbeatTime :: "int option"
  sj_Epoch :: int
  sj_StaleClaims :: int

record job_row =
  row_job :: SearchJob
  row_beat :: int
  row_released :: bool
  row_results :: "string list"

definition terminal :: "job_row \<Rightarrow> bool" where
  "terminal r \<longleftrightarrow> sj_Status (row_job r) \<in> {''SUCCESSFUL'', ''FAILED'', ''CANCELLED''}"

definition epoch :: "job_row \<Rightarrow> int" where
  "epoch r = sj_Epoch (row_job r)"

text \<open>What a read returns: the heartbeat is never nil.\<close>

definition job_view :: "job_row \<Rightarrow> SearchJob" where
  "job_view r = (row_job r)\<lparr>sj_HeartbeatTime := Some (row_beat r)\<rparr>"

definition key_of :: "SearchJob \<Rightarrow> string \<times> string" where
  "key_of j = (sj_TenantID j, sj_ID j)"

type_synonym job_rows = "string \<times> string \<rightharpoonup> job_row"

datatype job_call =
    CreateJob string SearchJob
  | GetJob string string
  | UpdateJobStatus string string int string int string "int option" int
  | SaveResults string string int "string list"
  | GetResultIDs string string int int
  | DeleteJob string string
  | ReapExpired int
  | Cancel string string int
  | Heartbeat string string int
  | ClaimStale int int
  | ClearResults string string int
  | Release string string int
  | StreamResults string string int int int
  | AdvanceClock int
  | Now

datatype job_answer =
    Done | Failed go_error | Job SearchJob | Page "string list" int | Batch "SearchJob list" | Count int | Time int | Interrupted bool int

subsection \<open>The contract\<close>

definition created :: "int \<Rightarrow> string \<Rightarrow> SearchJob \<Rightarrow> job_row" where
  "created now tn job =
     \<lparr>row_job = job\<lparr>sj_TenantID := tn, sj_Epoch := 1, sj_StaleClaims := 0\<rparr>, row_beat = now, row_released = False, row_results = []\<rparr>"

text \<open>
  The fence of every executor-side write: the current epoch of a job that is not terminal. Calls are complete,
  so no heartbeat meets an open write of its own job, which it could answer with \<open>ErrTaskBusy\<close>.
\<close>

definition refusal :: "job_row \<Rightarrow> int \<Rightarrow> go_error \<Rightarrow> bool" where
  "refusal r ep e \<longleftrightarrow> (ep \<noteq> epoch r \<and> errors_Is e ErrStaleClaim) \<or> (terminal r \<and> errors_Is e ErrAlreadyTerminal)"

definition fenced :: "job_rows \<Rightarrow> string \<times> string \<Rightarrow> int \<Rightarrow> (job_row \<Rightarrow> job_row) \<Rightarrow> job_answer \<Rightarrow> job_rows \<Rightarrow> bool" where
  "fenced jobs k ep effect a jobs' \<longleftrightarrow>
     (case jobs k of
        None \<Rightarrow> (\<exists>e. a = Failed e \<and> errors_Is e ErrNotFound) \<and> jobs' = jobs
      | Some r \<Rightarrow>
          if ep = epoch r \<and> \<not> terminal r then a = Done \<and> jobs' = jobs(k \<mapsto> effect r)
          else (\<exists>e. a = Failed e \<and> refusal r ep e) \<and> jobs' = jobs)"

definition updated :: "string \<Rightarrow> int \<Rightarrow> string \<Rightarrow> int option \<Rightarrow> int \<Rightarrow> job_row \<Rightarrow> job_row" where
  "updated status found msg finish calc r =
     r\<lparr>row_job := (row_job r)\<lparr>sj_Status := status, sj_ResultCount := found, sj_Error := msg, sj_FinishTime := finish,
        sj_CalcTimeMs := calc\<rparr>\<rparr>"

definition cancelled :: "int \<Rightarrow> job_row \<Rightarrow> job_row" where
  "cancelled finish r =
     (if terminal r then r else r\<lparr>row_job := (row_job r)\<lparr>sj_Status := ''CANCELLED'', sj_FinishTime := Some finish\<rparr>\<rparr>)"

text \<open>A terminal job is expired from its finish time plus the ttl on; one without a finish time has no age.\<close>

definition expired :: "int \<Rightarrow> int \<Rightarrow> job_row \<Rightarrow> bool" where
  "expired now ttl r \<longleftrightarrow>
     terminal r \<and> (case sj_FinishTime (row_job r) of None \<Rightarrow> False | Some f \<Rightarrow> f + ttl \<le> now)"

definition expired_keys :: "int \<Rightarrow> int \<Rightarrow> job_rows \<Rightarrow> (string \<times> string) set" where
  "expired_keys now ttl jobs = {k. case jobs k of None \<Rightarrow> False | Some r \<Rightarrow> expired now ttl r}"

text \<open>A claim takes a running job that was released or whose heartbeat is older than the window.\<close>

definition claimable :: "int \<Rightarrow> int \<Rightarrow> job_row \<Rightarrow> bool" where
  "claimable now staleAfter r \<longleftrightarrow> \<not> terminal r \<and> (row_released r \<or> staleAfter < now - row_beat r)"

definition claimed :: "int \<Rightarrow> job_row \<Rightarrow> job_row" where
  "claimed now r =
     r\<lparr>row_job := (row_job r)\<lparr>sj_Epoch := epoch r + 1,
          sj_StaleClaims := sj_StaleClaims (row_job r) + (if row_released r then 0 else 1)\<rparr>,
       row_beat := now, row_released := False\<rparr>"

definition claimable_keys :: "int \<Rightarrow> int \<Rightarrow> job_rows \<Rightarrow> (string \<times> string) set" where
  "claimable_keys now staleAfter jobs = {k. case jobs k of None \<Rightarrow> False | Some r \<Rightarrow> claimable now staleAfter r}"

text \<open>At most the limit is taken, and everything claimable when it is within the limit.\<close>

definition claims :: "int \<Rightarrow> int \<Rightarrow> int \<Rightarrow> job_rows \<Rightarrow> SearchJob list \<Rightarrow> job_rows \<Rightarrow> bool" where
  "claims now staleAfter limit jobs js jobs' \<longleftrightarrow>
     (\<exists>taken \<subseteq> claimable_keys now staleAfter jobs.
        finite taken \<and> int (card taken) \<le> max 0 limit
        \<and> (finite (claimable_keys now staleAfter jobs) \<and> int (card (claimable_keys now staleAfter jobs)) \<le> limit
              \<longrightarrow> taken = claimable_keys now staleAfter jobs)
        \<and> jobs' = (\<lambda>k. if k \<in> taken then map_option (claimed now) (jobs k) else jobs k)
        \<and> distinct js \<and> set js = (\<lambda>k. job_view (claimed now (the (jobs k)))) ` taken)"

text \<open>
  The jobs, the reading of the store's physical clock, and what the surroundings still grant: the latest reading
  the clock may reach on its own, and how many jobs may be added. The business clock and the harness's own
  clock stay within a skew of the physical one.
\<close>

record job_store =
  js_rows :: job_rows
  js_clock :: int
  js_until :: int
  js_room :: nat

definition millisecond :: int where "millisecond = 1000000"
definition minute :: int where "minute = 60 * 1000 * millisecond"
definition hour :: int where "hour = 60 * minute"
definition day :: int where "day = 24 * hour"

text \<open>
  A save whose context is cancelled while an item is yielded stops pulling before the next chunk ends; the suite
  puts the chunks of the stores it knows in the low thousands. \<open>Interrupted\<close> says whether the error is the
  context's and how many items were pulled.
\<close>

definition chunk_bound :: int where "chunk_bound = 4000"

definition skew :: int where "skew = 10 * minute"

definition near :: "int \<Rightarrow> int \<Rightarrow> bool" where
  "near t now \<longleftrightarrow> now - skew \<le> t \<and> t \<le> now + skew"

text \<open>The effect of a call at a reading of the clock.\<close>

fun job_effect :: "int \<Rightarrow> job_call \<Rightarrow> job_rows \<Rightarrow> job_answer \<Rightarrow> job_rows \<Rightarrow> bool" where
  "job_effect now (CreateJob tn job) jobs a jobs' \<longleftrightarrow>
     (if jobs (tn, sj_ID job) = None then a = Done \<and> jobs' = jobs((tn, sj_ID job) \<mapsto> created now tn job)
      else \<exists>row. jobs' = jobs((tn, sj_ID job) := row) \<and> (\<forall>r. row = Some r \<longrightarrow> key_of (row_job r) = (tn, sj_ID job)))"
| "job_effect now (GetJob tn i) jobs a jobs' \<longleftrightarrow>
     jobs' = jobs \<and> (case jobs (tn, i) of
        None \<Rightarrow> \<exists>e. a = Failed e \<and> errors_Is e ErrNotFound | Some r \<Rightarrow> a = Job (job_view r))"
| "job_effect now (UpdateJobStatus tn i ep status found msg finish calc) jobs a jobs' \<longleftrightarrow>
     fenced jobs (tn, i) ep (updated status found msg finish calc) a jobs'"
| "job_effect now (SaveResults tn i ep ids) jobs a jobs' \<longleftrightarrow>
     fenced jobs (tn, i) ep (\<lambda>r. r\<lparr>row_results := row_results r @ ids\<rparr>) a jobs'"
| "job_effect now (GetResultIDs tn i offset limit) jobs a jobs' \<longleftrightarrow>
     jobs' = jobs \<and> (if offset < 0 \<or> limit < 1 then \<exists>e. a = Failed e
       else case jobs (tn, i) of None \<Rightarrow> True
         | Some r \<Rightarrow> a = Page (take (nat limit) (drop (nat offset) (row_results r))) (int (length (row_results r))))"
| "job_effect now (DeleteJob tn i) jobs a jobs' \<longleftrightarrow>
     jobs' = jobs((tn, i) := None) \<and> (jobs (tn, i) \<noteq> None \<longrightarrow> a = Done)"
| "job_effect now (ReapExpired ttl) jobs a jobs' \<longleftrightarrow>
     (\<exists>business. near business now \<and> a = Count (int (card (expired_keys business ttl jobs)))
        \<and> jobs' = (\<lambda>k. if k \<in> expired_keys business ttl jobs then None else jobs k))"
| "job_effect now (Cancel tn i finish) jobs a jobs' \<longleftrightarrow>
     (case jobs (tn, i) of
        None \<Rightarrow> (\<exists>e. a = Failed e \<and> errors_Is e ErrNotFound) \<and> jobs' = jobs
      | Some r \<Rightarrow> a = Done \<and> jobs' = jobs((tn, i) \<mapsto> cancelled finish r))"
| "job_effect now (Heartbeat tn i ep) jobs a jobs' \<longleftrightarrow> fenced jobs (tn, i) ep (\<lambda>r. r\<lparr>row_beat := now\<rparr>) a jobs'"
| "job_effect now (ClaimStale staleAfter limit) jobs a jobs' \<longleftrightarrow>
     (\<exists>js. a = Batch js \<and> claims now staleAfter limit jobs js jobs')"
| "job_effect now (ClearResults tn i ep) jobs a jobs' \<longleftrightarrow> fenced jobs (tn, i) ep (\<lambda>r. r\<lparr>row_results := []\<rparr>) a jobs'"
| "job_effect now (Release tn i ep) jobs a jobs' \<longleftrightarrow> fenced jobs (tn, i) ep (\<lambda>r. r\<lparr>row_released := True\<rparr>) a jobs'"
| "job_effect now (StreamResults tn i ep items cancelAfter) jobs a jobs' \<longleftrightarrow>
     (if case jobs (tn, i) of None \<Rightarrow> True | Some r \<Rightarrow> ep \<noteq> epoch r \<or> terminal r then fenced jobs (tn, i) ep id a jobs'
      else (\<exists>ids. jobs' = jobs((tn, i) := map_option (\<lambda>r. r\<lparr>row_results := row_results r @ ids\<rparr>) (jobs (tn, i))))
        \<and> (cancelAfter + chunk_bound < items \<longrightarrow> (\<exists>n. a = Interrupted True n \<and> n \<le> cancelAfter + chunk_bound)))"
| "job_effect now (AdvanceClock d) jobs a jobs' \<longleftrightarrow> a = Done \<and> jobs' = jobs"
| "job_effect now Now jobs a jobs' \<longleftrightarrow> (\<exists>t. near t now \<and> a = Time t) \<and> jobs' = jobs"

fun advance_of :: "job_call \<Rightarrow> int" where
  "advance_of (AdvanceClock d) = d"
| "advance_of _ = 0"

fun creates :: "job_call \<Rightarrow> bool" where
  "creates (CreateJob tn job) = True"
| "creates _ = False"

definition job_allows :: "job_store \<Rightarrow> job_call \<Rightarrow> job_answer \<Rightarrow> job_store \<Rightarrow> bool" where
  "job_allows m c a m' \<longleftrightarrow>
     js_clock m + advance_of c \<le> js_clock m' \<and> js_clock m' \<le> js_until m'
     \<and> js_until m' = js_until m + advance_of c
     \<and> js_room m = js_room m' + (if creates c then 1 else 0)
     \<and> job_effect (js_clock m') c (js_rows m) a (js_rows m')"

text \<open>Rows are stored under the key they carry.\<close>

definition keyed :: "job_rows \<Rightarrow> bool" where
  "keyed jobs \<longleftrightarrow> (\<forall>k r. jobs k = Some r \<longrightarrow> key_of (row_job r) = k)"

lemma key_of_effects [simp]:
  "key_of (row_job (claimed now r)) = key_of (row_job r)" "key_of (job_view (claimed now r)) = key_of (row_job r)"
  "key_of (row_job (updated st n msg fin calc r)) = key_of (row_job r)" "key_of (row_job (cancelled t r)) = key_of (row_job r)"
  "key_of (row_job (created now tn job)) = (tn, sj_ID job)"
  by (simp_all add: key_of_def claimed_def job_view_def updated_def cancelled_def created_def)

lemma effect_keyed: "job_effect now c jobs a jobs' \<Longrightarrow> keyed jobs \<Longrightarrow> keyed jobs'"
  by (cases c) (auto simp: keyed_def fenced_def claims_def key_of_def updated_def cancelled_def claimed_def created_def
      split: option.splits if_splits)

subsection \<open>A store that keeps the contract\<close>

text \<open>Rows as an association list, over a clock that only the harness advances.\<close>

type_synonym job_list = "((string \<times> string) \<times> job_row) list"

record list_store =
  ls_rows :: job_list
  ls_clock :: int
  ls_room :: nat

definition ls_fenced :: "job_list \<Rightarrow> string \<times> string \<Rightarrow> int \<Rightarrow> (job_row \<Rightarrow> job_row) \<Rightarrow> job_answer \<times> job_list" where
  "ls_fenced jobs k ep effect =
     (case map_of jobs k of
        None \<Rightarrow> (Failed (Sentinel ErrNotFound), jobs)
      | Some r \<Rightarrow>
          if ep \<noteq> epoch r then (Failed (Sentinel ErrStaleClaim), jobs)
          else if terminal r then (Failed (Sentinel ErrAlreadyTerminal), jobs)
          else (Done, AList.update k (effect r) jobs))"

fun ls_effect :: "int \<Rightarrow> job_call \<Rightarrow> job_list \<Rightarrow> job_answer \<times> job_list" where
  "ls_effect now (CreateJob tn job) jobs = (Done, AList.update (tn, sj_ID job) (created now tn job) jobs)"
| "ls_effect now (GetJob tn i) jobs =
     (case map_of jobs (tn, i) of None \<Rightarrow> Failed (Sentinel ErrNotFound) | Some r \<Rightarrow> Job (job_view r), jobs)"
| "ls_effect now (UpdateJobStatus tn i ep status found msg finish calc) jobs =
     ls_fenced jobs (tn, i) ep (updated status found msg finish calc)"
| "ls_effect now (SaveResults tn i ep ids) jobs = ls_fenced jobs (tn, i) ep (\<lambda>r. r\<lparr>row_results := row_results r @ ids\<rparr>)"
| "ls_effect now (GetResultIDs tn i offset limit) jobs =
     (if offset < 0 \<or> limit < 1 then Failed Plain
      else case map_of jobs (tn, i) of None \<Rightarrow> Failed (Sentinel ErrNotFound)
        | Some r \<Rightarrow> Page (take (nat limit) (drop (nat offset) (row_results r))) (int (length (row_results r))), jobs)"
| "ls_effect now (DeleteJob tn i) jobs = (Done, AList.delete (tn, i) jobs)"
| "ls_effect now (ReapExpired ttl) jobs =
     (Count (int (length (filter (\<lambda>(k, r). expired now ttl r) jobs))), filter (\<lambda>(k, r). \<not> expired now ttl r) jobs)"
| "ls_effect now (Cancel tn i finish) jobs =
     (case map_of jobs (tn, i) of None \<Rightarrow> (Failed (Sentinel ErrNotFound), jobs)
        | Some r \<Rightarrow> (Done, AList.update (tn, i) (cancelled finish r) jobs))"
| "ls_effect now (Heartbeat tn i ep) jobs = ls_fenced jobs (tn, i) ep (\<lambda>r. r\<lparr>row_beat := now\<rparr>)"
| "ls_effect now (ClaimStale staleAfter limit) jobs =
     (let taken = take (nat limit) (filter (\<lambda>(k, r). claimable now staleAfter r) jobs) in
      (Batch (map (\<lambda>(k, r). job_view (claimed now r)) taken),
       map (\<lambda>(k, r). (k, if k \<in> set (map fst taken) then claimed now r else r)) jobs))"
| "ls_effect now (ClearResults tn i ep) jobs = ls_fenced jobs (tn, i) ep (\<lambda>r. r\<lparr>row_results := []\<rparr>)"
| "ls_effect now (Release tn i ep) jobs = ls_fenced jobs (tn, i) ep (\<lambda>r. r\<lparr>row_released := True\<rparr>)"
| "ls_effect now (StreamResults tn i ep items cancelAfter) jobs =
     (case map_of jobs (tn, i) of
        None \<Rightarrow> ls_fenced jobs (tn, i) ep id
      | Some r \<Rightarrow> if ep \<noteq> epoch r \<or> terminal r then ls_fenced jobs (tn, i) ep id else (Interrupted True (cancelAfter + 1), jobs))"
| "ls_effect now (AdvanceClock d) jobs = (Done, jobs)"
| "ls_effect now Now jobs = (Time now, jobs)"

definition ls_exec :: "job_call \<Rightarrow> list_store \<Rightarrow> job_answer \<times> list_store" where
  "ls_exec c s =
     (let now = ls_clock s + advance_of c; (a, jobs) = ls_effect now c (ls_rows s) in
      (a, \<lparr>ls_rows = jobs, ls_clock = now, ls_room = ls_room s - (if creates c then 1 else 0)\<rparr>))"

definition ls_view :: "list_store \<Rightarrow> job_store" where
  "ls_view s = \<lparr>js_rows = map_of (ls_rows s), js_clock = ls_clock s, js_until = ls_clock s, js_room = ls_room s\<rparr>"

definition ls_ok :: "list_store \<Rightarrow> bool" where
  "ls_ok s \<longleftrightarrow> distinct (map fst (ls_rows s)) \<and> keyed (map_of (ls_rows s))"

lemma map_of_filter_row:
  "distinct (map fst jobs) \<Longrightarrow> map_of (filter (\<lambda>(k, r). P r) jobs) k
     = (case map_of jobs k of None \<Rightarrow> None | Some r \<Rightarrow> if P r then Some r else None)"
  by (induction jobs) (auto split: option.splits simp: rev_image_eqI dest: map_of_SomeD)

lemma map_of_map_row: "map_of (map (\<lambda>(k, r). (k, f k r)) jobs) k = map_option (f k) (map_of jobs k)"
  by (induction jobs) auto

lemma keys_where:
  assumes d: "distinct (map fst jobs)"
  shows "{k. case map_of jobs k of None \<Rightarrow> False | Some r \<Rightarrow> P r} = fst ` set (filter (\<lambda>(k, r). P r) jobs)"
proof -
  have "{k. case map_of jobs k of None \<Rightarrow> False | Some r \<Rightarrow> P r} = {k. \<exists>r. map_of jobs k = Some r \<and> P r}"
    by (auto split: option.splits)
  also have "\<dots> = fst ` set (filter (\<lambda>(k, r). P r) jobs)"
    unfolding map_of_eq_Some_iff [OF d] by force
  finally show ?thesis .
qed

lemma ls_claims:
  assumes d: "distinct (map fst jobs)" and kept: "keyed (map_of jobs)"
    and l: "ls_effect now (ClaimStale w limit) jobs = (Batch js, jobs')"
  shows "claims now w limit (map_of jobs) js (map_of jobs')"
proof -
  let ?all = "filter (\<lambda>(k, r). claimable now w r) jobs"
  define taken where "taken = take (nat limit) ?all"
  have js: "js = map (\<lambda>(k, r). job_view (claimed now r)) taken"
    and j': "jobs' = map (\<lambda>(k, r). (k, if k \<in> set (map fst taken) then claimed now r else r)) jobs"
    using l by (auto simp: taken_def Let_def)
  have all: "claimable_keys now w (map_of jobs) = fst ` set ?all"
    unfolding claimable_keys_def by (rule keys_where [OF d])
  have dall: "distinct (map fst ?all)" using d by (simp add: distinct_map_filter)
  have dt: "distinct (map fst taken)" using dall unfolding taken_def by (metis distinct_take take_map)
  have sub: "set taken \<subseteq> set ?all" unfolding taken_def by (rule set_take_subset)
  have row: "map_of jobs k = Some r" if "(k, r) \<in> set taken" for k r using that sub d by auto
  have c1: "card (fst ` set taken) = length taken" using distinct_card [OF dt] by simp
  have short: "length taken \<le> nat limit" unfolding taken_def by simp
  have c2: "card (fst ` set ?all) = length ?all" using distinct_card [OF dall] by simp
  have full: "taken = ?all" if "int (length ?all) \<le> limit" using that unfolding taken_def by simp
  have view: "key_of (job_view (claimed now r)) = k" if "(k, r) \<in> set taken" for k r
    using kept [unfolded keyed_def, rule_format, OF row [OF that]] by simp
  have keys: "map key_of js = map fst taken" unfolding js using view by (auto simp: case_prod_beta)
  show ?thesis
    unfolding claims_def all
  proof (intro exI [of _ "fst ` set taken"] conjI)
    show "fst ` set taken \<subseteq> fst ` set ?all" using sub by blast
    show "int (card (fst ` set taken)) \<le> max 0 limit" unfolding c1 using short by linarith
    show "finite (fst ` set ?all) \<and> int (card (fst ` set ?all)) \<le> limit \<longrightarrow> fst ` set taken = fst ` set ?all"
      unfolding c2 using full by auto
    show "map_of jobs' = (\<lambda>k. if k \<in> fst ` set taken then map_option (claimed now) (map_of jobs k) else map_of jobs k)"
      unfolding j' by (rule ext) (simp add: map_of_map_row option.map_ident cong: option.map_cong)
    show "distinct js" using keys dt by (metis distinct_map)
    show "set js = (\<lambda>k. job_view (claimed now (the (map_of jobs k)))) ` fst ` set taken"
      unfolding js using row by (force simp: image_image)
  qed simp
qed

lemma ls_effect_ok:
  assumes ok: "distinct (map fst jobs)" "keyed (map_of jobs)"
  shows "job_effect now c (map_of jobs) (fst (ls_effect now c jobs)) (map_of (snd (ls_effect now c jobs)))"
    "distinct (map fst (snd (ls_effect now c jobs)))"
proof -
  have fen: "fenced (map_of jobs) k ep f (fst (ls_fenced jobs k ep f)) (map_of (snd (ls_fenced jobs k ep f)))"
    "distinct (map fst (snd (ls_fenced jobs k ep f)))" for k ep f
    using ok(1) by (auto simp: fenced_def ls_fenced_def refusal_def sentinel_Is_iff update_conv' distinct_update split: option.split)
  show "distinct (map fst (snd (ls_effect now c jobs)))"
    using ok(1) fen(2) by (cases c) (auto simp: distinct_update distinct_delete distinct_map_filter Let_def case_prod_beta comp_def split: option.split)
  show "job_effect now c (map_of jobs) (fst (ls_effect now c jobs)) (map_of (snd (ls_effect now c jobs)))"
  proof (cases c)
    case (ClaimStale w limit)
    then show ?thesis using ls_claims [OF ok] by (auto simp: Let_def)
  next
    case (ReapExpired ttl)
    have d: "distinct (map fst (filter (\<lambda>(k, r). expired now ttl r) jobs))" using ok(1) by (simp add: distinct_map_filter)
    have k: "expired_keys now ttl (map_of jobs) = fst ` set (filter (\<lambda>(k, r). expired now ttl r) jobs)"
      unfolding expired_keys_def by (rule keys_where [OF ok(1)])
    then have "card (expired_keys now ttl (map_of jobs)) = length (filter (\<lambda>(k, r). expired now ttl r) jobs)"
      using distinct_card [OF d] by simp
    moreover have "map_of (filter (\<lambda>(k, r). \<not> expired now ttl r) jobs)
        = (\<lambda>k. if k \<in> expired_keys now ttl (map_of jobs) then None else map_of jobs k)"
      by (rule ext) (simp add: map_of_filter_row [OF ok(1)] expired_keys_def split: option.split)
    ultimately show ?thesis using ReapExpired by (auto simp: near_def skew_def minute_def millisecond_def intro!: exI [of _ now])
  next
    case (StreamResults tn i ep items after)
    have "\<exists>ids. m = m(k \<mapsto> r\<lparr>row_results := row_results r @ ids\<rparr>)" if "m k = Some r" for m :: job_rows and k r
      by (rule exI [of _ "[]"]) (use that in \<open>simp add: fun_upd_idem\<close>)
    then show ?thesis using StreamResults fen(1) by (auto simp: chunk_bound_def split: option.split)
  qed (auto simp: fen update_conv' delete_conv' sentinel_Is_iff near_def skew_def minute_def millisecond_def key_of_def created_def
      split: option.split)
qed

lemma ls_step:
  assumes "ls_ok s" "creates c \<Longrightarrow> 0 < ls_room s" "0 \<le> advance_of c"
  shows "job_allows (ls_view s) c (fst (ls_exec c s)) (ls_view (snd (ls_exec c s)))" "ls_ok (snd (ls_exec c s))"
proof -
  have ok: "distinct (map fst (ls_rows s))" "keyed (map_of (ls_rows s))" using assms(1) by (simp_all add: ls_ok_def)
  note e = ls_effect_ok [OF ok, of "ls_clock s + advance_of c" c]
  show "job_allows (ls_view s) c (fst (ls_exec c s)) (ls_view (snd (ls_exec c s)))"
    using e(1) assms(2,3) by (simp add: job_allows_def ls_view_def ls_exec_def Let_def case_prod_beta)
  show "ls_ok (snd (ls_exec c s))"
    using e effect_keyed [OF e(1) ok(2)] by (simp add: ls_ok_def ls_exec_def Let_def case_prod_beta)
qed

lemma ls_ok_iff: "ls_ok s \<longleftrightarrow> distinct (map fst (ls_rows s)) \<and> list_all (\<lambda>(k, r). key_of (row_job r) = k) (ls_rows s)"
  by (auto simp: ls_ok_def keyed_def list_all_iff)

lemmas ls_eval = ls_ok_iff ls_exec_def ls_fenced_def Let_def key_of_def created_def claimed_def job_view_def claimable_def
  terminal_def epoch_def minute_def millisecond_def

end
