(* ===== verification/Suite_Jobs.thy ===== *)
theory Suite_Jobs
  imports Suite_Base Search_Jobs
begin

text \<open>
  The cases of \<open>spitest/asyncsearch.go\<close>, as calls to an asynchronous search store and assertions on its answers.
  Result: they pass on every store that does what \<open>Search_Jobs\<close> assumes, as long as the clock runs on by no more
  than the margin the suite names. The assumption is a reading of interface comments, see there.
\<close>

subsection \<open>The cases\<close>

text \<open>
  A case gets its tenants and the ids it draws, \<open>new 0\<close>, \<open>new 1\<close> and so on. The harness's clock is read with \<open>Now\<close>.
\<close>

type_synonym job_case = "(job_call, job_answer) test_case"

definition no_error :: "job_answer \<Rightarrow> bool" where
  "no_error a = (case a of Failed e \<Rightarrow> False | _ \<Rightarrow> True)"

definition fails_with :: "sentinel \<Rightarrow> job_answer \<Rightarrow> bool" where
  "fails_with s a = (case a of Failed e \<Rightarrow> errors_Is e s | _ \<Rightarrow> False)"

definition with_now :: "(int \<Rightarrow> job_case) \<Rightarrow> job_case" where
  "with_now k = Call Now (\<lambda>a. case a of Time t \<Rightarrow> k t | _ \<Rightarrow> Fail)"

definition get_job :: "string \<Rightarrow> string \<Rightarrow> (SearchJob \<Rightarrow> job_case) \<Rightarrow> job_case" where
  "get_job t i k = Call (GetJob t i) (\<lambda>a. case a of Job j \<Rightarrow> k j | _ \<Rightarrow> Fail)"

definition result_ids :: "string \<Rightarrow> string \<Rightarrow> int \<Rightarrow> int \<Rightarrow> (string list \<Rightarrow> int \<Rightarrow> job_case) \<Rightarrow> job_case" where
  "result_ids t i offset limit k = Call (GetResultIDs t i offset limit) (\<lambda>a. case a of Page p n \<Rightarrow> k p n | _ \<Rightarrow> Fail)"

definition claim_stale :: "int \<Rightarrow> int \<Rightarrow> (SearchJob list \<Rightarrow> job_case) \<Rightarrow> job_case" where
  "claim_stale staleAfter limit k = Call (ClaimStale staleAfter limit) (\<lambda>a. case a of Batch js \<Rightarrow> k js | _ \<Rightarrow> Fail)"

definition findClaimed :: "SearchJob list \<Rightarrow> string \<Rightarrow> SearchJob option" where
  "findClaimed batch i = find (\<lambda>j. sj_ID j = i) batch"

definition newSearchJob :: "int \<Rightarrow> string \<Rightarrow> string \<Rightarrow> SearchJob" where
  "newSearchJob now t i =
     \<lparr>sj_ID = i, sj_TenantID = t, sj_Status = ''RUNNING'', sj_ResultCount = 0, sj_Error = [], sj_CreateTime = now,
      sj_FinishTime = None, sj_CalcTimeMs = 0, sj_HeartbeatTime = None, sj_Epoch = 0, sj_StaleClaims = 0\<rparr>"

definition backdatedJob :: "int \<Rightarrow> string \<Rightarrow> string \<Rightarrow> int \<Rightarrow> SearchJob" where
  "backdatedJob now t i age = (newSearchJob now t i)\<lparr>sj_CreateTime := now - age - minute\<rparr>"

definition create_job :: "string \<Rightarrow> (int \<Rightarrow> SearchJob) \<Rightarrow> job_case \<Rightarrow> job_case" where
  "create_job t job k = with_now (\<lambda>now. expect (CreateJob t (job now)) no_error k)"

abbreviation create_new :: "string \<Rightarrow> string \<Rightarrow> job_case \<Rightarrow> job_case" where
  "create_new t i \<equiv> create_job t (\<lambda>now. newSearchJob now t i)"

definition succeed :: "string \<Rightarrow> string \<Rightarrow> int \<Rightarrow> int \<Rightarrow> job_case \<Rightarrow> job_case" where
  "succeed t i found calc k =
     with_now (\<lambda>now. expect (UpdateJobStatus t i 1 ''SUCCESSFUL'' found [] (Some now) calc) no_error k)"

definition reapJobAge :: int where "reapJobAge = hour"
definition survivalTTL :: int where "survivalTTL = 2 * hour"
definition reapTTL :: int where "reapTTL = minute"
definition freshJobAge :: int where "freshJobAge = minute"
definition freshTTL :: int where "freshTTL = hour"

definition claimStaleAfter :: int where "claimStaleAfter = minute"
definition claimShortStale :: int where "claimShortStale = 20 * millisecond"
definition claimAdvance :: int where "claimAdvance = 3 * claimShortStale"

definition advance :: "int \<Rightarrow> job_case \<Rightarrow> job_case" where
  "advance d k = expect (AdvanceClock d) no_error k"

definition testASCreateAndGet :: "string \<Rightarrow> (nat \<Rightarrow> string) \<Rightarrow> job_case" where
  "testASCreateAndGet t new =
     create_new t (new 0) (get_job t (new 0) (\<lambda>got. require (sj_ID got = new 0 \<and> sj_TenantID got = t) Pass))"

definition testASGetJobNotFound :: "string \<Rightarrow> (nat \<Rightarrow> string) \<Rightarrow> job_case" where
  "testASGetJobNotFound t new = expect (GetJob t (new 0)) (fails_with ErrNotFound) Pass"

definition testASUpdateSucceeded :: "string \<Rightarrow> (nat \<Rightarrow> string) \<Rightarrow> job_case" where
  "testASUpdateSucceeded t new =
     create_new t (new 0) (with_now (\<lambda>finish.
       expect (UpdateJobStatus t (new 0) 1 ''SUCCESSFUL'' 42 [] (Some finish) 100) no_error
       (get_job t (new 0) (\<lambda>got.
          require (sj_Status got = ''SUCCESSFUL'' \<and> sj_ResultCount got = 42 \<and> sj_CalcTimeMs got = 100
            \<and> sj_FinishTime got \<noteq> None) Pass))))"

definition testASUpdateFailed :: "string \<Rightarrow> (nat \<Rightarrow> string) \<Rightarrow> job_case" where
  "testASUpdateFailed t new =
     create_new t (new 0) (with_now (\<lambda>now.
       expect (UpdateJobStatus t (new 0) 1 ''FAILED'' 0 ''boom'' (Some now) 10) no_error
       (get_job t (new 0) (\<lambda>got. require (sj_Status got = ''FAILED'' \<and> sj_Error got = ''boom'') Pass))))"

definition testASResultsPagination :: "string \<Rightarrow> (nat \<Rightarrow> string) \<Rightarrow> job_case" where
  "testASResultsPagination t new =
     (let ids = map new [1..<9] in
      create_new t (new 0)
       (expect (SaveResults t (new 0) 1 ids) no_error
       (result_ids t (new 0) 0 3 (\<lambda>page1 total.
          require (total = 8 \<and> page1 = take 3 ids)
       (result_ids t (new 0) 3 3 (\<lambda>page2 total.
          require (total = 8 \<and> page2 = take 3 (drop 3 ids)) Pass))))))"

definition testASCancel :: "string \<Rightarrow> (nat \<Rightarrow> string) \<Rightarrow> job_case" where
  "testASCancel t new =
     create_new t (new 0) (with_now (\<lambda>ft.
       expect (Cancel t (new 0) ft) no_error
       (get_job t (new 0) (\<lambda>got.
          require (sj_Status got = ''CANCELLED'' \<and> sj_FinishTime got \<noteq> None)
       (expect (Cancel t (new 0) (ft + hour)) no_error
       (get_job t (new 0) (\<lambda>got2.
          require (sj_FinishTime got2 \<noteq> None \<and> sj_FinishTime got = sj_FinishTime got2) Pass)))))))"

definition testASCancelNotFound :: "string \<Rightarrow> (nat \<Rightarrow> string) \<Rightarrow> job_case" where
  "testASCancelNotFound t new = with_now (\<lambda>now. expect (Cancel t (new 0) now) (fails_with ErrNotFound) Pass)"

definition testASDeleteJob :: "string \<Rightarrow> (nat \<Rightarrow> string) \<Rightarrow> job_case" where
  "testASDeleteJob t new =
     create_new t (new 0)
       (expect (DeleteJob t (new 0)) no_error (expect (GetJob t (new 0)) (fails_with ErrNotFound) Pass))"

definition reaps_one :: "job_answer \<Rightarrow> bool" where
  "reaps_one a = (case a of Count n \<Rightarrow> 1 \<le> n | _ \<Rightarrow> False)"

definition testASReapExpired :: "string \<Rightarrow> (nat \<Rightarrow> string) \<Rightarrow> job_case" where
  "testASReapExpired t new =
     create_job t (\<lambda>now. backdatedJob now t (new 0) reapJobAge) (with_now (\<lambda>now.
       expect (UpdateJobStatus t (new 0) 1 ''SUCCESSFUL'' 0 [] (Some (now - reapJobAge)) 0) no_error
       (expect (ReapExpired survivalTTL) no_error
       (expect (GetJob t (new 0)) no_error
       (expect (ReapExpired reapTTL) reaps_one
       (expect (GetJob t (new 0)) (fails_with ErrNotFound) Pass))))))"

definition testASReapExpiredCancelledIsReapable :: "string \<Rightarrow> (nat \<Rightarrow> string) \<Rightarrow> job_case" where
  "testASReapExpiredCancelledIsReapable t new =
     create_job t (\<lambda>now. backdatedJob now t (new 0) reapJobAge) (with_now (\<lambda>now.
       expect (Cancel t (new 0) (now - reapJobAge)) no_error
       (expect (ReapExpired reapTTL) reaps_one
       (expect (GetJob t (new 0)) (fails_with ErrNotFound) Pass))))"

definition testASReapExpiredFreshNotReaped :: "string \<Rightarrow> (nat \<Rightarrow> string) \<Rightarrow> job_case" where
  "testASReapExpiredFreshNotReaped t new =
     create_job t (\<lambda>now. backdatedJob now t (new 0) freshJobAge)
     (create_job t (\<lambda>now. backdatedJob now t (new 1) reapJobAge) (with_now (\<lambda>now.
       expect (UpdateJobStatus t (new 0) 1 ''SUCCESSFUL'' 0 [] (Some (now - freshJobAge)) 0) no_error
       (expect (ReapExpired freshTTL) no_error
       (expect (GetJob t (new 0)) no_error
       (expect (GetJob t (new 1)) no_error Pass))))))"

definition testASTenantIsolation :: "string \<Rightarrow> string \<Rightarrow> (nat \<Rightarrow> string) \<Rightarrow> job_case" where
  "testASTenantIsolation tA tB new =
     create_new tA (new 0) (expect (GetJob tB (new 0)) (fails_with ErrNotFound) Pass)"

definition testASEpochInitialisedToOne :: "string \<Rightarrow> (nat \<Rightarrow> string) \<Rightarrow> job_case" where
  "testASEpochInitialisedToOne t new =
     create_job t (\<lambda>now. (newSearchJob now t (new 0))\<lparr>sj_Epoch := 42\<rparr>)
       (get_job t (new 0) (\<lambda>got. require (sj_Epoch got = 1) Pass))"

definition testASEpochFencedWrites :: "string \<Rightarrow> (nat \<Rightarrow> string) \<Rightarrow> job_case" where
  "testASEpochFencedWrites t new =
     create_new t (new 0) (with_now (\<lambda>now.
       expect (UpdateJobStatus t (new 0) 2 ''SUCCESSFUL'' 1 [] (Some now) 5) (fails_with ErrStaleClaim)
       (expect (Heartbeat t (new 0) 2) (fails_with ErrStaleClaim)
       (expect (SaveResults t (new 0) 2 [new 1]) (fails_with ErrStaleClaim)
       (get_job t (new 0) (\<lambda>got.
          require (sj_Status got = ''RUNNING'' \<and> sj_Epoch got = 1)
       (result_ids t (new 0) 0 10 (\<lambda>page total. require (total = 0) Pass))))))))"

definition testASTerminalWriteOnce :: "string \<Rightarrow> (nat \<Rightarrow> string) \<Rightarrow> job_case" where
  "testASTerminalWriteOnce t new =
     create_new t (new 0) (succeed t (new 0) 5 10 (with_now (\<lambda>now.
       expect (UpdateJobStatus t (new 0) 1 ''FAILED'' 0 ''boom'' (Some now) 5) (fails_with ErrAlreadyTerminal)
       (expect (Heartbeat t (new 0) 1) (fails_with ErrAlreadyTerminal)
       (expect (SaveResults t (new 0) 1 [new 1]) (fails_with ErrAlreadyTerminal) (with_now (\<lambda>now.
       expect (Cancel t (new 0) now) no_error
       (get_job t (new 0) (\<lambda>got.
          require (sj_Status got = ''SUCCESSFUL'' \<and> sj_ResultCount got = 5) Pass)))))))))"

definition later_beat :: "SearchJob \<Rightarrow> SearchJob \<Rightarrow> bool" where
  "later_beat got before =
     (case (sj_HeartbeatTime got, sj_HeartbeatTime before) of (Some b', Some b) \<Rightarrow> b < b' | _ \<Rightarrow> False)"

definition testASClaimStaleClaimed :: "string \<Rightarrow> (nat \<Rightarrow> string) \<Rightarrow> job_case" where
  "testASClaimStaleClaimed t new =
     create_new t (new 0)
       (expect (Heartbeat t (new 0) 1) no_error
       (get_job t (new 0) (\<lambda>before.
          require (sj_HeartbeatTime before \<noteq> None)
       (advance (2 * (10 * millisecond))
       (claim_stale (10 * millisecond) 1000 (\<lambda>batch.
          case findClaimed batch (new 0) of
            None \<Rightarrow> Fail
          | Some job \<Rightarrow> require (sj_Epoch job = 2 \<and> sj_HeartbeatTime job \<noteq> None)
       (get_job t (new 0) (\<lambda>got. require (sj_Epoch got = 2 \<and> later_beat got before) Pass))))))))"

definition testASClaimFreshNotClaimed :: "string \<Rightarrow> (nat \<Rightarrow> string) \<Rightarrow> job_case" where
  "testASClaimFreshNotClaimed t new =
     create_new t (new 0)
       ((advance (50 * millisecond) ^^ 12)
       (expect (Heartbeat t (new 0) 1) no_error
       (advance (10 * millisecond)
       (claim_stale (400 * millisecond) 1000 (\<lambda>batch. require (findClaimed batch (new 0) = None) Pass)))))"

definition beat_after :: "SearchJob \<Rightarrow> int \<Rightarrow> bool" where
  "beat_after got b = (case sj_HeartbeatTime got of None \<Rightarrow> False | Some b' \<Rightarrow> b < b')"

definition testASClaimHeartbeatStampedAtCreate :: "string \<Rightarrow> (nat \<Rightarrow> string) \<Rightarrow> job_case" where
  "testASClaimHeartbeatStampedAtCreate t new =
     with_now (\<lambda>now.
       let created = now - 365 * day; inputBeat = created - hour in
       expect (CreateJob t ((newSearchJob now t (new 0))\<lparr>sj_CreateTime := created, sj_HeartbeatTime := Some inputBeat\<rparr>)) no_error
       (get_job t (new 0) (\<lambda>got.
          require (beat_after got (inputBeat + 24 * hour))
       (claim_stale claimStaleAfter 1000 (\<lambda>batch.
          require (findClaimed batch (new 0) = None)
       (advance claimAdvance
       (claim_stale claimShortStale 1000 (\<lambda>batch. require (findClaimed batch (new 0) \<noteq> None) Pass))))))))"

definition testASClaimConcurrentDisjoint :: "string \<Rightarrow> (nat \<Rightarrow> string) \<Rightarrow> job_case" where
  "testASClaimConcurrentDisjoint t new =
     create_new t (new 0) (create_new t (new 1) (create_new t (new 2)
       (get_job t (new 0) (\<lambda>b0. require (sj_HeartbeatTime b0 \<noteq> None)
       (get_job t (new 1) (\<lambda>b1. require (sj_HeartbeatTime b1 \<noteq> None)
       (get_job t (new 2) (\<lambda>b2. require (sj_HeartbeatTime b2 \<noteq> None)
       (advance claimAdvance
       (claim_stale claimShortStale 1000 (\<lambda>batch.
          require (findClaimed batch (new 0) \<noteq> None) (get_job t (new 0) (\<lambda>j. require (later_beat j b0)
         (require (findClaimed batch (new 1) \<noteq> None) (get_job t (new 1) (\<lambda>j. require (later_beat j b1)
         (require (findClaimed batch (new 2) \<noteq> None) (get_job t (new 2) (\<lambda>j. require (later_beat j b2)
       (claim_stale claimStaleAfter 1000 (\<lambda>batch.
          require (\<forall>i \<in> set [new 0, new 1, new 2]. findClaimed batch i = None) Pass)))))))))))))))))))))"

definition testASClaimTerminalNeverClaimed :: "string \<Rightarrow> (nat \<Rightarrow> string) \<Rightarrow> job_case" where
  "testASClaimTerminalNeverClaimed t new =
     create_new t (new 0) (succeed t (new 0) 0 0
       (advance (365 * 24 * hour)
       (claim_stale (10 * millisecond) 1000 (\<lambda>batch. require (findClaimed batch (new 0) = None) Pass))))"

definition testASClearResultsIdempotent :: "string \<Rightarrow> (nat \<Rightarrow> string) \<Rightarrow> job_case" where
  "testASClearResultsIdempotent t new =
     create_new t (new 0)
       (expect (SaveResults t (new 0) 1 [new 1, new 2, new 3]) no_error
       (expect (ClearResults t (new 0) 1) no_error
       (result_ids t (new 0) 0 10 (\<lambda>page total. require (total = 0)
       (expect (ClearResults t (new 0) 1) no_error Pass)))))"

text \<open>A job claimed away from its first executor: the claim is at epoch 2.\<close>

definition reclaim :: "string \<Rightarrow> job_case \<Rightarrow> job_case" where
  "reclaim i k =
     advance claimAdvance (claim_stale claimShortStale 1000 (\<lambda>batch.
       case findClaimed batch i of None \<Rightarrow> Fail | Some job \<Rightarrow> require (sj_Epoch job = 2) k))"

definition testASClearResultsFenced :: "string \<Rightarrow> (nat \<Rightarrow> string) \<Rightarrow> job_case" where
  "testASClearResultsFenced t new =
     (let ids = [new 3, new 4, new 5] in
      expect (ClearResults t (new 9) 1) (fails_with ErrNotFound)
     (create_new t (new 0) (reclaim (new 0)
       (expect (SaveResults t (new 0) 2 ids) no_error
       (expect (ClearResults t (new 0) 1) (fails_with ErrStaleClaim)
       (result_ids t (new 0) 0 10 (\<lambda>page total. require (total = int (length ids))
       (expect (ClearResults t (new 0) 2) no_error
       (result_ids t (new 0) 0 10 (\<lambda>page total. require (total = 0)
       (create_new t (new 1)
       (expect (SaveResults t (new 1) 1 ids) no_error (succeed t (new 1) (int (length ids)) 0
       (expect (ClearResults t (new 1) 1) (fails_with ErrAlreadyTerminal)
       (result_ids t (new 1) 0 10 (\<lambda>page total. require (total = int (length ids)) Pass))))))))))))))))"

definition testASClearResultsTenantScoped :: "string \<Rightarrow> string \<Rightarrow> (nat \<Rightarrow> string) \<Rightarrow> job_case" where
  "testASClearResultsTenantScoped tA tB new =
     (let idsB = [new 3, new 4, new 5] in
      create_new tA (new 0) (create_new tB (new 0)
       (expect (SaveResults tA (new 0) 1 [new 1, new 2]) no_error
       (expect (SaveResults tB (new 0) 1 idsB) no_error
       (expect (ClearResults tA (new 0) 1) no_error
       (result_ids tA (new 0) 0 10 (\<lambda>page total. require (total = 0)
       (result_ids tB (new 0) 0 10 (\<lambda>page total. require (total = int (length idsB) \<and> page = idsB) Pass)))))))))"

definition testASSaveResultsChunkSeqContinuity :: "string \<Rightarrow> (nat \<Rightarrow> string) \<Rightarrow> job_case" where
  "testASSaveResultsChunkSeqContinuity t new =
     (let secondIDs = [new 4, new 5, new 6, new 7] in
      create_new t (new 0)
       (expect (SaveResults t (new 0) 1 [new 1, new 2, new 3]) no_error (reclaim (new 0)
       (expect (ClearResults t (new 0) 2) no_error
       (expect (SaveResults t (new 0) 2 secondIDs) no_error
       (result_ids t (new 0) 0 10 (\<lambda>page total. require (total = int (length secondIDs) \<and> page = secondIDs) Pass)))))))"

definition testASSaveResultsCtxCancelObserved :: "string \<Rightarrow> (nat \<Rightarrow> string) \<Rightarrow> job_case" where
  "testASSaveResultsCtxCancelObserved t new =
     (let items = 5000; cancelAfter = 2 in
      create_new t (new 0)
       (expect (StreamResults t (new 0) 1 items cancelAfter)
         (\<lambda>a. case a of Interrupted canceled pulled \<Rightarrow> canceled \<and> pulled < items | _ \<Rightarrow> False) Pass))"

definition testASSaveResultsEmptySequenceFences :: "string \<Rightarrow> (nat \<Rightarrow> string) \<Rightarrow> job_case" where
  "testASSaveResultsEmptySequenceFences t new =
     expect (SaveResults t (new 9) 1 []) (fails_with ErrNotFound)
     (create_new t (new 0)
       (expect (SaveResults t (new 0) 1 []) no_error
       (result_ids t (new 0) 0 10 (\<lambda>page total. require (total = 0)
       (create_new t (new 1) (reclaim (new 1)
       (expect (SaveResults t (new 1) 1 []) (fails_with ErrStaleClaim)
       (create_new t (new 2) (succeed t (new 2) 0 0
       (expect (SaveResults t (new 2) 1 []) (fails_with ErrAlreadyTerminal) Pass))))))))))"

definition errors :: "job_answer \<Rightarrow> bool" where
  "errors a = (case a of Failed e \<Rightarrow> True | _ \<Rightarrow> False)"

definition testASGetResultIDsDegenerateInputs :: "string \<Rightarrow> (nat \<Rightarrow> string) \<Rightarrow> job_case" where
  "testASGetResultIDsDegenerateInputs t new =
     create_new t (new 0)
       (expect (GetResultIDs t (new 0) (-1) 10) errors
       (expect (GetResultIDs t (new 0) 0 0) errors
       (expect (GetResultIDs t (new 0) 0 (-1)) errors Pass)))"

definition testASGetResultIDsNonTerminalPartial :: "string \<Rightarrow> (nat \<Rightarrow> string) \<Rightarrow> job_case" where
  "testASGetResultIDsNonTerminalPartial t new =
     (let ids = [new 1, new 2, new 3, new 4, new 5] in
      create_new t (new 0)
       (expect (SaveResults t (new 0) 1 ids) no_error
       (get_job t (new 0) (\<lambda>got. require (sj_Status got = ''RUNNING'')
       (result_ids t (new 0) 0 10 (\<lambda>page total. require (total = 5 \<and> page = ids) Pass))))))"

definition testASUpdateStatusMissingIsNotFound :: "string \<Rightarrow> (nat \<Rightarrow> string) \<Rightarrow> job_case" where
  "testASUpdateStatusMissingIsNotFound t new =
     with_now (\<lambda>now. expect (UpdateJobStatus t (new 0) 1 ''SUCCESSFUL'' 0 [] (Some now) 0) (fails_with ErrNotFound) Pass)"

definition testASUpdateStatusZeroFinishTimeAbsent :: "string \<Rightarrow> (nat \<Rightarrow> string) \<Rightarrow> job_case" where
  "testASUpdateStatusZeroFinishTimeAbsent t new =
     create_new t (new 0)
       (expect (UpdateJobStatus t (new 0) 1 ''FAILED'' 0 ''boom'' None 0) no_error
       (get_job t (new 0) (\<lambda>got. require (sj_FinishTime got = None) Pass)))"

definition testASHeartbeatSemantics :: "string \<Rightarrow> (nat \<Rightarrow> string) \<Rightarrow> job_case" where
  "testASHeartbeatSemantics t new =
     expect (Heartbeat t (new 9) 1) (fails_with ErrNotFound)
     (create_new t (new 0)
       (expect (Heartbeat t (new 0) 2) (fails_with ErrStaleClaim) (succeed t (new 0) 0 0
       (expect (Heartbeat t (new 0) 1) (fails_with ErrAlreadyTerminal) Pass))))"

definition testASReleaseImmediatelyClaimable :: "string \<Rightarrow> (nat \<Rightarrow> string) \<Rightarrow> job_case" where
  "testASReleaseImmediatelyClaimable t new =
     create_new t (new 0)
       (expect (Release t (new 0) 1) no_error
       (claim_stale hour 1000 (\<lambda>batch. case findClaimed batch (new 0) of
            None \<Rightarrow> Fail
          | Some job \<Rightarrow> require (sj_Epoch job = 2 \<and> sj_StaleClaims job = 0 \<and> sj_Status job = ''RUNNING'')
       (get_job t (new 0) (\<lambda>got. require (sj_Epoch got = 2 \<and> sj_StaleClaims got = 0) Pass)))))"

definition testASReleaseSemantics :: "string \<Rightarrow> (nat \<Rightarrow> string) \<Rightarrow> job_case" where
  "testASReleaseSemantics t new =
     expect (Release t (new 9) 1) (fails_with ErrNotFound)
     (create_new t (new 0)
       (expect (Release t (new 0) 2) (fails_with ErrStaleClaim)
       (claim_stale hour 1000 (\<lambda>batch. require (findClaimed batch (new 0) = None) (succeed t (new 0) 0 0
       (expect (Release t (new 0) 1) (fails_with ErrAlreadyTerminal) Pass))))))"

definition testASReleaseIdempotent :: "string \<Rightarrow> (nat \<Rightarrow> string) \<Rightarrow> job_case" where
  "testASReleaseIdempotent t new =
     create_new t (new 0)
       (expect (Release t (new 0) 1) no_error
       (expect (Release t (new 0) 1) no_error
       (claim_stale hour 1000 (\<lambda>batch. require (findClaimed batch (new 0) \<noteq> None)
       (claim_stale hour 1000 (\<lambda>batch. require (findClaimed batch (new 0) = None) Pass))))))"

definition testASReleaseHeartbeatNoResurrect :: "string \<Rightarrow> (nat \<Rightarrow> string) \<Rightarrow> job_case" where
  "testASReleaseHeartbeatNoResurrect t new =
     create_new t (new 0)
       (expect (Release t (new 0) 1) no_error
       (expect (Heartbeat t (new 0) 1) no_error
       (claim_stale hour 1000 (\<lambda>batch. require (findClaimed batch (new 0) \<noteq> None) Pass))))"

definition testASReleaseClaimClearsMark :: "string \<Rightarrow> (nat \<Rightarrow> string) \<Rightarrow> job_case" where
  "testASReleaseClaimClearsMark t new =
     create_new t (new 0)
       (expect (Release t (new 0) 1) no_error
       (claim_stale hour 1000 (\<lambda>batch. require (findClaimed batch (new 0) \<noteq> None)
       (expect (Heartbeat t (new 0) 2) no_error
       (claim_stale hour 1000 (\<lambda>batch. require (findClaimed batch (new 0) = None) Pass))))))"

definition claim_counted :: "string \<Rightarrow> SearchJob list \<Rightarrow> int \<Rightarrow> bool" where
  "claim_counted i batch n = (case findClaimed batch i of None \<Rightarrow> False | Some job \<Rightarrow> sj_StaleClaims job = n)"

definition testASReleaseClaimNotCounted :: "string \<Rightarrow> (nat \<Rightarrow> string) \<Rightarrow> job_case" where
  "testASReleaseClaimNotCounted t new =
     create_new t (new 0)
       (expect (Release t (new 0) 1) no_error
       (claim_stale hour 1000 (\<lambda>batch. require (claim_counted (new 0) batch 0)
       (advance (2 * (40 * millisecond))
       (claim_stale (40 * millisecond) 1000 (\<lambda>batch. require (claim_counted (new 0) batch 1) Pass))))))"

definition testASClaimStaleClaimCounted :: "string \<Rightarrow> (nat \<Rightarrow> string) \<Rightarrow> job_case" where
  "testASClaimStaleClaimCounted t new =
     create_new t (new 0)
       (advance claimAdvance
       (claim_stale claimShortStale 1000 (\<lambda>batch. require (claim_counted (new 0) batch 1)
       (get_job t (new 0) (\<lambda>got. require (sj_StaleClaims got = 1)
       (advance (2 * (40 * millisecond))
       (claim_stale (40 * millisecond) 1000 (\<lambda>batch. require (claim_counted (new 0) batch 2)
       (create_job t (\<lambda>now. (newSearchJob now t (new 1))\<lparr>sj_StaleClaims := 7\<rparr>)
       (get_job t (new 1) (\<lambda>got. require (sj_StaleClaims got = 0) Pass)))))))))))"

definition testASClaimReleasedNotTerminal :: "string \<Rightarrow> (nat \<Rightarrow> string) \<Rightarrow> job_case" where
  "testASClaimReleasedNotTerminal t new =
     create_new t (new 0)
       (expect (Release t (new 0) 1) no_error (with_now (\<lambda>now.
       expect (Cancel t (new 0) now) no_error
       (claim_stale hour 1000 (\<lambda>batch. require (findClaimed batch (new 0) = None) Pass)))))"

text \<open>The registered cases, in their order.\<close>

definition runAsyncSearchSuite :: "string \<Rightarrow> string \<Rightarrow> (nat \<Rightarrow> string) \<Rightarrow> job_case list" where
  "runAsyncSearchSuite tA tB new =
    [testASCreateAndGet tA new, testASGetJobNotFound tA new, testASUpdateSucceeded tA new, testASUpdateFailed tA new,
     testASResultsPagination tA new, testASCancel tA new, testASCancelNotFound tA new, testASDeleteJob tA new,
     testASReapExpired tA new, testASReapExpiredCancelledIsReapable tA new, testASReapExpiredFreshNotReaped tA new,
     testASTenantIsolation tA tB new, testASEpochInitialisedToOne tA new, testASEpochFencedWrites tA new,
     testASTerminalWriteOnce tA new, testASClaimStaleClaimed tA new, testASClaimFreshNotClaimed tA new,
     testASClaimHeartbeatStampedAtCreate tA new, testASClaimConcurrentDisjoint tA new,
     testASClaimTerminalNeverClaimed tA new, testASClearResultsIdempotent tA new, testASClearResultsFenced tA new,
     testASClearResultsTenantScoped tA tB new, testASSaveResultsChunkSeqContinuity tA new,
     testASSaveResultsCtxCancelObserved tA new, testASSaveResultsEmptySequenceFences tA new, testASGetResultIDsDegenerateInputs tA new,
     testASGetResultIDsNonTerminalPartial tA new, testASUpdateStatusMissingIsNotFound tA new,
     testASUpdateStatusZeroFinishTimeAbsent tA new, testASHeartbeatSemantics tA new,
     testASReleaseImmediatelyClaimable tA new, testASReleaseSemantics tA new, testASReleaseIdempotent tA new,
     testASReleaseHeartbeatNoResurrect tA new, testASReleaseClaimClearsMark tA new, testASReleaseClaimNotCounted tA new,
     testASClaimStaleClaimCounted tA new, testASClaimReleasedNotTerminal tA new]"

subsection \<open>Runs below the limit\<close>

text \<open>
  While the store holds at most 1000 jobs a claim with that limit takes everything claimable, and the rows after
  each call are a function of the rows before it: the form in which the cases are run.
\<close>

definition sweep :: "int \<Rightarrow> int \<Rightarrow> job_rows \<Rightarrow> job_rows" where
  "sweep now staleAfter jobs = (\<lambda>k. map_option (\<lambda>r. if claimable now staleAfter r then claimed now r else r) (jobs k))"

definition reap :: "int \<Rightarrow> int \<Rightarrow> job_rows \<Rightarrow> job_rows" where
  "reap now ttl jobs = (\<lambda>k. case jobs k of None \<Rightarrow> None | Some r \<Rightarrow> if expired now ttl r then None else Some r)"

definition only_here :: "job_rows \<Rightarrow> string \<Rightarrow> string \<Rightarrow> bool" where
  "only_here jobs t i \<longleftrightarrow> (\<forall>t'. t' \<noteq> t \<longrightarrow> jobs (t', i) = None)"

definition batched :: "int \<Rightarrow> int \<Rightarrow> job_rows \<Rightarrow> SearchJob list \<Rightarrow> bool" where
  "batched now staleAfter jobs js \<longleftrightarrow>
     (\<forall>t i r. jobs (t, i) = Some r \<longrightarrow> only_here jobs t i \<longrightarrow>
        findClaimed js i = (if claimable now staleAfter r then Some (job_view (claimed now r)) else None))"

definition reaped :: "int \<Rightarrow> int \<Rightarrow> job_rows \<Rightarrow> int \<Rightarrow> bool" where
  "reaped now ttl jobs n \<longleftrightarrow> (\<forall>k r. jobs k = Some r \<longrightarrow> expired now ttl r \<longrightarrow> 1 \<le> n)"

fun calm_effect :: "int \<Rightarrow> job_call \<Rightarrow> job_rows \<Rightarrow> job_answer \<Rightarrow> job_rows \<Rightarrow> bool" where
  "calm_effect now (CreateJob tn job) jobs a jobs' \<longleftrightarrow>
     (jobs (tn, sj_ID job) = None \<longrightarrow> a = Done \<and> jobs' = jobs((tn, sj_ID job) \<mapsto> created now tn job))"
| "calm_effect now (ReapExpired ttl) jobs a jobs' \<longleftrightarrow>
     (\<exists>b n. near b now \<and> a = Count n \<and> jobs' = reap b ttl jobs \<and> reaped b ttl jobs n)"
| "calm_effect now (ClaimStale staleAfter limit) jobs a jobs' \<longleftrightarrow>
     (1000 \<le> limit \<longrightarrow>
        (\<exists>js. a = Batch js \<and> jobs' = sweep now staleAfter jobs \<and> batched now staleAfter jobs js))"
| "calm_effect now c jobs a jobs' = job_effect now c jobs a jobs'"

definition calm_allows :: "job_rows \<times> int \<times> int \<Rightarrow> job_call \<Rightarrow> job_answer \<Rightarrow> job_rows \<times> int \<times> int \<Rightarrow> bool" where
  "calm_allows m c a m' \<longleftrightarrow>
     (case (m, m') of ((jobs, clock, until), (jobs', clock', until')) \<Rightarrow>
        clock + advance_of c \<le> clock' \<and> clock' \<le> until' \<and> until' = until + advance_of c
        \<and> calm_effect clock' c jobs a jobs')"

definition well_kept :: "job_store \<Rightarrow> bool" where
  "well_kept m \<longleftrightarrow> finite (dom (js_rows m)) \<and> card (dom (js_rows m)) + js_room m \<le> 1000
     \<and> (\<forall>k r. js_rows m k = Some r \<longrightarrow> sj_ID (row_job r) = snd k)"

lemma claimed_ID: "sj_ID (row_job (claimed now r)) = sj_ID (row_job r)" "sj_ID (job_view (claimed now r)) = sj_ID (row_job r)"
  by (simp_all add: claimed_def job_view_def)

lemma find_Some_mem: "find P xs = Some y \<Longrightarrow> y \<in> set xs \<and> P y"
  by (induction xs) (auto split: if_splits)

lemma find_unique: "x \<in> set xs \<Longrightarrow> P x \<Longrightarrow> (\<And>y. y \<in> set xs \<Longrightarrow> P y \<Longrightarrow> y = x) \<Longrightarrow> find P xs = Some x"
  using find_Some_mem [of P xs] find_None_iff [of P xs] by (metis not_Some_eq)

lemma claimable_finite: "finite (dom jobs) \<Longrightarrow> finite (claimable_keys now w jobs) \<and> card (claimable_keys now w jobs) \<le> card (dom jobs)"
proof -
  assume f: "finite (dom jobs)"
  have "claimable_keys now w jobs \<subseteq> dom jobs" by (auto simp: claimable_keys_def split: option.splits)
  then show ?thesis using f by (simp add: card_mono finite_subset)
qed

lemma claims_sweep:
  assumes f: "finite (dom jobs)" "card (dom jobs) \<le> 1000" and ids: "\<And>k r. jobs k = Some r \<Longrightarrow> sj_ID (row_job r) = snd k"
    and c: "claims now w limit jobs js jobs'" and limit: "1000 \<le> limit"
  shows "jobs' = sweep now w jobs"
    "jobs (t, i) = Some r \<Longrightarrow> only_here jobs t i \<Longrightarrow>
       findClaimed js i = (if claimable now w r then Some (job_view (claimed now r)) else None)"
proof -
  let ?all = "claimable_keys now w jobs"
  have "finite ?all \<and> int (card ?all) \<le> limit" using claimable_finite [OF f(1), of now w] f(2) limit by linarith
  then have j': "jobs' = (\<lambda>k. if k \<in> ?all then map_option (claimed now) (jobs k) else jobs k)"
    and js: "set js = (\<lambda>k. job_view (claimed now (the (jobs k)))) ` ?all"
    using c by (auto simp: claims_def)
  show "jobs' = sweep now w jobs"
    unfolding j' by (rule ext) (auto simp: sweep_def claimable_keys_def split: option.splits)
  have mine: "k = (t, i)"
    if mem: "k \<in> ?all" and i: "sj_ID (job_view (claimed now (the (jobs k)))) = i" and here: "only_here jobs t i" for k
  proof -
    obtain r' where "jobs k = Some r'" using mem by (auto simp: claimable_keys_def split: option.splits)
    then have "snd k = i" "jobs k \<noteq> None" using i ids by (auto simp: claimed_ID)
    then show ?thesis using here by (cases k) (auto simp: only_here_def)
  qed
  show "findClaimed js i = (if claimable now w r then Some (job_view (claimed now r)) else None)"
    if r: "jobs (t, i) = Some r" and here: "only_here jobs t i"
  proof (cases "claimable now w r")
    case True
    then have "(t, i) \<in> ?all" using r by (simp add: claimable_keys_def)
    then have "job_view (claimed now r) \<in> set js" using r by (auto simp: js intro!: image_eqI [of _ _ "(t, i)"])
    moreover have "sj_ID (job_view (claimed now r)) = i" using ids [OF r] by (simp add: claimed_ID)
    moreover have "y = job_view (claimed now r)" if y: "y \<in> set js" "sj_ID y = i" for y
    proof -
      from y(1) obtain k where k: "k \<in> ?all" "y = job_view (claimed now (the (jobs k)))" unfolding js by (elim imageE)
      then have "k = (t, i)" using mine [OF k(1) _ here] y(2) by simp
      then show ?thesis using k(2) r by simp
    qed
    ultimately have "find (\<lambda>j. sj_ID j = i) js = Some (job_view (claimed now r))" by (rule find_unique)
    then show ?thesis using True by (simp add: findClaimed_def)
  next
    case False
    then have "(t, i) \<notin> ?all" using r by (simp add: claimable_keys_def)
    have "sj_ID y \<noteq> i" if y: "y \<in> set js" for y
    proof
      assume i: "sj_ID y = i"
      from y obtain k where k: "k \<in> ?all" "y = job_view (claimed now (the (jobs k)))" unfolding js by (elim imageE)
      then have "k = (t, i)" using mine [OF k(1) _ here] i by simp
      then show False using k(1) \<open>(t, i) \<notin> ?all\<close> by simp
    qed
    then show ?thesis using False by (simp add: findClaimed_def find_None_iff)
  qed
qed

text \<open>Every call keeps a store well kept, and refines the calm form.\<close>

lemma effect_rows:
  assumes "job_effect now c jobs a jobs'"
  shows "(\<forall>k. jobs' k \<noteq> None \<longrightarrow> jobs k \<noteq> None \<or> (\<exists>tn job. c = CreateJob tn job \<and> k = (tn, sj_ID job)))"
    "(\<forall>k r. jobs k = Some r \<longrightarrow> sj_ID (row_job r) = snd k) \<Longrightarrow> (\<forall>k r. jobs' k = Some r \<longrightarrow> sj_ID (row_job r) = snd k)"
  using assms
  by (cases c; auto simp: key_of_def fenced_def updated_def cancelled_def created_def claims_def claimed_ID
      split: option.splits if_splits; metis)+

lemma calm_refines:
  assumes kept: "well_kept m" and step: "job_allows m c a m'"
  shows "calm_allows (js_rows m, js_clock m, js_until m) c a (js_rows m', js_clock m', js_until m') \<and> well_kept m'"
proof -
  have e: "job_effect (js_clock m') c (js_rows m) a (js_rows m')"
    and room: "js_room m = js_room m' + (if creates c then 1 else 0)" using step by (simp_all add: job_allows_def)
  have f: "finite (dom (js_rows m))" "card (dom (js_rows m)) + js_room m \<le> 1000"
    and ids: "\<forall>k r. js_rows m k = Some r \<longrightarrow> sj_ID (row_job r) = snd k" using kept by (simp_all add: well_kept_def)
  let ?new = "case c of CreateJob tn job \<Rightarrow> {(tn, sj_ID job)} | _ \<Rightarrow> {}"
  have new: "finite ?new" "card ?new = (if creates c then 1 else 0)" by (cases c; simp)+
  have "dom (js_rows m') \<subseteq> dom (js_rows m) \<union> ?new" using effect_rows(1) [OF e] by (fastforce split: job_call.split)
  then have d: "finite (dom (js_rows m'))" "card (dom (js_rows m')) \<le> card (dom (js_rows m)) + card ?new"
    using f(1) new(1) by (meson finite_UnI finite_subset, meson card_Un_le card_mono finite_UnI le_trans)
  have "well_kept m'" using d f room new(2) effect_rows(2) [OF e ids] by (auto simp: well_kept_def split: if_splits)
  moreover have "calm_effect (js_clock m') c (js_rows m) a (js_rows m')"
  proof (cases c)
    case (CreateJob tn job)
    then show ?thesis using e by simp
  next
    case (ReapExpired ttl)
    then obtain b where b: "near b (js_clock m')" "a = Count (int (card (expired_keys b ttl (js_rows m))))"
      "js_rows m' = (\<lambda>k. if k \<in> expired_keys b ttl (js_rows m) then None else js_rows m k)" using e by auto
    have r: "js_rows m' = reap b ttl (js_rows m)"
      unfolding b(3) by (rule ext) (auto simp: reap_def expired_keys_def split: option.splits)
    have "expired_keys b ttl (js_rows m) \<subseteq> dom (js_rows m)" by (auto simp: expired_keys_def split: option.splits)
    then have fin: "finite (expired_keys b ttl (js_rows m))" using f(1) finite_subset by blast
    have "1 \<le> card (expired_keys b ttl (js_rows m))" if "js_rows m k = Some r" "expired b ttl r" for k r
    proof -
      have "k \<in> expired_keys b ttl (js_rows m)" using that by (simp add: expired_keys_def)
      then show ?thesis using fin by (metis One_nat_def Suc_leI card_gt_0_iff empty_iff)
    qed
    then show ?thesis using ReapExpired b(1,2) r by (auto simp: reaped_def)
  next
    case (ClaimStale w limit)
    then obtain js where js: "a = Batch js" "claims (js_clock m') w limit (js_rows m) js (js_rows m')" using e by auto
    have c1: "card (dom (js_rows m)) \<le> 1000" using f(2) by simp
    note cs = claims_sweep [OF f(1) c1 _ js(2)]
    show ?thesis using ClaimStale js(1) cs ids by (auto simp: batched_def)
  qed (use e in simp_all)
  ultimately show ?thesis using step by (simp add: calm_allows_def job_allows_def)
qed

subsection \<open>Running the cases\<close>

lemma passes_calm:
  "passes calm_allows (Call c k) (J, cl, u) \<longleftrightarrow>
     (\<forall>a now J'. cl + advance_of c \<le> now \<longrightarrow> now \<le> u + advance_of c \<longrightarrow> calm_effect now c J a J'
        \<longrightarrow> passes calm_allows (k a) (J', now, u + advance_of c))"
  by (auto simp: calm_allows_def)

lemma passes_calm_expect:
  "passes calm_allows (expect c ok k) (J, cl, u) \<longleftrightarrow>
     (\<forall>a now J'. cl + advance_of c \<le> now \<longrightarrow> now \<le> u + advance_of c \<longrightarrow> calm_effect now c J a J'
        \<longrightarrow> ok a \<and> passes calm_allows k (J', now, u + advance_of c))"
  by (auto simp: calm_allows_def)

lemma sweep_at: "sweep now w jobs k = map_option (\<lambda>r. if claimable now w r then claimed now r else r) (jobs k)"
  by (simp add: sweep_def)

lemma reap_at: "reap now ttl jobs k = (case jobs k of None \<Rightarrow> None | Some r \<Rightarrow> if expired now ttl r then None else Some r)"
  by (simp add: reap_def)

lemma batch_at: "batched now w jobs js \<Longrightarrow> jobs (t, i) \<noteq> None \<Longrightarrow> only_here jobs t i \<Longrightarrow>
    findClaimed js i = (if claimable now w (the (jobs (t, i))) then Some (job_view (claimed now (the (jobs (t, i))))) else None)"
  by (auto simp: batched_def)

lemma reap_one: "reaped b ttl jobs n \<Longrightarrow> jobs k \<noteq> None \<Longrightarrow> expired b ttl (the (jobs k)) \<Longrightarrow> 1 \<le> n"
  by (cases k; cases "jobs k") (auto simp: reaped_def)

lemmas job_shape = with_now_def get_job_def result_ids_def claim_stale_def create_job_def succeed_def advance_def reclaim_def Let_def
lemmas job_rules = passes_calm passes_calm_expect fenced_def refusal_def no_error_def fails_with_def errors_def sentinel_Is_iff parent_def
  newSearchJob_def backdatedJob_def created_def updated_def cancelled_def terminal_def epoch_def job_view_def claimed_def claimable_def
  expired_def sweep_at reap_at only_here_def near_def skew_def minute_def hour_def day_def millisecond_def
  claimStaleAfter_def claimShortStale_def claimAdvance_def reapJobAge_def survivalTTL_def reapTTL_def freshJobAge_def freshTTL_def
  claim_counted_def later_beat_def beat_after_def reaps_one_def chunk_bound_def

lemma twelve: "(f ^^ 12) x = f (f (f (f (f (f (f (f (f (f (f (f x)))))))))))"
  by (simp add: numeral_eq_Suc)

text \<open>
  Where a case starts: its ids are new in every tenant, and the clock is granted the 390 ms that the suite
  names as the margin of its tightest case.
\<close>

definition fresh_start :: "string \<Rightarrow> string \<Rightarrow> (nat \<Rightarrow> string) \<Rightarrow> job_rows \<Rightarrow> int \<Rightarrow> int \<Rightarrow> bool" where
  "fresh_start tA tB new jobs clock until \<longleftrightarrow>
     tA \<noteq> tB \<and> (\<forall>t n. jobs (t, new n) = None) \<and> (\<forall>m n. new m = new n \<longrightarrow> m = n) \<and> until \<le> clock + 390 * millisecond"

lemma fresh_startD:
  assumes "fresh_start tA tB new jobs clock until"
  shows "jobs (t, new n) = None" "new m = new n \<longleftrightarrow> m = n" "until \<le> clock + 390000000" "tA \<noteq> tB"
  using assms by (auto simp: fresh_start_def millisecond_def)

lemma job_cases_1:
  assumes s: "fresh_start tA tB new jobs clock until"
  shows "list_all (\<lambda>t. passes calm_allows t (jobs, clock, until))
      [testASCreateAndGet tA new,
       testASGetJobNotFound tA new,
       testASUpdateSucceeded tA new,
       testASUpdateFailed tA new,
       testASResultsPagination tA new,
       testASCancel tA new,
       testASCancelNotFound tA new,
       testASDeleteJob tA new,
       testASReapExpired tA new,
       testASReapExpiredCancelledIsReapable tA new]"
  unfolding list.pred_inject testASCreateAndGet_def testASGetJobNotFound_def testASUpdateSucceeded_def testASUpdateFailed_def testASResultsPagination_def testASCancel_def testASCancelNotFound_def testASDeleteJob_def testASReapExpired_def testASReapExpiredCancelledIsReapable_def
  using fresh_startD(3,4) [OF s]
  by (intro conjI TrueI)
    (auto simp: job_shape job_rules twelve fresh_startD(1,2) [OF s] batch_at [where t = tA] reap_one [where k = "(tA, new 0)"]
      simp del: passes.simps(3) passes_expect)

lemma job_cases_2:
  assumes s: "fresh_start tA tB new jobs clock until"
  shows "list_all (\<lambda>t. passes calm_allows t (jobs, clock, until))
      [testASReapExpiredFreshNotReaped tA new,
       testASTenantIsolation tA tB new,
       testASEpochInitialisedToOne tA new,
       testASEpochFencedWrites tA new,
       testASTerminalWriteOnce tA new,
       testASClaimStaleClaimed tA new,
       testASClaimFreshNotClaimed tA new,
       testASClaimHeartbeatStampedAtCreate tA new,
       testASClaimConcurrentDisjoint tA new,
       testASClaimTerminalNeverClaimed tA new]"
  unfolding list.pred_inject testASReapExpiredFreshNotReaped_def testASTenantIsolation_def testASEpochInitialisedToOne_def testASEpochFencedWrites_def testASTerminalWriteOnce_def testASClaimStaleClaimed_def testASClaimFreshNotClaimed_def testASClaimHeartbeatStampedAtCreate_def testASClaimConcurrentDisjoint_def testASClaimTerminalNeverClaimed_def
  using fresh_startD(3,4) [OF s]
  by (intro conjI TrueI)
    (auto simp: job_shape job_rules twelve fresh_startD(1,2) [OF s] batch_at [where t = tA] reap_one [where k = "(tA, new 0)"]
      simp del: passes.simps(3) passes_expect)

lemma job_cases_3:
  assumes s: "fresh_start tA tB new jobs clock until"
  shows "list_all (\<lambda>t. passes calm_allows t (jobs, clock, until))
      [testASClearResultsIdempotent tA new,
       testASClearResultsFenced tA new,
       testASClearResultsTenantScoped tA tB new,
       testASSaveResultsChunkSeqContinuity tA new,
       testASSaveResultsEmptySequenceFences tA new,
       testASGetResultIDsDegenerateInputs tA new,
       testASGetResultIDsNonTerminalPartial tA new,
       testASUpdateStatusMissingIsNotFound tA new,
       testASUpdateStatusZeroFinishTimeAbsent tA new,
       testASHeartbeatSemantics tA new]"
  unfolding list.pred_inject testASClearResultsIdempotent_def testASClearResultsFenced_def testASClearResultsTenantScoped_def testASSaveResultsChunkSeqContinuity_def testASSaveResultsEmptySequenceFences_def testASGetResultIDsDegenerateInputs_def testASGetResultIDsNonTerminalPartial_def testASUpdateStatusMissingIsNotFound_def testASUpdateStatusZeroFinishTimeAbsent_def testASHeartbeatSemantics_def
  using fresh_startD(3,4) [OF s]
  by (intro conjI TrueI)
    (auto simp: job_shape job_rules twelve fresh_startD(1,2) [OF s] batch_at [where t = tA] reap_one [where k = "(tA, new 0)"]
      simp del: passes.simps(3) passes_expect)

lemma job_cases_4:
  assumes s: "fresh_start tA tB new jobs clock until"
  shows "list_all (\<lambda>t. passes calm_allows t (jobs, clock, until))
      [testASSaveResultsCtxCancelObserved tA new,
       testASReleaseImmediatelyClaimable tA new,
       testASReleaseSemantics tA new,
       testASReleaseIdempotent tA new,
       testASReleaseHeartbeatNoResurrect tA new,
       testASReleaseClaimClearsMark tA new,
       testASReleaseClaimNotCounted tA new,
       testASClaimStaleClaimCounted tA new,
       testASClaimReleasedNotTerminal tA new]"
  unfolding list.pred_inject testASSaveResultsCtxCancelObserved_def testASReleaseImmediatelyClaimable_def testASReleaseSemantics_def testASReleaseIdempotent_def testASReleaseHeartbeatNoResurrect_def testASReleaseClaimClearsMark_def testASReleaseClaimNotCounted_def testASClaimStaleClaimCounted_def testASClaimReleasedNotTerminal_def
  using fresh_startD(3,4) [OF s]
  by (intro conjI TrueI)
    (auto simp: job_shape job_rules twelve fresh_startD(1,2) [OF s] batch_at [where t = tA] reap_one [where k = "(tA, new 0)"]
      simp del: passes.simps(3) passes_expect)

lemma job_case_passes:
  assumes s: "fresh_start tA tB new jobs clock until" and t: "t \<in> set (runAsyncSearchSuite tA tB new)"
  shows "passes calm_allows t (jobs, clock, until)"
  using t job_cases_1 [OF s] job_cases_2 [OF s] job_cases_3 [OF s] job_cases_4 [OF s]
  by (auto simp: runAsyncSearchSuite_def)

subsection \<open>The suite as a whole\<close>

lemma ls_run_keeps:
  assumes "ls_ok s" "creates c \<Longrightarrow> 0 < ls_room s" "0 \<le> advance_of c"
  shows "run_keeps job_allows ls_exec ls_view (Call c k) s
    = run_keeps job_allows ls_exec ls_view (k (fst (ls_exec c s))) (snd (ls_exec c s))"
  using ls_step(1) [OF assms] by simp

lemmas ls_run = ls_run_keeps ls_eval job_shape expect_def require_def newSearchJob_def findClaimed_def no_error_def hour_def

text \<open>On every store whose run of the case is one that \<open>Search_Jobs\<close> assumes, every registered case passes: with ids
  that are new in every tenant, two tenants, and a clock that runs on by no more than the margin of the
  tightest case.\<close>

theorem jobs_suite_passes:
  assumes "run_keeps job_allows exec view t s" "well_kept (view s)"
    and "fresh_start tA tB new (js_rows (view s)) (js_clock (view s)) (js_until (view s))"
    and "t \<in> set (runAsyncSearchSuite tA tB new)"
  shows "run_case exec t s"
proof -
  have "passes job_allows t (view s)"
    by (rule passes_refines [where allows = job_allows and simpler = calm_allows and ok = well_kept and f = "\<lambda>m. (js_rows m, js_clock m, js_until m)"], rule calm_refines)
      (use assms(2) job_case_passes [OF assms(3,4)] in simp_all)
  then show ?thesis by (rule kept_run [OF assms(1)])
qed

theorem jobs_suite_passes_witness:
  "run_case ls_exec (testASReleaseClaimClearsMark ''a'' (\<lambda>n. replicate (Suc n) CHR ''i''))
     \<lparr>ls_rows = [], ls_clock = 0, ls_room = 10\<rparr>"
proof (rule jobs_suite_passes [where view = ls_view and tA = "''a''" and tB = "''b''" and new = "\<lambda>n. replicate (Suc n) CHR ''i''"])
  show "run_keeps job_allows ls_exec ls_view (testASReleaseClaimClearsMark ''a'' (\<lambda>n. replicate (Suc n) CHR ''i''))
     \<lparr>ls_rows = [], ls_clock = 0, ls_room = 10\<rparr>"
    unfolding testASReleaseClaimClearsMark_def by (simp add: ls_run del: run_keeps.simps(3))
qed (simp_all add: well_kept_def fresh_start_def ls_view_def runAsyncSearchSuite_def millisecond_def)

end
