(* ===== verification/Spec2Isabelle.thy ===== *)
theory Spec2Isabelle
  imports Data_Type Decimals Filter_Op Numeric_Bucket Utf8 Like_Pattern Parse_Typed Temporal Operand Filter_Path Eval_Leaf
    Resolve Entity_Meta Prepared_Filter Ordering Merges Path_Subscript Conditions Model_Schema Model_Fields Field_Cache Slice_Sort Claims Unique_Signature
    Attribution Predicate_Codec Plugins Spi_Errors Suite_Search Suite_Base Suite_KeyValue Search_Jobs Suite_Jobs
begin

text \<open>
  A verification development for the cyoda-go storage-provider interface, the Go package \<open>spi\<close> at the root
  of the repository with its subpackages \<open>predicate\<close> and \<open>strictjson\<close>. The package holds the logic every
  storage backend shares: how a search condition becomes a filter, how a filter decides an entity, how
  numbers, dates and text compare, how results are ordered and merged, how a model's schema is kept, how
  scheduled tasks are claimed. Its subpackage \<open>spitest\<close> is the suite a backend has to pass. Two backends that disagree on any of it return different rows for the same
  request, so what is proved here is exactness: which rows, which order, which refusals.

  \<^bold>\<open>How the parts interact.\<close> A request arrives as JSON and is parsed to a condition (\<open>Predicate_Codec\<close>);
  it is validated, desugared and translated to a filter with the types a model's schema declares for each
  path (\<open>Conditions\<close>, with \<open>Model_Schema\<close> and \<open>Model_Fields\<close>). \<open>Prepare\<close> checks the filter once and compiles each
  leaf (\<open>Prepared_Filter\<close>, \<open>Operand\<close>, \<open>Filter_Path\<close>); \<open>Match\<close> then resolves each leaf's path in a document
  (\<open>Resolve\<close>) or reads a metadata field (\<open>Entity_Meta\<close>) and asks the leaf kernel (\<open>Eval_Leaf\<close>), which
  compares numbers as decimals (\<open>Decimals\<close>, \<open>Numeric_Bucket\<close>), dates by subtype (\<open>Temporal\<close>), text and
  patterns (\<open>Utf8\<close>, \<open>Like_Pattern\<close>) under the declared types (\<open>Data_Type\<close>, \<open>Parse_Typed\<close>). Surviving rows are
  ordered (\<open>Ordering\<close>) and merged with a transaction's own writes (\<open>Merges\<close>). Beside the search path stand
  the claims of scheduled tasks (\<open>Claims\<close>), unique keys (\<open>Unique_Signature\<close>), attribution (\<open>Attribution\<close>)
  and the plugin registry (\<open>Plugins\<close>).

  \<^bold>\<open>Theories and sources.\<close>
  \<^item> \<open>Spi_Base\<close>: results as \<open>Err\<close>/\<open>Ok\<close>, loops that stop at the first error, int32 and int64 wrap-around,
    decimal digits, shared list facts.
  \<^item> \<open>Slice_Sort\<close>: \<open>sort.Slice\<close>, which promises nothing about equal keys, as a locale: the claims and the fields
    map take the sort as an argument and hold for every function with its two laws.
  \<^item> \<open>Data_Type\<close>: \<open>datatype.go\<close> and the lattice of \<open>numeric.go\<close>. Type sets stay sorted and collapse numeric
    types to their least upper bound.
  \<^item> \<open>Decimals\<close>: \<open>decimal.go\<close>. A decimal denotes the rational \<open>dval\<close>; comparison by sign, bit-length brackets
    and digit counts is the exact order; the canonical text parses back, and the one panic is located.
  \<^item> \<open>Numeric_Bucket\<close>: \<open>numeric.go\<close>, \<open>numeric_admit.go\<close>, \<open>numeric_bucket.go\<close>: admission of a value to a type,
    and the expansion of an operand into one comparison per declared type.
  \<^item> \<open>Filter_Op\<close>, \<open>Filter_Path\<close>, \<open>Path_Subscript\<close>, \<open>Resolve\<close>: \<open>filter.go\<close>, \<open>filter_path.go\<close>,
    \<open>filter_path_resolve.go\<close>. A path is accepted as given hops exactly when it spells them
    by the grammar; resolution yields exactly the
    addressed nodes. The JSON library is the record \<open>gj\<close>, its laws the locale \<open>json_doc\<close>, interpreted on trees.
  \<^item> \<open>Utf8\<close>, \<open>Like_Pattern\<close>: rune decoding as Go does it; \<open>like_pattern.go\<close>, whose greedy scan decides the
    declarative language of a pattern.
  \<^item> \<open>Parse_Typed\<close>, \<open>Temporal\<close>: \<open>parse_typed.go\<close>, \<open>temporal.go\<close>, \<open>temporal_subtype.go\<close>, with the layouts of
    \<open>time.Parse\<close> and the calendar. Floored comparisons under the mutated operator decide the original one.
  \<^item> \<open>Operand\<close>, \<open>Eval_Leaf\<close>, \<open>Entity_Meta\<close>, \<open>Prepared_Filter\<close>: \<open>operand.go\<close>, \<open>eval_leaf.go\<close>, \<open>types.go\<close>,
    \<open>filter_match.go\<close>, \<open>prepared_filter.go\<close>. A prepared filter is the denotation \<open>holds\<close> of its tree, and
    \<open>Prepare\<close> accepts exactly the well-formed filters, if every leaf names a source (one that names none slips
    past its path checks).
  \<^item> \<open>Ordering\<close>, \<open>Merges\<close>: \<open>order_class.go\<close>, \<open>order_compare.go\<close>, \<open>merge_bounded.go\<close>, \<open>merge_ordered.go\<close>,
    \<open>default_save_all.go\<close>. Of two entities exactly one comes first, and the order is transitive where no
    numeric key reads as NaN (a stored string can); both merges return the union of survivors and overlay, in
    order, in bulk or by single pulls, and drop no row silently below the greatest limit, where \<open>limit + 1\<close> wraps.
  \<^item> \<open>Conditions\<close>: \<open>condition_filter.go\<close>, \<open>predicate/condition.go\<close>, \<open>field_descriptor.go\<close>. Translation refines
    the meaning \<open>cond_holds\<close> of a condition; the validators share the locale \<open>depth_validator\<close>.
  \<^item> \<open>Predicate_Codec\<close>: \<open>predicate/parse.go\<close>, \<open>predicate/marshal.go\<close> under the member rule of
    \<open>strictjson/decode.go\<close>. The bytes a body is spelled with are kept beside its tree, for a function
    condition keeps its own. What is written for a parsed condition parses to the same condition, those bytes
    compacted.
  \<^item> \<open>Model_Schema\<close>, \<open>Model_Fields\<close>, \<open>Field_Cache\<close>: \<open>model_schema.go\<close>: the node invariant, the wire codec, the
    flat view of declared types, and the lock-free cache of that view as a step relation over any number of
    readers.
  \<^item> \<open>Claims\<close>: the scheduled-task types and \<open>scheduled_task_helpers.go\<close>: the choice of claims is within every
    limit, leaves nothing claimable behind, and takes turns between tenants.
  \<^item> \<open>Unique_Signature\<close>: \<open>unique.go\<close>, \<open>unique_signature.go\<close>: signatures identify values.
  \<^item> \<open>Attribution\<close>: \<open>context.go\<close>, \<open>txcontext.go\<close>, \<open>unique_context.go\<close>: slots of a context (locale
    \<open>ctx_slot\<close>), the origin of a causal chain, the attribution of a write.
  \<^item> \<open>Plugins\<close>: \<open>plugin.go\<close>: the registry and the factory options.
  \<^item> \<open>Spi_Errors\<close>: the tree of sentinels of \<open>errors.go\<close>, what each refusal of the package wraps, and what
    \<open>errors.Is\<close> answers: a refusal is exactly one client sentinel.
  \<^item> \<open>Suite_Search\<close>: fixtures, filters and assertions of \<open>spitest/searcher.go\<close>, \<open>filter_not.go\<close>, \<open>pattern.go\<close>,
    \<open>iterable.go\<close>, \<open>trackingread.go\<close>. A store whose reads answer as documented passes the cases that assert which
    rows a filter selects; stores with certain bugs do not.
  \<^item> \<open>Suite_Base\<close>: \<open>spitest/spitest.go\<close>: a case as calls whose continuation depends on the answers, runs of
    it on a store, and the register of skipped cases.
  \<^item> \<open>Suite_KeyValue\<close>: the contract \<open>KeyValueStore\<close> of \<open>persistence.go\<close> and the cases of \<open>spitest/keyvalue.go\<close>, its
    races as interleavings of atomic steps: at most one conditional write wins, and its value stays.
  \<^item> \<open>Search_Jobs\<close>: the job record of \<open>search_store.go\<close>, and what \<open>Suite_Jobs\<close> assumes of a store of jobs: a reading of
    the comments of \<open>AsyncSearchStore\<close>, which has no implementation here.
  \<^item> \<open>Suite_Jobs\<close>: the cases of \<open>spitest/asyncsearch.go\<close>: they pass on every store that does so.
  \<^item> This theory: the whole search, from the condition to the merged result.

  \<^bold>\<open>Correspondence.\<close> Definitions keep the names of the source; record fields carry a short prefix. A Go
  string is the list of its bytes. An error is a constructor that names its cause, with the values the
  message prints where a theorem needs them; a panic is \<open>None\<close> of an option and is shown unreachable or
  located. A Go map is a partial map, or the list of its entries where iteration matters. Integers are \<open>int\<close>
  with \<open>i32\<close> and \<open>i64\<close> written at every operation that can wrap.

  \<^bold>\<open>Parameters.\<close> Code outside the repository is an argument: the regular-expression engine, the uuid parser,
  case folding, floats and the byte-level JSON library enter through records or function arguments
  (\<open>ext\<close>, \<open>gj\<close>, \<open>scalar\<close>, \<open>decode\<close>, the text of a tree). The stores a suite drives are arguments too: a function
  from calls to answers, kept to the interface by a hypothesis, with its clocks. Where a theorem relies on one, the documented
  behaviour is a named hypothesis, and the witness instantiates it with a concrete function.

  \<^bold>\<open>Loops and bounds.\<close> No definition uses fuel. Recursion that is not structural has a measure: the rest of
  the text or stream, the claims still allowed, the depth still allowed (256 for the validators, 50 for the
  parser). \<open>decimal_ok\<close> asks for coefficients below 256 MiB of digits, where the comparison's int64 bracket is
  exact; \<open>claim_request_ok\<close> asks for counts in Go's \<open>int\<close>; the merge theorems ask for a limit below the greatest
  \<open>int\<close>, and for keys that are not NaN where they speak of order. A job case passes while the store's clock runs on by at
  most 390 ms beside the harness's own advances, the margin the suite names for its tightest case; the
  business clock and the harness's clock stay within ten minutes of the physical one, and the store holds at
  most a thousand jobs, the limit the cases claim with.

  \<^bold>\<open>Not modelled.\<close> The store interfaces beyond key-value and search-job stores (the rest of \<open>persistence.go\<close>,
  \<open>transaction.go\<close>, \<open>searcher.go\<close>, \<open>iterable.go\<close>, \<open>grouped_aggregator.go\<close>, \<open>cluster.go\<close>) are signatures and prose
  without code, implemented in other repositories; with them are left out the suites that drive them (entities,
  transactions, scheduled tasks, models, messages, workflows, audit, clock). Of the search and stream suites the cases that
  cancel a context, read at a point in time, order a result, overlay a transaction or look at a read set are left
  out, as is a self-executing search store. The texts of messages and of strict JSON refusals, \<open>NumericFloat\<close> (a float reading that
  no modelled code calls), the transaction lock and its discipline for plugins, and sharing of one schema node
  between two parents are left out.
\<close>

section \<open>A search, end to end\<close>

text \<open>
  The parts composed the way \<open>EntityStore.Search\<close> in \<open>persistence.go\<close> asks of a backend: translate the
  condition, prepare the filter once, keep the committed and the buffered rows it matches, merge them
  under the limit.
\<close>

lemma survivors_filter: "survivors del (filter P es) = filter P (survivors del es)"
  by (simp add: survivors_def conj_commute)

text \<open>C1: a search by a translated and prepared condition returns exactly the surviving committed rows and
  buffered writes on which the condition holds, or refuses with the limit error when they are more than the
  limit, for any positive limit below the greatest \<open>int\<close>: no row is lost, invented or cut off between the
  parts. The result is in sort order if no sort key of a row reads as NaN.\<close>

theorem search_exact:
  assumes translated: "ConditionToFilter c fm = Ok f" and prepared: "Prepare ext f = Ok pf"
    and limit: "0 < limit" "limit < MaxInt" and ordered: "in_order g sc specs adds" "in_order g sc specs es"
  shows "let hit = (\<lambda>e. Match g ext pf (Data e) (Meta e));
      result = (MergeBounded g sc (rows (filter hit es)) (filter hit adds) del specs limit :: 'e merge_error + 'd Entity list);
      wanted = filter_mset (\<lambda>e. cond_holds g ext fm (Data e) (Meta e) c) (mset adds + mset (survivors del es))
    in if int (size wanted) \<le> limit
       then \<exists>out. result = Ok out \<and> mset out = wanted
              \<and> (list_all (number_keys g sc specs) (adds @ es) \<longrightarrow> in_order g sc specs out)
       else result = Err (merge_error.ErrSearchResultLimitExceeded (nat limit + 1))"
proof -
  let ?lt = "\<lambda>a b. LessByOrder g sc a b specs"
  let ?hit = "\<lambda>e. cond_holds g ext fm (Data e) (Meta e) c"
  let ?as = "filter ?hit adds" and ?es = "filter ?hit (survivors del es)"
  have "in_order g sc specs ?as" "in_order g sc specs ?es"
    using ordered in_order_survivors [of g sc specs es del] by (simp_all add: in_order_def sorted_wrt_filter)
  moreover have "list_all (number_keys g sc specs) (?as @ ?es)" if "list_all (number_keys g sc specs) (adds @ es)"
    using that by (auto simp: list_all_iff survivors_def)
  ultimately have "list_all (number_keys g sc specs) (adds @ es) \<longrightarrow> in_order g sc specs (merge_lists ?lt ?as ?es)"
    using merge_lists_ordered by blast
  moreover have wanted: "filter_mset ?hit (mset adds + mset (survivors del es)) = mset (merge_lists ?lt ?as ?es)"
    by (simp add: merge_lists_mset)
  ultimately show ?thesis
    unfolding Let_def ConditionToFilter_match [OF translated prepared] MergeBounded_rows [OF limit]
      survivors_filter wanted by simp
qed

lemma sample_clause_rejects: "\<not> cond_holds tree_gj no_ext sample_fields JTrue zero_meta sample_clause"
proof -
  have a: "addressed tree_gj (container_hops (path_of ''$.tags[*]'')) (gj_parse tree_gj JTrue) = [None]" by code_simp
  have d: "declared_types sample_fields (elements_key (path_of ''$.tags[*]'')) = [String]" by code_simp
  have "\<not> op_holds no_ext ''EQUALS'' (GString ''a'') [String] (gj_stored tree_gj (element_at tree_gj None 0))"
    by code_simp
  then show ?thesis unfolding sample_clause_def cond_holds.simps a d by (auto simp: less_Suc_eq numeral_2_eq_2)
qed

lemma sample_clause_meta: "cond_holds tree_gj no_ext fm data m sample_clause = cond_holds tree_gj no_ext fm data zero_meta sample_clause"
  by (simp add: sample_clause_def)

theorem search_exact_witness:
  "\<exists>pf. Prepare no_ext sample_filter = Ok pf \<and>
     (let hit = (\<lambda>e. Match tree_gj no_ext pf (Data e) (Meta e));
          stored = [sample_entity ''b'' JTrue, sample_entity ''c'' sample_tags] in
      (MergeBounded tree_gj sample_scalar (rows (filter hit stored)) (filter hit [sample_entity ''a'' sample_tags])
        (\<lambda>i. i = ''c'') [] 1 :: nat merge_error + json Entity list) = Ok [sample_entity ''a'' sample_tags])"
proof -
  obtain pf where pf: "Prepare no_ext sample_filter = Ok pf" using sample_clause_prepares by blast
  let ?stored = "[sample_entity ''b'' JTrue, sample_entity ''c'' sample_tags]"
  let ?adds = "[sample_entity ''a'' sample_tags]"
  have o: "in_order tree_gj sample_scalar [] ?adds" "in_order tree_gj sample_scalar [] ?stored"
    by (simp add: in_order_def) code_simp
  have w: "filter_mset (\<lambda>e. cond_holds tree_gj no_ext sample_fields (Data e) (Meta e) sample_clause)
      (mset ?adds + mset (survivors (\<lambda>i. i = ''c'') ?stored)) = {#sample_entity ''a'' sample_tags#}"
    using sample_clause_holds sample_clause_rejects
    by (simp add: survivors_def sample_entity_def sample_clause_meta [of _ _ "zero_meta\<lparr>ID := _\<rparr>"])
  show ?thesis
    using search_exact [OF sample_clause_filter pf _ _ o, of 1 "\<lambda>i. i = ''c''"] pf w
    by (auto simp: Let_def simp del: filter.simps)
qed

end
